(* ===== verification/Prelude.thy ===== *)
theory Prelude
  imports Main "HOL-Library.Word"
begin

text \<open>
  The shared vocabulary of the development: the C integer types, faults and their
  sequencing, byte-addressed memory with 32-bit loads and stores, the linear table
  search every kernel table uses, and reachability with its invariant rule.
\<close>

unbundle bit_operations_syntax

named_theorems fault_simps \<open>evaluation of sequenced operations\<close>
named_theorems frame \<open>what an operation leaves unchanged\<close>

subsection \<open>C integer types\<close>

type_synonym uint = "32 word"
type_synonym ushort = "16 word"
type_synonym uchar = "8 word"

lemma uint_eq_iff [simp]: "uint (a :: 'a::len word) = uint b \<longleftrightarrow> a = b"
  by (simp add: word_uint_eq_iff)

lemma uint_eq_0_iff [simp]: "uint (a :: 'a::len word) = 0 \<longleftrightarrow> a = 0" "0 = uint a \<longleftrightarrow> a = 0"
  using uint_eq_iff[of a 0] by auto

lemma unat_eq_iff [simp]: "unat (a :: 'a::len word) = unat b \<longleftrightarrow> a = b"
  by (simp add: word_unat_eq_iff)

lemma unat_lt32: "unat (a :: uint) < 2 ^ 32"
  using unsigned_less[of a] by simp

subsection \<open>Faults\<close>

text \<open>
  A kernel operation that does not return normally either panics, spins for a lock
  another CPU holds, or goes to sleep.  Operations return \<open>Inl\<close> of a fault or
  \<open>Inr\<close> of the result with the new state.
\<close>

datatype fault = Panic string | Spin | Blocked

definition bindE :: "'e + 'a \<Rightarrow> ('a \<Rightarrow> 'e + 'b) \<Rightarrow> 'e + 'b" where
  "bindE m f = (case m of Inl e \<Rightarrow> Inl e | Inr x \<Rightarrow> f x)"

lemma bindE_Inl [simp, fault_simps]: "bindE (Inl e) f = Inl e"
  by (simp add: bindE_def)

lemma bindE_Inr [simp, fault_simps]: "bindE (Inr x) f = f x"
  by (simp add: bindE_def)

lemma bindE_eq_Inr: "bindE m f = Inr y \<longleftrightarrow> (\<exists>x. m = Inr x \<and> f x = Inr y)"
  by (cases m) auto

lemma bindE_eq_Inl: "bindE m f = Inl e \<longleftrightarrow> m = Inl e \<or> (\<exists>x. m = Inr x \<and> f x = Inl e)"
  by (cases m) auto

lemma bindE_InrE:
  assumes "bindE m f = Inr y"
  obtains x where "m = Inr x" "f x = Inr y"
  using assms by (auto simp: bindE_eq_Inr)

lemma bindE_cong [fundef_cong]:
  "m = m' \<Longrightarrow> (\<And>x. m' = Inr x \<Longrightarrow> f x = f' x) \<Longrightarrow> bindE m f = bindE m' f'"
  by (cases m') auto

lemma bindE_assoc: "bindE (bindE m f) g = bindE m (\<lambda>x. bindE (f x) g)"
  by (cases m) auto

subsection \<open>Byte-addressed memory\<close>

text \<open>
  Memory maps an address to a byte.  A pointer that the program computes with is a
  \<open>uint\<close> (it wraps); the cell it denotes is found at its unsigned value.
\<close>

type_synonym memory = "nat \<Rightarrow> uchar"

definition load32 :: "memory \<Rightarrow> nat \<Rightarrow> uint" where
  "load32 m a = ucast (m a) OR push_bit 8 (ucast (m (a + 1)))
     OR push_bit 16 (ucast (m (a + 2))) OR push_bit 24 (ucast (m (a + 3)))"

definition store32 :: "memory \<Rightarrow> nat \<Rightarrow> uint \<Rightarrow> memory" where
  "store32 m a w = m(a := ucast w, a + 1 := ucast (drop_bit 8 w),
     a + 2 := ucast (drop_bit 16 w), a + 3 := ucast (drop_bit 24 w))"

text \<open>A block of bytes stored at an address.\<close>

definition put_bytes :: "uchar list \<Rightarrow> nat \<Rightarrow> memory \<Rightarrow> memory" where
  "put_bytes bs a m = (\<lambda>x. if a \<le> x \<and> x < a + length bs then bs ! (x - a) else m x)"

lemma load32_store32_same [simp]: "load32 (store32 m a w) a = w"
proof -
  have "load32 (store32 m a w) a =
    ucast (ucast w :: uchar) OR push_bit 8 (ucast (ucast (drop_bit 8 w) :: uchar))
      OR push_bit 16 (ucast (ucast (drop_bit 16 w) :: uchar))
      OR push_bit 24 (ucast (ucast (drop_bit 24 w) :: uchar))"
    by (simp add: load32_def store32_def)
  also have "\<dots> = w"
  proof (rule bit_word_eqI)
    fix n assume "n < LENGTH(32)"
    then have "24 + (n - 24) = n \<or> n - 16 < 8" by auto
    with \<open>n < LENGTH(32)\<close> show "bit (ucast (ucast w :: uchar)
      OR push_bit 8 (ucast (ucast (drop_bit 8 w) :: uchar))
      OR push_bit 16 (ucast (ucast (drop_bit 16 w) :: uchar))
      OR push_bit 24 (ucast (ucast (drop_bit 24 w) :: uchar)) :: uint) n = bit w n"
      by (auto simp: bit_simps)
  qed
  finally show ?thesis .
qed

lemma load32_store32_other [simp]:
  "b + 4 \<le> a \<or> a + 4 \<le> b \<Longrightarrow> load32 (store32 m a w) b = load32 m b"
  by (auto simp: load32_def store32_def)

lemma store32_other: "b < a \<or> a + 4 \<le> b \<Longrightarrow> store32 m a w b = m b"
  by (auto simp: store32_def)

lemma load32_cong:
  assumes "\<And>i. i < 4 \<Longrightarrow> m (a + i) = m' (a + i)"
  shows "load32 m a = load32 m' a"
  using assms[of 0] assms[of 1] assms[of 2] assms[of 3] by (simp add: load32_def)

subsection \<open>Scanning a table\<close>

text \<open>
  The kernel finds a table entry by a loop from the first entry to the last that stops
  at the first match; \<open>find_idx\<close> is that loop.
\<close>

fun find_idx :: "('a \<Rightarrow> bool) \<Rightarrow> 'a list \<Rightarrow> nat option" where
  "find_idx P [] = None"
| "find_idx P (x # xs) = (if P x then Some 0 else map_option Suc (find_idx P xs))"

lemma find_idx_None: "find_idx P xs = None \<longleftrightarrow> (\<forall>x \<in> set xs. \<not> P x)"
  by (induction xs) auto

lemma find_idx_SomeD:
  "find_idx P xs = Some i \<Longrightarrow> i < length xs \<and> P (xs ! i) \<and> (\<forall>j < i. \<not> P (xs ! j))"
proof (induction xs arbitrary: i)
  case (Cons x xs)
  then show ?case by (cases i) (auto split: if_splits simp: less_Suc_eq_0_disj)
qed simp

lemma find_idx_SomeI:
  "i < length xs \<Longrightarrow> P (xs ! i) \<Longrightarrow> (\<And>j. j < i \<Longrightarrow> \<not> P (xs ! j)) \<Longrightarrow> find_idx P xs = Some i"
proof (induction xs arbitrary: i)
  case (Cons x xs)
  show ?case
  proof (cases i)
    case (Suc k)
    have "find_idx P xs = Some k"
      using Cons.prems(1,2) Cons.prems(3)[of "Suc j" for j] by (intro Cons.IH) (auto simp: Suc)
    then show ?thesis using Cons.prems(3)[of 0] by (simp add: Suc)
  qed (use Cons.prems in simp)
qed simp

lemma find_idx_length: "find_idx P xs = Some i \<Longrightarrow> i < length xs"
  by (simp add: find_idx_SomeD)

lemma find_idx_prop: "find_idx P xs = Some i \<Longrightarrow> P (xs ! i)"
  by (simp add: find_idx_SomeD)

lemma find_idx_Some_ex: "x \<in> set xs \<Longrightarrow> P x \<Longrightarrow> \<exists>i. find_idx P xs = Some i"
  using find_idx_None[of P xs] by (cases "find_idx P xs") auto

subsection \<open>Reachable states\<close>

inductive reach :: "('s \<Rightarrow> bool) \<Rightarrow> ('s \<Rightarrow> 's \<Rightarrow> bool) \<Rightarrow> 's \<Rightarrow> bool"
  for start :: "'s \<Rightarrow> bool" and step :: "'s \<Rightarrow> 's \<Rightarrow> bool" where
  reach_start: "start s \<Longrightarrow> reach start step s"
| reach_step: "reach start step s \<Longrightarrow> step s t \<Longrightarrow> reach start step t"

text \<open>The contract of an inductive invariant, and what a client gets from it.\<close>

locale inv_system =
  fixes start :: "'s \<Rightarrow> bool"
    and step :: "'s \<Rightarrow> 's \<Rightarrow> bool"
    and inv :: "'s \<Rightarrow> bool"
  assumes start_inv: "start s \<Longrightarrow> inv s"
    and step_inv: "inv s \<Longrightarrow> step s t \<Longrightarrow> inv t"
begin

lemma reach_inv: "reach start step s \<Longrightarrow> inv s"
  by (induction rule: reach.induct) (auto intro: start_inv step_inv)

end

end
