(* ===== verification/Cstring.thy ===== *)
theory Cstring
  imports Prelude
begin

text \<open>
  The memory and string routines of string.c (kernel) and ulib.c (user library), over
  byte-addressed memory: each loop of the source is one recursive function, and the
  C int parameter \<open>n\<close> of \<open>strncpy\<close> and \<open>safestrcpy\<close> stays an \<open>int\<close>.
  A NUL-terminated string in memory is related to the list of its characters by
  \<open>cstr_at\<close>.
\<close>

subsection \<open>Filling memory: stosb, stosl, memset\<close>

fun stosb :: "memory \<Rightarrow> nat \<Rightarrow> uint \<Rightarrow> nat \<Rightarrow> memory" where
  "stosb m a d 0 = m"
| "stosb m a d (Suc n) = stosb (m(a := ucast d)) (a + 1) d n"

fun stosl :: "memory \<Rightarrow> nat \<Rightarrow> uint \<Rightarrow> nat \<Rightarrow> memory" where
  "stosl m a d 0 = m"
| "stosl m a d (Suc n) = stosl (store32 m a d) (a + 4) d n"

definition memset :: "memory \<Rightarrow> nat \<Rightarrow> uint \<Rightarrow> nat \<Rightarrow> memory" where
  "memset m dst c n =
     (if dst mod 4 = 0 \<and> n mod 4 = 0 then
        let c = c AND 0xFF
        in stosl m dst (push_bit 24 c OR push_bit 16 c OR push_bit 8 c OR c) (n div 4)
      else stosb m dst c n)"

subsection \<open>Comparing and moving blocks\<close>

fun memcmp :: "memory \<Rightarrow> nat \<Rightarrow> nat \<Rightarrow> nat \<Rightarrow> int" where
  "memcmp m s1 s2 0 = 0"
| "memcmp m s1 s2 (Suc n) =
     (if m s1 \<noteq> m s2 then uint (m s1) - uint (m s2) else memcmp m (s1 + 1) (s2 + 1) n)"

text \<open>The two copy loops of memmove: \<open>*--d = *--s\<close> and \<open>*d++ = *s++\<close>.\<close>

fun copy_bwd :: "memory \<Rightarrow> nat \<Rightarrow> nat \<Rightarrow> nat \<Rightarrow> memory" where
  "copy_bwd m d s 0 = m"
| "copy_bwd m d s (Suc n) = copy_bwd (m(d - 1 := m (s - 1))) (d - 1) (s - 1) n"

fun copy_fwd :: "memory \<Rightarrow> nat \<Rightarrow> nat \<Rightarrow> nat \<Rightarrow> memory" where
  "copy_fwd m d s 0 = m"
| "copy_fwd m d s (Suc n) = copy_fwd (m(d := m s)) (d + 1) (s + 1) n"

definition memmove :: "memory \<Rightarrow> nat \<Rightarrow> nat \<Rightarrow> nat \<Rightarrow> memory" where
  "memmove m dst src n =
     (if src < dst \<and> src + n > dst then copy_bwd m (dst + n) (src + n) n
      else copy_fwd m dst src n)"

definition memcpy :: "memory \<Rightarrow> nat \<Rightarrow> nat \<Rightarrow> nat \<Rightarrow> memory" where
  "memcpy m dst src n = memmove m dst src n"

subsection \<open>Kernel string routines\<close>

fun strncmp :: "memory \<Rightarrow> nat \<Rightarrow> nat \<Rightarrow> nat \<Rightarrow> int" where
  "strncmp m p q 0 = 0"
| "strncmp m p q (Suc n) =
     (if m p \<noteq> 0 \<and> m p = m q then strncmp m (p + 1) (q + 1) n
      else uint (m p) - uint (m q))"

fun strncpy_pad :: "memory \<Rightarrow> nat \<Rightarrow> nat \<Rightarrow> memory" where
  "strncpy_pad m s 0 = m"
| "strncpy_pad m s (Suc n) = strncpy_pad (m(s := 0)) (s + 1) n"

fun strncpy_copy :: "memory \<Rightarrow> nat \<Rightarrow> nat \<Rightarrow> nat \<Rightarrow> memory" where
  "strncpy_copy m s t 0 = m"
| "strncpy_copy m s t (Suc n) =
     (if m t \<noteq> 0 then strncpy_copy (m(s := m t)) (s + 1) (t + 1) n
      else strncpy_pad (m(s := m t)) (s + 1) n)"

definition strncpy :: "memory \<Rightarrow> nat \<Rightarrow> nat \<Rightarrow> int \<Rightarrow> memory" where
  "strncpy m s t n = strncpy_copy m s t (nat n)"

text \<open>The argument \<open>k\<close> is the value of \<open>n\<close> after \<open>--n\<close>: the iterations left.\<close>

fun safestrcpy_loop :: "memory \<Rightarrow> nat \<Rightarrow> nat \<Rightarrow> nat \<Rightarrow> memory" where
  "safestrcpy_loop m s t 0 = m(s := 0)"
| "safestrcpy_loop m s t (Suc k) =
     (if m t \<noteq> 0 then safestrcpy_loop (m(s := m t)) (s + 1) (t + 1) k
      else (m(s := m t))(s + 1 := 0))"

definition safestrcpy :: "memory \<Rightarrow> nat \<Rightarrow> nat \<Rightarrow> int \<Rightarrow> memory" where
  "safestrcpy m s t n = (if n \<le> 0 then m else safestrcpy_loop m s t (nat (n - 1)))"

partial_function (option) strlen_from :: "memory \<Rightarrow> nat \<Rightarrow> nat \<Rightarrow> nat option" where
  "strlen_from m s n = (if m (s + n) = 0 then Some n else strlen_from m s (n + 1))"

definition strlen :: "memory \<Rightarrow> nat \<Rightarrow> nat option" where
  "strlen m s = strlen_from m s 0"

subsection \<open>User library string routines\<close>

partial_function (option) strcpy :: "memory \<Rightarrow> nat \<Rightarrow> nat \<Rightarrow> memory option" where
  "strcpy m s t =
     (if m t = 0 then Some (m(s := m t)) else strcpy (m(s := m t)) (s + 1) (t + 1))"

partial_function (option) strcmp :: "memory \<Rightarrow> nat \<Rightarrow> nat \<Rightarrow> int option" where
  "strcmp m p q =
     (if m p \<noteq> 0 \<and> m p = m q then strcmp m (p + 1) (q + 1)
      else Some (uint (m p) - uint (m q)))"

text \<open>The result is the address of the first occurrence, or 0.\<close>

partial_function (option) strchr :: "memory \<Rightarrow> nat \<Rightarrow> uchar \<Rightarrow> nat option" where
  "strchr m s c =
     (if m s = 0 then Some 0 else if m s = c then Some s else strchr m (s + 1) c)"

partial_function (option) atoi_from :: "memory \<Rightarrow> nat \<Rightarrow> int \<Rightarrow> int option" where
  "atoi_from m s n =
     (if 48 \<le> m s \<and> m s \<le> 57 then atoi_from m (s + 1) (n * 10 + uint (m s) - 48) else Some n)"

definition atoi :: "memory \<Rightarrow> nat \<Rightarrow> int option" where
  "atoi m s = atoi_from m s 0"

definition umemset :: "memory \<Rightarrow> nat \<Rightarrow> uint \<Rightarrow> nat \<Rightarrow> memory" where
  "umemset m dst c n = stosb m dst c n"

definition umemmove :: "memory \<Rightarrow> nat \<Rightarrow> nat \<Rightarrow> int \<Rightarrow> memory" where
  "umemmove m vdst vsrc n = copy_fwd m vdst vsrc (nat n)"

subsection \<open>Block operations: what they write\<close>

lemma stosb_apply: "stosb m a d n x = (if a \<le> x \<and> x < a + n then ucast d else m x)"
  by (induction n arbitrary: m a) (auto simp: not_le less_Suc_eq)

lemma store32_rep:
  assumes "c = d AND 0xFF"
  shows "store32 m a (push_bit 24 c OR push_bit 16 c OR push_bit 8 c OR c) x =
    (if a \<le> x \<and> x < a + 4 then ucast d else m x)"
proof -
  have c: "c = take_bit 8 d" by (simp add: assms take_bit_eq_mask mask_eq_exp_minus_1)
  have b: "ucast (push_bit 24 c OR push_bit 16 c OR push_bit 8 c OR c) = (ucast d :: uchar)"
    "ucast (drop_bit 8 (push_bit 24 c OR push_bit 16 c OR push_bit 8 c OR c)) = (ucast d :: uchar)"
    "ucast (drop_bit 16 (push_bit 24 c OR push_bit 16 c OR push_bit 8 c OR c)) = (ucast d :: uchar)"
    "ucast (drop_bit 24 (push_bit 24 c OR push_bit 16 c OR push_bit 8 c OR c)) = (ucast d :: uchar)"
    unfolding c by (rule bit_word_eqI; auto simp: bit_simps)+
  show ?thesis unfolding store32_def b by auto
qed

lemma stosl_rep:
  assumes "c = d AND 0xFF"
  shows "stosl m a (push_bit 24 c OR push_bit 16 c OR push_bit 8 c OR c) n x =
    (if a \<le> x \<and> x < a + 4 * n then ucast d else m x)"
  by (induction n arbitrary: m a) (auto simp: store32_rep[OF assms])

lemma copy_fwd_apply:
  "d \<le> s \<or> s + n \<le> d \<Longrightarrow>
   copy_fwd m d s n x = (if d \<le> x \<and> x < d + n then m (s + (x - d)) else m x)"
proof (induction n arbitrary: m d s)
  case (Suc n)
  have IH: "copy_fwd (m(d := m s)) (d + 1) (s + 1) n x =
    (if d + 1 \<le> x \<and> x < d + 1 + n then (m(d := m s)) (s + 1 + (x - (d + 1)))
     else (m(d := m s)) x)"
    using Suc.prems by (intro Suc.IH) auto
  show ?case
  proof (cases "d + 1 \<le> x \<and> x < d + 1 + n")
    case True
    then have "s + 1 + (x - (d + 1)) = s + (x - d)" "s + (x - d) \<noteq> d" using Suc.prems by auto
    with True IH show ?thesis by simp
  next
    case False
    with IH show ?thesis by (cases "x = d") auto
  qed
qed auto

lemma copy_bwd_apply:
  "s \<le> d \<Longrightarrow>
   copy_bwd m (d + n) (s + n) n x = (if d \<le> x \<and> x < d + n then m (s + (x - d)) else m x)"
proof (induction n arbitrary: m)
  case (Suc n)
  have "copy_bwd m (d + Suc n) (s + Suc n) (Suc n) x = copy_bwd (m(d + n := m (s + n))) (d + n) (s + n) n x"
    by simp
  also have "\<dots> = (if d \<le> x \<and> x < d + n then (m(d + n := m (s + n))) (s + (x - d))
                    else (m(d + n := m (s + n))) x)"
    using Suc.prems by (rule Suc.IH)
  also have "\<dots> = (if d \<le> x \<and> x < d + Suc n then m (s + (x - d)) else m x)"
    using Suc.prems by (auto simp: less_Suc_eq)
  finally show ?case .
qed auto

lemma memset_eq: "memset m dst c n x = (if dst \<le> x \<and> x < dst + n then ucast c else m x)"
proof (cases "dst mod 4 = 0 \<and> n mod 4 = 0")
  case True
  then have "4 * (n div 4) = n" by auto
  then show ?thesis unfolding memset_def Let_def if_P[OF True] stosl_rep[OF refl] by simp
qed (simp only: memset_def stosb_apply if_False)

lemma memmove_eq:
  "memmove m dst src n x = (if dst \<le> x \<and> x < dst + n then m (src + (x - dst)) else m x)"
proof (cases "src < dst \<and> src + n > dst")
  case False
  then have "dst \<le> src \<or> src + n \<le> dst" by auto
  with False show ?thesis by (auto simp: memmove_def copy_fwd_apply)
qed (simp add: memmove_def copy_bwd_apply)

subsection \<open>Strings in memory\<close>

fun cstr_at :: "memory \<Rightarrow> nat \<Rightarrow> uchar list \<Rightarrow> bool" where
  "cstr_at m p [] = (m p = 0)"
| "cstr_at m p (x # xs) = (x \<noteq> 0 \<and> m p = x \<and> cstr_at m (p + 1) xs)"

lemma cstr_at_cong:
  "(\<And>i. i \<le> length xs \<Longrightarrow> m' (p + i) = m (p + i)) \<Longrightarrow> cstr_at m' p xs = cstr_at m p xs"
proof (induction xs arbitrary: p)
  case (Cons x xs)
  have "cstr_at m' (p + 1) xs = cstr_at m (p + 1) xs"
    using Cons.prems[of "Suc i" for i] by (intro Cons.IH) simp
  then show ?case using Cons.prems[of 0] by simp
qed simp

lemma cstr_at_unique: "cstr_at m p xs \<Longrightarrow> cstr_at m p ys \<Longrightarrow> xs = ys"
  by (induction xs arbitrary: p ys) (case_tac ys; auto)+

lemma strlen_from_cstr: "cstr_at m (p + n) xs \<Longrightarrow> strlen_from m p n = Some (n + length xs)"
proof (induction xs arbitrary: n)
  case (Cons x xs)
  then have "strlen_from m p (n + 1) = Some (n + 1 + length xs)" by (intro Cons.IH) simp
  with Cons.prems show ?case by (subst strlen_from.simps) auto
qed (simp add: strlen_from.simps)

lemma strlen_cstr: "cstr_at m p xs \<Longrightarrow> strlen m p = Some (length xs)"
  using strlen_from_cstr[of m p 0 xs] by (simp add: strlen_def)

lemma strcmp_cstr_diff:
  "cstr_at m p xs \<Longrightarrow> cstr_at m q ys \<Longrightarrow> \<exists>r. strcmp m p q = Some r \<and> (r = 0 \<longleftrightarrow> xs = ys)"
proof (induction xs arbitrary: p q ys)
  case Nil
  then show ?case by (cases ys) (auto simp: strcmp.simps[of m p q])
next
  case (Cons x xs)
  then show ?case by (cases ys) (auto simp: strcmp.simps[of m p q])
qed

lemma strncmp_cstr:
  "cstr_at m p xs \<Longrightarrow> cstr_at m q ys \<Longrightarrow> strncmp m p q n = 0 \<longleftrightarrow> take n xs = take n ys"
proof (induction n arbitrary: p q xs ys)
  case (Suc n)
  then show ?case by (cases xs; cases ys) auto
qed simp

lemma safestrcpy_loop_outside:
  "x < s \<or> s + k < x \<Longrightarrow> safestrcpy_loop m s t k x = m x"
  by (induction k arbitrary: m s t) auto

lemma safestrcpy_loop_cstr:
  assumes "cstr_at m t xs" and "s + k < t \<or> t + length xs < s"
  shows "cstr_at (safestrcpy_loop m s t k) s (take k xs)"
  using assms
proof (induction k arbitrary: m s t xs)
  case (Suc k)
  show ?case
  proof (cases xs)
    case (Cons x ys)
    let ?m = "m(s := m t)"
    have "cstr_at ?m (t + 1) ys = cstr_at m (t + 1) ys"
      using Suc.prems Cons by (intro cstr_at_cong) auto
    then have c: "cstr_at ?m (t + 1) ys" using Suc.prems Cons by simp
    have "cstr_at (safestrcpy_loop ?m (s + 1) (t + 1) k) (s + 1) (take k ys)"
      using Suc.prems Cons by (intro Suc.IH[OF c]) auto
    moreover have "safestrcpy_loop ?m (s + 1) (t + 1) k s = m t"
      by (subst safestrcpy_loop_outside) auto
    ultimately show ?thesis using Suc.prems Cons by auto
  qed (use Suc.prems in auto)
qed auto

subsection \<open>Properties\<close>

text \<open>C17: memmove copies the \<open>n\<close> bytes that were at \<open>src\<close> before the call to \<open>dst\<close> and
  writes nothing else, also when the two blocks overlap in either direction.\<close>

theorem memmove_correct:
  "memmove m dst src n = (\<lambda>x. if dst \<le> x \<and> x < dst + n then m (src + (x - dst)) else m x)"
  by (rule ext) (rule memmove_eq)

text \<open>C18: memset stores the low byte of \<open>c\<close> in exactly the \<open>n\<close> bytes from \<open>dst\<close>, whether it
  takes the word-at-a-time path (aligned block) or the byte path.\<close>

theorem memset_correct:
  "memset m dst c n = (\<lambda>x. if dst \<le> x \<and> x < dst + n then ucast c else m x)"
  by (rule ext) (rule memset_eq)

text \<open>C19: safestrcpy with a positive bound leaves at \<open>s\<close> a NUL-terminated string, the first
  \<open>n - 1\<close> characters of the source, and writes nothing outside the \<open>n\<close> bytes at \<open>s\<close>.\<close>

theorem safestrcpy_correct:
  assumes "0 < n" and "cstr_at m t xs" and "s + nat n \<le> t \<or> t + length xs < s"
  shows "cstr_at (safestrcpy m s t n) s (take (nat n - 1) xs) \<and>
    (\<forall>x. x < s \<or> s + nat n \<le> x \<longrightarrow> safestrcpy m s t n x = m x)"
proof -
  have n: "nat (n - 1) = nat n - 1" "0 < nat n" using assms(1) by auto
  have "cstr_at (safestrcpy_loop m s t (nat n - 1)) s (take (nat n - 1) xs)"
    using assms n by (intro safestrcpy_loop_cstr) auto
  moreover have "\<forall>x. x < s \<or> s + nat n \<le> x \<longrightarrow> safestrcpy_loop m s t (nat n - 1) x = m x"
    using n by (auto intro!: safestrcpy_loop_outside)
  ultimately show ?thesis using assms(1) n by (simp add: safestrcpy_def)
qed

definition demo_mem :: memory where
  "demo_mem = (\<lambda>_. 7)(100 := 105, 101 := 110, 102 := 105, 103 := 116, 104 := 0)"

theorem safestrcpy_correct_witness:
  "cstr_at (safestrcpy demo_mem 10 100 3) 10 [105, 110] \<and> safestrcpy demo_mem 10 100 3 13 = 7"
proof -
  have "cstr_at demo_mem 100 [105, 110, 105, 116]" by (simp add: demo_mem_def)
  from safestrcpy_correct[OF _ this, of 3 10] show ?thesis by (simp add: demo_mem_def)
qed

end
