(* ===== verification/Spinlock.thy ===== *)
theory Spinlock
  imports Prelude
begin

text \<open>
  spinlock.c: interrupt nesting with pushcli/popcli, and spin locks.  The state is the
  per-CPU part of \<open>struct cpu\<close> (proc.h), with the CPU's interrupt flag, task register and
  page-table register, and the table of all spin
  locks of the kernel; every later component's state extends this record.  A lock's
  debugging call stack (\<open>pcs\<close>) is not kept.  \<open>acquire\<close> and \<open>release\<close> are given first as
  whole operations, then as the machine-level steps several CPUs interleave.
\<close>

subsection \<open>State\<close>

record spinlock =
  locked :: uint
  lname :: string
  lcpu :: "nat option"

text \<open>
  The scheduler context of a CPU is where its scheduler called swtch: in the FCFS case, in the
  loop of the priority case (with the chosen priority and the table index), or in the
  round-robin loop (with the index).
\<close>

datatype spoint = In_fcfs | In_prio int nat | In_rr nat

record cpu =
  apicid :: uchar
  scheduler :: spoint
  ncli :: int
  intena :: bool
  eflags_if :: bool
  cproc :: "nat option"
  ts_ss0 :: uint
  ts_esp0 :: uint
  ts_iomb :: ushort
  tr :: uint
  cr3 :: uint

text \<open>The spin locks of the kernel, by the object that contains them.\<close>

datatype lockid = L_ptable | L_kmem | L_ftable | L_ticks | L_cons | L_icache | L_bcache
  | L_log | L_ide | L_pipe uint | L_buf nat | L_inode nat

record lockst =
  ncpu :: nat
  cpus :: "nat \<Rightarrow> cpu"
  locks :: "lockid \<Rightarrow> spinlock"

definition set_cpu :: "nat \<Rightarrow> (cpu \<Rightarrow> cpu) \<Rightarrow> 'a lockst_scheme \<Rightarrow> 'a lockst_scheme" where
  "set_cpu c f s = s\<lparr>cpus := (cpus s)(c := f (cpus s c))\<rparr>"

definition set_lock :: "lockid \<Rightarrow> (spinlock \<Rightarrow> spinlock) \<Rightarrow> 'a lockst_scheme \<Rightarrow> 'a lockst_scheme" where
  "set_lock l f s = s\<lparr>locks := (locks s)(l := f (locks s l))\<rparr>"

lemma set_cpu_sel [simp]:
  "cpus (set_cpu c f s) = (cpus s)(c := f (cpus s c))" "locks (set_cpu c f s) = locks s"
  "ncpu (set_cpu c f s) = ncpu s" "lockst.more (set_cpu c f s) = lockst.more s"
  by (simp_all add: set_cpu_def)

lemma set_lock_sel [simp]:
  "cpus (set_lock l f s) = cpus s" "locks (set_lock l f s) = (locks s)(l := f (locks s l))"
  "ncpu (set_lock l f s) = ncpu s" "lockst.more (set_lock l f s) = lockst.more s"
  by (simp_all add: set_lock_def)

subsection \<open>Finding the current CPU\<close>

text \<open>\<open>ifl\<close> is the interrupt flag of the executing CPU and \<open>apic\<close> its lapicid().\<close>

definition mycpu :: "bool \<Rightarrow> uchar \<Rightarrow> 'a lockst_scheme \<Rightarrow> fault + nat" where
  "mycpu ifl apic s =
     (if ifl then Inl (Panic ''mycpu called with interrupts enabled'')
      else case find_idx (\<lambda>i. apicid (cpus s i) = apic) [0..<ncpu s] of
             Some i \<Rightarrow> Inr i
           | None \<Rightarrow> Inl (Panic ''unknown apicid''))"

subsection \<open>Interrupt nesting\<close>

definition cli :: "nat \<Rightarrow> 'a lockst_scheme \<Rightarrow> 'a lockst_scheme" where
  "cli c s = set_cpu c (eflags_if_update (\<lambda>_. False)) s"

definition sti :: "nat \<Rightarrow> 'a lockst_scheme \<Rightarrow> 'a lockst_scheme" where
  "sti c s = set_cpu c (eflags_if_update (\<lambda>_. True)) s"

definition pushcli :: "nat \<Rightarrow> 'a lockst_scheme \<Rightarrow> 'a lockst_scheme" where
  "pushcli c s =
     (let eflags = eflags_if (cpus s c);
          s = cli c s;
          s = (if ncli (cpus s c) = 0 then set_cpu c (intena_update (\<lambda>_. eflags)) s else s)
      in set_cpu c (ncli_update (\<lambda>n. n + 1)) s)"

definition popcli :: "nat \<Rightarrow> 'a lockst_scheme \<Rightarrow> fault + 'a lockst_scheme" where
  "popcli c s =
     (if eflags_if (cpus s c) then Inl (Panic ''popcli - interruptible'')
      else let s = set_cpu c (ncli_update (\<lambda>n. n - 1)) s
           in if ncli (cpus s c) < 0 then Inl (Panic ''popcli'')
              else if ncli (cpus s c) = 0 \<and> intena (cpus s c) then Inr (sti c s)
              else Inr s)"

subsection \<open>Spin locks\<close>

definition initlock :: "lockid \<Rightarrow> string \<Rightarrow> 'a lockst_scheme \<Rightarrow> 'a lockst_scheme" where
  "initlock l name s = set_lock l (\<lambda>_. \<lparr>locked = 0, lname = name, lcpu = None\<rparr>) s"

definition holding :: "nat \<Rightarrow> lockid \<Rightarrow> 'a lockst_scheme \<Rightarrow> fault + (bool \<times> 'a lockst_scheme)" where
  "holding c l s =
     (let s = pushcli c s;
          r = (locked (locks s l) \<noteq> 0 \<and> lcpu (locks s l) = Some c)
      in bindE (popcli c s) (\<lambda>s. Inr (r, s)))"

text \<open>
  The loop \<open>while(xchg(&lk->locked, 1) != 0)\<close> ends at once when the lock is free; otherwise
  it writes 1 over 1 and the CPU spins until another CPU releases the lock.
\<close>

definition acquire :: "nat \<Rightarrow> lockid \<Rightarrow> 'a lockst_scheme \<Rightarrow> fault + 'a lockst_scheme" where
  "acquire c l s =
     bindE (holding c l (pushcli c s)) (\<lambda>(r, s).
       if r then Inl (Panic ''acquire'')
       else if locked (locks s l) \<noteq> 0 then Inl Spin
       else Inr (set_lock l (lcpu_update (\<lambda>_. Some c)) (set_lock l (locked_update (\<lambda>_. 1)) s)))"

definition release :: "nat \<Rightarrow> lockid \<Rightarrow> 'a lockst_scheme \<Rightarrow> fault + 'a lockst_scheme" where
  "release c l s =
     bindE (holding c l s) (\<lambda>(r, s).
       if \<not> r then Inl (Panic ''release'')
       else popcli c (set_lock l (locked_update (\<lambda>_. 0)) (set_lock l (lcpu_update (\<lambda>_. None)) s)))"

subsection \<open>Well-formed CPUs and closed forms\<close>

definition cpu_ok :: "cpu \<Rightarrow> bool" where
  "cpu_ok p \<longleftrightarrow> 0 \<le> ncli p \<and> (0 < ncli p \<longrightarrow> \<not> eflags_if p)"

text \<open>What pushcli followed by popcli leaves behind: the saved interrupt flag.\<close>

definition touch :: "nat \<Rightarrow> 'a lockst_scheme \<Rightarrow> 'a lockst_scheme" where
  "touch c s = (if ncli (cpus s c) = 0
     then set_cpu c (intena_update (\<lambda>_. eflags_if (cpus s c))) s else s)"

definition lock_free :: "lockid \<Rightarrow> 'a lockst_scheme \<Rightarrow> bool" where
  "lock_free l s \<longleftrightarrow> locked (locks s l) = 0 \<and> lcpu (locks s l) = None"

definition held_by :: "nat \<Rightarrow> lockid \<Rightarrow> 'a lockst_scheme \<Rightarrow> bool" where
  "held_by c l s \<longleftrightarrow> locked (locks s l) \<noteq> 0 \<and> lcpu (locks s l) = Some c"

lemma touch_sel [simp]:
  "locks (touch c s) = locks s" "ncpu (touch c s) = ncpu s"
  "lockst.more (touch c s) = lockst.more s"
  "ncli (cpus (touch c s) d) = ncli (cpus s d)"
  "eflags_if (cpus (touch c s) d) = eflags_if (cpus s d)"
  "cproc (cpus (touch c s) d) = cproc (cpus s d)"
  by (auto simp: touch_def)

lemma touch_cpu_ok [simp]: "cpu_ok (cpus (touch c s) d) = cpu_ok (cpus s d)"
  by (auto simp: cpu_ok_def)

lemma lockst_eqI:
  "ncpu s = ncpu t \<Longrightarrow> cpus s = cpus t \<Longrightarrow> locks s = locks t \<Longrightarrow> lockst.more s = lockst.more t \<Longrightarrow>
   (s :: 'a lockst_scheme) = t"
  by simp

lemma pushcli_sel [simp]:
  "locks (pushcli c s) = locks s" "ncpu (pushcli c s) = ncpu s"
  "lockst.more (pushcli c s) = lockst.more s"
  "ncli (cpus (pushcli c s) c) = ncli (cpus s c) + 1" "\<not> eflags_if (cpus (pushcli c s) c)"
  "d \<noteq> c \<Longrightarrow> cpus (pushcli c s) d = cpus s d"
  "cproc (cpus (pushcli c s) d) = cproc (cpus s d)"
  by (auto simp: pushcli_def Let_def cli_def)

lemma popcli_pushcli:
  assumes "cpu_ok (cpus s c)"
  shows "popcli c (pushcli c s) = Inr (touch c s)"
proof (cases "ncli (cpus s c) = 0")
  case True
  then show ?thesis
    by (cases "eflags_if (cpus s c)")
      (auto simp: popcli_def pushcli_def touch_def Let_def cli_def sti_def intro!: lockst_eqI)
next
  case False
  with assms show ?thesis
    by (auto simp: popcli_def pushcli_def touch_def Let_def cli_def cpu_ok_def intro!: lockst_eqI)
qed

lemma holding_eq:
  "cpu_ok (cpus s c) \<Longrightarrow> holding c l s = Inr (held_by c l s, touch c s)"
  by (simp add: holding_def Let_def popcli_pushcli held_by_def)

lemma pushcli_cpu_ok: "cpu_ok (cpus s c) \<Longrightarrow> cpu_ok (cpus (pushcli c s) c)"
  by (auto simp: cpu_ok_def)

lemma touch_pushcli [simp]: "cpu_ok (cpus s c) \<Longrightarrow> touch c (pushcli c s) = pushcli c s"
  by (auto simp: touch_def cpu_ok_def)

definition acquired :: "nat \<Rightarrow> lockid \<Rightarrow> 'a lockst_scheme \<Rightarrow> 'a lockst_scheme" where
  "acquired c l s = set_lock l (\<lambda>k. k\<lparr>locked := 1, lcpu := Some c\<rparr>) (pushcli c s)"

lemma acquired_sel [simp]:
  "lockst.more (acquired c l s) = lockst.more s" "ncpu (acquired c l s) = ncpu s"
  "cpus (acquired c l s) = cpus (pushcli c s)"
  "locks (acquired c l s) = (locks s)(l := (locks s l)\<lparr>locked := 1, lcpu := Some c\<rparr>)"
  by (simp_all add: acquired_def)

lemma held_by_acquired [simp]: "held_by c l (acquired c l s)"
  by (simp add: held_by_def)

lemma acquire_eq:
  assumes "cpu_ok (cpus s c)"
  shows "acquire c l s =
    (if held_by c l s then Inl (Panic ''acquire'')
     else if locked (locks s l) \<noteq> 0 then Inl Spin else Inr (acquired c l s))"
proof -
  have "holding c l (pushcli c s) = Inr (held_by c l s, pushcli c s)"
    using assms by (simp add: holding_eq pushcli_cpu_ok held_by_def)
  then show ?thesis
    by (auto simp: acquire_def acquired_def intro!: lockst_eqI)
qed

lemma acquire_free: "cpu_ok (cpus s c) \<Longrightarrow> lock_free l s \<Longrightarrow> acquire c l s = Inr (acquired c l s)"
  by (simp add: acquire_eq lock_free_def held_by_def)

lemma acquire_InrD:
  "cpu_ok (cpus s c) \<Longrightarrow> acquire c l s = Inr t \<Longrightarrow> t = acquired c l s \<and> locked (locks s l) = 0"
  by (auto simp: acquire_eq split: if_splits)

text \<open>
  Releasing a lock after a critical section that changed neither the lock nor the CPU
  undoes the acquire, up to the saved interrupt flag.
\<close>

lemma popcli_touch:
  assumes "cpu_ok (cpus s c)" "cpus t = cpus (pushcli c s)"
  shows "popcli c t = Inr (t\<lparr>cpus := cpus (touch c s)\<rparr>)"
proof (cases "ncli (cpus s c) = 0")
  case True
  with assms(2) show ?thesis
    by (cases "eflags_if (cpus s c)")
      (auto simp: popcli_def pushcli_def touch_def Let_def cli_def sti_def intro!: lockst_eqI)
next
  case False
  with assms show ?thesis
    by (auto simp: popcli_def pushcli_def touch_def Let_def cli_def cpu_ok_def intro!: lockst_eqI)
qed

lemma release_acquired:
  assumes "cpu_ok (cpus s c)" "lock_free l s"
    and "cpus t = cpus (acquired c l s)" "locks t = locks (acquired c l s)"
  shows "release c l t = Inr (t\<lparr>cpus := cpus (touch c s), locks := locks s\<rparr>)"
proof -
  have ok: "cpu_ok (cpus t c)" and n: "ncli (cpus t c) \<noteq> 0"
    using assms by (auto simp: cpu_ok_def)
  have h: "holding c l t = Inr (True, t)"
    using ok n assms(3,4) by (simp add: holding_eq held_by_def touch_def)
  let ?t = "set_lock l (locked_update (\<lambda>_. 0)) (set_lock l (lcpu_update (\<lambda>_. None)) t)"
  have "popcli c ?t = Inr (?t\<lparr>cpus := cpus (touch c s)\<rparr>)"
    using assms by (intro popcli_touch) auto
  moreover have "?t\<lparr>cpus := cpus (touch c s)\<rparr> = t\<lparr>cpus := cpus (touch c s), locks := locks s\<rparr>"
    using assms(2,4) by (intro lockst_eqI) (auto simp: fun_eq_iff lock_free_def)
  ultimately show ?thesis by (simp add: release_def h)
qed

lemma release_not_held:
  "cpu_ok (cpus s c) \<Longrightarrow> \<not> held_by c l s \<Longrightarrow> release c l s = Inl (Panic ''release'')"
  by (simp add: release_def holding_eq)

text \<open>Locks and CPUs only: nothing of the state that extends \<open>lockst\<close> is touched.\<close>

lemma popcli_more [frame]: "popcli c s = Inr t \<Longrightarrow> lockst.more t = lockst.more s"
  by (auto simp: popcli_def Let_def sti_def split: if_splits)

lemma holding_more [frame]: "holding c l s = Inr (r, t) \<Longrightarrow> lockst.more t = lockst.more s"
  by (auto simp: holding_def Let_def bindE_eq_Inr dest!: popcli_more)

lemma acquire_more [frame]: "acquire c l s = Inr t \<Longrightarrow> lockst.more t = lockst.more s"
  by (auto simp: acquire_def bindE_eq_Inr split: if_splits dest!: holding_more)

lemma release_more [frame]: "release c l s = Inr t \<Longrightarrow> lockst.more t = lockst.more s"
  by (auto simp: release_def bindE_eq_Inr split: if_splits dest!: holding_more popcli_more)

lemma popcli_cproc [frame]: "popcli c s = Inr t \<Longrightarrow> cproc (cpus t d) = cproc (cpus s d)"
  by (auto simp: popcli_def Let_def sti_def split: if_splits)

lemma holding_cproc [frame]: "holding c l s = Inr (r, t) \<Longrightarrow> cproc (cpus t d) = cproc (cpus s d)"
  by (auto simp: holding_def Let_def bindE_eq_Inr dest!: popcli_cproc[where d = d])

lemma acquire_cproc [frame]: "acquire c l s = Inr t \<Longrightarrow> cproc (cpus t d) = cproc (cpus s d)"
  by (auto simp: acquire_def bindE_eq_Inr split: if_splits dest!: holding_cproc[where d = d])

lemma release_cproc [frame]: "release c l s = Inr t \<Longrightarrow> cproc (cpus t d) = cproc (cpus s d)"
  by (auto simp: release_def bindE_eq_Inr split: if_splits
      dest!: holding_cproc[where d = d] popcli_cproc[where d = d])

subsection \<open>Interleaved CPUs\<close>

text \<open>
  A CPU outside acquire and release is at \<open>Run\<close>; inside acquire it spins (\<open>Want\<close>) until its
  atomic xchg returns 0 and has then taken the lock (\<open>Got\<close>) before it writes \<open>lk->cpu\<close>;
  inside release it has cleared \<open>lk->cpu\<close> (\<open>Drop\<close>) before it clears \<open>lk->locked\<close>.  The
  set \<open>held\<close> records, in program order, the locks a CPU is between taking and freeing.
\<close>

datatype lpc = Run | Want lockid | Got lockid | Drop lockid

record lsys = lockst +
  lpcs :: "nat \<Rightarrow> lpc"
  held :: "nat \<Rightarrow> lockid set"

inductive lock_step :: "lsys \<Rightarrow> lsys \<Rightarrow> bool" where
  acquire_begin: "lpcs s c = Run \<Longrightarrow> holding c l (pushcli c s) = Inr (False, t) \<Longrightarrow>
    lock_step s (t\<lparr>lpcs := (lpcs t)(c := Want l)\<rparr>)"
| acquire_spin: "lpcs s c = Want l \<Longrightarrow> locked (locks s l) \<noteq> 0 \<Longrightarrow>
    lock_step s (set_lock l (locked_update (\<lambda>_. 1)) s)"
| acquire_xchg: "lpcs s c = Want l \<Longrightarrow> locked (locks s l) = 0 \<Longrightarrow>
    lock_step s ((set_lock l (locked_update (\<lambda>_. 1)) s)
      \<lparr>lpcs := (lpcs s)(c := Got l), held := (held s)(c := insert l (held s c))\<rparr>)"
| acquire_own: "lpcs s c = Got l \<Longrightarrow>
    lock_step s ((set_lock l (lcpu_update (\<lambda>_. Some c)) s)\<lparr>lpcs := (lpcs s)(c := Run)\<rparr>)"
| release_drop: "lpcs s c = Run \<Longrightarrow> holding c l s = Inr (True, t) \<Longrightarrow>
    lock_step s ((set_lock l (lcpu_update (\<lambda>_. None)) t)\<lparr>lpcs := (lpcs t)(c := Drop l)\<rparr>)"
| release_free: "lpcs s c = Drop l \<Longrightarrow> popcli c (set_lock l (locked_update (\<lambda>_. 0)) s) = Inr t \<Longrightarrow>
    lock_step s (t\<lparr>lpcs := (lpcs t)(c := Run), held := (held t)(c := held t c - {l})\<rparr>)"

definition lock_start :: "lsys \<Rightarrow> bool" where
  "lock_start s \<longleftrightarrow> (\<forall>l. lock_free l s) \<and> (\<forall>c. lpcs s c = Run \<and> held s c = {} \<and> ncli (cpus s c) = 0)"

definition own_inv :: "lsys \<Rightarrow> bool" where
  "own_inv s \<longleftrightarrow>
     (\<forall>l. locked (locks s l) \<noteq> 0 \<longleftrightarrow> (\<exists>c. l \<in> held s c)) \<and>
     (\<forall>l c d. l \<in> held s c \<and> l \<in> held s d \<longrightarrow> c = d) \<and>
     (\<forall>l c. lcpu (locks s l) = Some c \<longleftrightarrow> l \<in> held s c \<and> lpcs s c \<noteq> Got l \<and> lpcs s c \<noteq> Drop l) \<and>
     (\<forall>l c. lpcs s c = Got l \<or> lpcs s c = Drop l \<longrightarrow> l \<in> held s c) \<and>
     (\<forall>l c. lpcs s c = Want l \<longrightarrow> l \<notin> held s c)"

definition nest_inv :: "lsys \<Rightarrow> bool" where
  "nest_inv s \<longleftrightarrow> (\<forall>c. finite (held s c) \<and> cpu_ok (cpus s c) \<and>
     ncli (cpus s c) = int (card (held s c)) + (case lpcs s c of Want l \<Rightarrow> 1 | _ \<Rightarrow> 0))"

definition lock_inv :: "lsys \<Rightarrow> bool" where
  "lock_inv s \<longleftrightarrow> own_inv s \<and> nest_inv s"

lemma lsys_more:
  "lockst.more t = lockst.more s \<Longrightarrow> lpcs t = lpcs s \<and> held t = held (s :: lsys)"
  by (cases s; cases t) simp

lemma lsys_frame [simp]:
  fixes s :: lsys
  shows "lpcs (set_lock l f s) = lpcs s" "held (set_lock l f s) = held s"
    "lpcs (pushcli c s) = lpcs s" "held (pushcli c s) = held s"
    "lpcs (touch c s) = lpcs s" "held (touch c s) = held s"
  using lsys_more[of "set_lock l f s" s] lsys_more[of "pushcli c s" s] lsys_more[of "touch c s" s]
  by auto

lemma own_invD:
  assumes "own_inv s"
  shows "locked (locks s l) \<noteq> 0 \<longleftrightarrow> (\<exists>c. l \<in> held s c)"
    and "l \<in> held s c \<Longrightarrow> l \<in> held s d \<Longrightarrow> c = d"
    and "lcpu (locks s l) = Some c \<longleftrightarrow> l \<in> held s c \<and> lpcs s c \<noteq> Got l \<and> lpcs s c \<noteq> Drop l"
    and "lpcs s c = Got l \<or> lpcs s c = Drop l \<Longrightarrow> l \<in> held s c"
    and "lpcs s c = Want l \<Longrightarrow> l \<notin> held s c"
  using assms by (auto simp: own_inv_def)

lemma own_invI:
  assumes "\<And>l. locked (locks s l) \<noteq> 0 \<longleftrightarrow> (\<exists>c. l \<in> held s c)"
    and "\<And>l c d. l \<in> held s c \<Longrightarrow> l \<in> held s d \<Longrightarrow> c = d"
    and "\<And>l c. lcpu (locks s l) = Some c \<longleftrightarrow> l \<in> held s c \<and> lpcs s c \<noteq> Got l \<and> lpcs s c \<noteq> Drop l"
    and "\<And>l c. lpcs s c = Got l \<or> lpcs s c = Drop l \<Longrightarrow> l \<in> held s c"
    and "\<And>l c. lpcs s c = Want l \<Longrightarrow> l \<notin> held s c"
  shows "own_inv s"
  unfolding own_inv_def using assms by blast

lemma own_inv_held: "own_inv s \<Longrightarrow> lpcs s c = Run \<Longrightarrow> held_by c l s \<longleftrightarrow> l \<in> held s c"
  using own_invD(1,3)[of s] by (auto simp: held_by_def)

lemma own_inv_step: "lock_step s t \<Longrightarrow> own_inv s \<Longrightarrow> nest_inv s \<Longrightarrow> own_inv t"
proof (induction rule: lock_step.induct)
  case (acquire_begin s c l t)
  have "cpu_ok (cpus s c)" using acquire_begin.prems by (simp add: nest_inv_def)
  then have t: "t = pushcli c s" and "\<not> held_by c l s"
    using acquire_begin.hyps by (auto simp: holding_eq pushcli_cpu_ok held_by_def)
  then have "l \<notin> held s c" using acquire_begin by (simp add: own_inv_held)
  moreover have "lpcs t = lpcs s" "held t = held s" "locks t = locks s"
    using lsys_more[of t s] by (auto simp: t)
  ultimately show ?case using acquire_begin.prems(1) acquire_begin.hyps(1)
    by (auto simp: own_inv_def)
next
  case (acquire_spin s c l)
  have "lpcs (set_lock l (locked_update (\<lambda>_. 1)) s) = lpcs s"
    "held (set_lock l (locked_update (\<lambda>_. 1)) s) = held s"
    using lsys_more[of "set_lock l (locked_update (\<lambda>_. 1)) s" s] by auto
  with acquire_spin show ?case by (auto simp: own_inv_def)
next
  case (acquire_xchg s c l)
  then have "\<And>d. l \<notin> held s d" using own_invD(1)[of s l] by auto
  moreover have "lcpu (locks s l) = None"
    using calculation own_invD(3)[OF acquire_xchg.prems(1), of l] by (cases "lcpu (locks s l)") auto
  ultimately show ?case using own_invD[OF acquire_xchg.prems(1)] acquire_xchg.hyps
    by (intro own_invI) (auto split: if_splits, metis)
next
  case (acquire_own s c l)
  then show ?case using own_invD[OF acquire_own.prems(1)]
    by (intro own_invI) (auto split: if_splits)
next
  case (release_drop s c l t)
  have "cpu_ok (cpus s c)" using release_drop.prems by (simp add: nest_inv_def)
  then have t: "t = touch c s" and "held_by c l s"
    using release_drop.hyps by (auto simp: holding_eq)
  then have "l \<in> held s c" using release_drop by (simp add: own_inv_held)
  moreover have "lpcs t = lpcs s" "held t = held s" "locks t = locks s"
    using lsys_more[of t s] by (auto simp: t)
  ultimately show ?case using own_invD[OF release_drop.prems(1)] release_drop.hyps(1)
    by (intro own_invI) (auto split: if_splits)
next
  case (release_free s c l t)
  have "lockst.more t = lockst.more s" "locks t = (locks s)(l := (locks s l)\<lparr>locked := 0\<rparr>)"
    using release_free.hyps(2) by (auto simp: popcli_def Let_def sti_def split: if_splits)
  moreover have "lpcs t = lpcs s" "held t = held s"
    using lsys_more[of t s] calculation(1) by auto
  ultimately show ?case using own_invD[OF release_free.prems(1)] release_free.hyps(1)
    by (intro own_invI) (auto split: if_splits, metis)
qed

lemma nest_invD:
  assumes "nest_inv s"
  shows "finite (held s c)" "cpu_ok (cpus s c)"
    "ncli (cpus s c) = int (card (held s c)) + (case lpcs s c of Want l \<Rightarrow> 1 | _ \<Rightarrow> 0)"
  using assms by (simp_all add: nest_inv_def)

lemma nest_inv_step: "lock_step s t \<Longrightarrow> own_inv s \<Longrightarrow> nest_inv s \<Longrightarrow> nest_inv t"
proof (induction rule: lock_step.induct)
  case (acquire_begin s c l t)
  note ok = nest_invD[OF acquire_begin.prems(2)]
  have t: "t = pushcli c s"
    using acquire_begin.hyps ok(2)[of c] by (auto simp: holding_eq pushcli_cpu_ok)
  have "lpcs t = lpcs s" "held t = held s" using lsys_more[of t s] by (auto simp: t)
  moreover have "cpu_ok (cpus t d)" for d
    using ok(2) pushcli_cpu_ok[of s c] by (cases "d = c") (auto simp: t)
  moreover have "ncli (cpus t d) = ncli (cpus s d) + (if d = c then 1 else 0)" for d
    by (auto simp: t)
  ultimately show ?case using ok acquire_begin.hyps(1) by (auto simp: nest_inv_def)
next
  case (acquire_spin s c l)
  have "lpcs (set_lock l (locked_update (\<lambda>_. 1)) s) = lpcs s"
    "held (set_lock l (locked_update (\<lambda>_. 1)) s) = held s"
    using lsys_more[of "set_lock l (locked_update (\<lambda>_. 1)) s" s] by auto
  with acquire_spin show ?case by (auto simp: nest_inv_def)
next
  case (acquire_xchg s c l)
  have "l \<notin> held s c" using acquire_xchg.hyps own_invD(5)[OF acquire_xchg.prems(1)] by simp
  with acquire_xchg show ?case by (auto simp: nest_inv_def)
next
  case (acquire_own s c l)
  then show ?case by (auto simp: nest_inv_def)
next
  case (release_drop s c l t)
  note ok = nest_invD[OF release_drop.prems(2)]
  have t: "t = touch c s" using release_drop.hyps ok(2)[of c] by (auto simp: holding_eq)
  have "lpcs t = lpcs s" "held t = held s" using lsys_more[of t s] by (auto simp: t)
  then show ?case using ok release_drop.hyps(1) by (auto simp: nest_inv_def t)
next
  case (release_free s c l t)
  note ok = nest_invD[OF release_free.prems(2)]
  have l: "l \<in> held s c" using release_free.hyps own_invD(4)[OF release_free.prems(1)] by simp
  then have "0 < card (held s c)" using ok(1)[of c] by (auto simp: card_gt_0_iff)
  with l have card: "int (card (held s c - {l})) = int (card (held s c)) - 1"
    by (simp add: card_Diff_singleton of_nat_diff)
  have more: "lockst.more t = lockst.more s" and oth: "\<And>d. d \<noteq> c \<Longrightarrow> cpus t d = cpus s d"
    and n: "ncli (cpus t c) = ncli (cpus s c) - 1" and k: "cpu_ok (cpus t c)"
    using release_free.hyps(2) by (auto simp: popcli_def Let_def sti_def cpu_ok_def split: if_splits)
  have "lpcs t = lpcs s" "held t = held s" using lsys_more[OF more] by auto
  moreover have "cpu_ok (cpus t d)" for d using k ok(2) oth[of d] by (cases "d = c") auto
  moreover have "ncli (cpus t d) = ncli (cpus s d) - (if d = c then 1 else 0)" for d
    using n oth[of d] by auto
  ultimately show ?case using ok card release_free.hyps(1) by (auto simp: nest_inv_def)
qed

interpretation locks_sys: inv_system lock_start lock_step lock_inv
proof
  fix s assume "lock_start s"
  then show "lock_inv s"
    by (auto simp: lock_start_def lock_inv_def own_inv_def nest_inv_def lock_free_def cpu_ok_def)
next
  fix s t assume "lock_inv s" "lock_step s t"
  then show "lock_inv t" by (auto simp: lock_inv_def intro: own_inv_step nest_inv_step)
qed

fun popclis :: "nat \<Rightarrow> nat \<Rightarrow> 'a lockst_scheme \<Rightarrow> fault + 'a lockst_scheme" where
  "popclis 0 c s = Inr s"
| "popclis (Suc n) c s = bindE (popcli c s) (popclis n c)"

lemma pushclis_cpu:
  "cpu_ok (cpus s c) \<Longrightarrow> cpu_ok (cpus ((pushcli c ^^ n) s) c) \<and>
   ncli (cpus ((pushcli c ^^ n) s) c) = ncli (cpus s c) + int n"
  by (induction n) (auto intro: pushcli_cpu_ok)

lemma popclis_pushclis:
  assumes "cpu_ok (cpus s c)"
  shows "popclis (Suc n) c ((pushcli c ^^ Suc n) s) = Inr (touch c s)"
proof (induction n)
  case (Suc n)
  let ?u = "(pushcli c ^^ Suc n) s"
  have "cpu_ok (cpus ?u c)" "ncli (cpus ?u c) \<noteq> 0"
    using pushclis_cpu[OF assms, of "Suc n"] assms by (auto simp: cpu_ok_def)
  then have "popcli c (pushcli c ?u) = Inr ?u" by (simp only: popcli_pushcli touch_def if_False)
  with Suc show ?case by simp
qed (use assms in \<open>simp add: popcli_pushcli\<close>)

subsection \<open>Properties\<close>

text \<open>C10: under any interleaving of acquire and release by any number of CPUs, no two CPUs are
  between taking and freeing the same spin lock, and a CPU inside such a section runs with
  interrupts disabled and has that lock counted in \<open>ncli\<close>.\<close>

theorem spinlock_mutual_exclusion:
  assumes "reach lock_start lock_step s" and "l \<in> held s c"
  shows "(\<forall>d. l \<in> held s d \<longrightarrow> d = c) \<and> \<not> eflags_if (cpus s c) \<and>
    int (card (held s c)) \<le> ncli (cpus s c)"
proof -
  have inv: "own_inv s" "nest_inv s" using locks_sys.reach_inv[OF assms(1)] by (auto simp: lock_inv_def)
  have "0 < card (held s c)" using assms(2) nest_invD(1)[OF inv(2)] by (auto simp: card_gt_0_iff)
  then have "int (card (held s c)) \<le> ncli (cpus s c)" "0 < ncli (cpus s c)"
    using nest_invD(3)[OF inv(2), of c] by (auto split: lpc.splits)
  moreover have "\<not> eflags_if (cpus s c)"
    using calculation(2) nest_invD(2)[OF inv(2), of c] by (simp add: cpu_ok_def)
  ultimately show ?thesis using own_invD(2)[OF inv(1)] assms(2) by blast
qed

text \<open>C11: pushcli and popcli match: after \<open>n > 0\<close> pushclis interrupts are off, and \<open>n\<close> popclis
  then return without panic to the original state, interrupt flag and nesting depth included
  (only the saved copy \<open>intena\<close> of the flag is refreshed at depth 0).\<close>

theorem pushcli_popcli_nest:
  assumes "cpu_ok (cpus s c)" and "0 < n"
  shows "\<not> eflags_if (cpus ((pushcli c ^^ n) s) c) \<and>
    popclis n c ((pushcli c ^^ n) s) = Inr (touch c s)"
proof -
  obtain k where n: "n = Suc k" using assms(2) by (cases n) auto
  then show ?thesis using popclis_pushclis[OF assms(1), of k] by simp
qed

definition demo_cpu :: cpu where
  "demo_cpu = \<lparr>apicid = 0, scheduler = In_fcfs, ncli = 0, intena = False, eflags_if = True, cproc = None,
     ts_ss0 = 0, ts_esp0 = 0, ts_iomb = 0, tr = 0, cr3 = 0\<rparr>"

definition demo_locks :: lockst where
  "demo_locks = \<lparr>ncpu = 2, cpus = (\<lambda>i. demo_cpu\<lparr>apicid := of_nat i\<rparr>),
     locks = (\<lambda>l. \<lparr>locked = 0, lname = [], lcpu = None\<rparr>)\<rparr>"

theorem pushcli_popcli_nest_witness:
  "\<not> eflags_if (cpus ((pushcli 0 ^^ 3) demo_locks) 0) \<and>
   popclis 3 0 ((pushcli 0 ^^ 3) demo_locks) = Inr (touch 0 demo_locks) \<and>
   eflags_if (cpus (touch 0 demo_locks) 0)"
proof -
  have "cpu_ok (cpus demo_locks 0)" by (simp add: demo_locks_def demo_cpu_def cpu_ok_def)
  from pushcli_popcli_nest[OF this, of 3] show ?thesis
    by (simp add: demo_locks_def demo_cpu_def)
qed

text \<open>A run in which CPU 0 takes the process table lock.\<close>

definition demo_lsys :: lsys where
  "demo_lsys = \<lparr>ncpu = 2, cpus = (\<lambda>i. demo_cpu), locks = (\<lambda>l. \<lparr>locked = 0, lname = [], lcpu = None\<rparr>),
     lpcs = (\<lambda>_. Run), held = (\<lambda>_. {})\<rparr>"

theorem spinlock_mutual_exclusion_witness:
  "\<exists>s. reach lock_start lock_step s \<and> L_ptable \<in> held s 0 \<and>
     (\<forall>d. L_ptable \<in> held s d \<longrightarrow> d = 0) \<and> \<not> eflags_if (cpus s 0)"
proof -
  have ok: "cpu_ok (cpus demo_lsys 0)" by (simp add: demo_lsys_def demo_cpu_def cpu_ok_def)
  let ?p = "pushcli 0 demo_lsys"
  let ?s1 = "?p\<lparr>lpcs := (lpcs ?p)(0 := Want L_ptable)\<rparr>"
  let ?s2 = "(set_lock L_ptable (locked_update (\<lambda>_. 1)) ?s1)
      \<lparr>lpcs := (lpcs ?s1)(0 := Got L_ptable), held := (held ?s1)(0 := insert L_ptable (held ?s1 0))\<rparr>"
  have r0: "reach lock_start lock_step demo_lsys"
    by (rule reach_start) (simp add: lock_start_def demo_lsys_def demo_cpu_def lock_free_def)
  have "holding 0 L_ptable ?p = Inr (False, ?p)"
    using ok by (simp add: holding_eq pushcli_cpu_ok) (simp add: held_by_def demo_lsys_def)
  then have "lock_step demo_lsys ?s1" by (intro acquire_begin) (simp_all add: demo_lsys_def)
  with r0 have r1: "reach lock_start lock_step ?s1" by (rule reach_step)
  have "lock_step ?s1 ?s2" by (rule acquire_xchg) (simp_all add: demo_lsys_def)
  with r1 have r2: "reach lock_start lock_step ?s2" by (rule reach_step)
  have h: "L_ptable \<in> held ?s2 0" by simp
  from spinlock_mutual_exclusion[OF r2 h] r2 h show ?thesis by blast
qed

text \<open>C12: when the CPUs of the table have distinct APIC ids and interrupts are off, mycpu returns
  the entry of the CPU that executes it; with interrupts on it panics.\<close>

theorem mycpu_correct:
  assumes "inj_on (\<lambda>i. apicid (cpus s i)) {0..<ncpu s}" and "c < ncpu s"
  shows "mycpu False (apicid (cpus s c)) s = Inr c \<and>
    mycpu True (apicid (cpus s c)) s = Inl (Panic ''mycpu called with interrupts enabled'')"
proof -
  have "find_idx (\<lambda>i. apicid (cpus s i) = apicid (cpus s c)) [0..<ncpu s] = Some c"
    using assms by (intro find_idx_SomeI) (auto dest: inj_onD)
  then show ?thesis by (simp add: mycpu_def)
qed

theorem mycpu_correct_witness: "mycpu False 1 demo_locks = Inr 1"
proof -
  have inj: "inj_on (\<lambda>i. apicid (cpus demo_locks i)) {0..<ncpu demo_locks}"
    by (auto simp: inj_on_def demo_locks_def demo_cpu_def less_2_cases_iff)
  have "1 < ncpu demo_locks" by (simp add: demo_locks_def)
  from mycpu_correct[OF inj this] show ?thesis by (simp add: demo_locks_def)
qed

end
