(* ===== verification/Mmu.thy ===== *)
theory Mmu
  imports Prelude
begin

text \<open>
  The address arithmetic of mmu.h and memlayout.h: page rounding, the three-part
  structure of a virtual address, page-table entry fields, and the fixed offset between
  kernel virtual and physical addresses, with the facts the memory components share.
\<close>

definition PGSIZE :: uint where "PGSIZE = 4096"
definition KERNBASE :: uint where "KERNBASE = 0x80000000"
definition EXTMEM :: uint where "EXTMEM = 0x100000"
definition PHYSTOP :: uint where "PHYSTOP = 0xE000000"
definition DEVSPACE :: uint where "DEVSPACE = 0xFE000000"
definition KERNLINK :: uint where "KERNLINK = KERNBASE + EXTMEM"

definition V2P :: "uint \<Rightarrow> uint" where "V2P a = a - KERNBASE"
definition P2V :: "uint \<Rightarrow> uint" where "P2V a = a + KERNBASE"

definition PGROUNDUP :: "uint \<Rightarrow> uint" where
  "PGROUNDUP sz = (sz + PGSIZE - 1) AND NOT (PGSIZE - 1)"

definition PGROUNDDOWN :: "uint \<Rightarrow> uint" where
  "PGROUNDDOWN a = a AND NOT (PGSIZE - 1)"

definition PDX :: "uint \<Rightarrow> uint" where "PDX va = drop_bit 22 va AND 0x3FF"
definition PTX :: "uint \<Rightarrow> uint" where "PTX va = drop_bit 12 va AND 0x3FF"

definition PGADDR :: "uint \<Rightarrow> uint \<Rightarrow> uint \<Rightarrow> uint" where
  "PGADDR d t off = push_bit 22 d OR push_bit 12 t OR off"

definition PTE_P :: uint where "PTE_P = 1"
definition PTE_W :: uint where "PTE_W = 2"
definition PTE_U :: uint where "PTE_U = 4"

definition PTE_ADDR :: "uint \<Rightarrow> uint" where "PTE_ADDR pte = pte AND NOT 0xFFF"
definition PTE_FLAGS :: "uint \<Rightarrow> uint" where "PTE_FLAGS pte = pte AND 0xFFF"

lemmas mmu_consts = PGSIZE_def KERNBASE_def EXTMEM_def PHYSTOP_def DEVSPACE_def KERNLINK_def
  PTE_P_def PTE_W_def PTE_U_def

lemma and_not_mask_div: "(a :: uint) AND - 4096 = a div 4096 * 4096"
proof -
  have m: "(- 4096 :: uint) = NOT (mask 12)" by (simp add: mask_eq_exp_minus_1)
  have "a AND NOT (mask 12) = push_bit 12 (drop_bit 12 a)"
    by (rule bit_word_eqI) (auto simp: bit_simps)
  then show ?thesis by (simp add: m push_bit_eq_mult drop_bit_eq_div)
qed

lemma unat_round: "unat ((a :: uint) div 4096 * 4096) = unat a div 4096 * 4096"
proof -
  have "unat a div 4096 * 4096 < 2 ^ 32" using unat_lt32[of a] by simp
  then show ?thesis by (simp add: unat_word_ariths unat_div_distrib)
qed

lemma unat_PGROUNDDOWN: "unat (PGROUNDDOWN a) = unat a div 4096 * 4096"
  using unat_round[of a] by (simp add: PGROUNDDOWN_def PGSIZE_def and_not_mask_div)

lemma unat_PGROUNDUP:
  assumes "unat sz + 4095 < 2 ^ 32"
  shows "unat (PGROUNDUP sz) = (unat sz + 4095) div 4096 * 4096"
proof -
  have "unat (sz + 4095) = unat sz + 4095" using assms by (simp add: unat_word_ariths)
  moreover have "PGROUNDUP sz = (sz + 4095) div 4096 * 4096"
    using and_not_mask_div[of "sz + 4095"] by (simp add: PGROUNDUP_def PGSIZE_def add.commute)
  ultimately show ?thesis by (simp only: unat_round)
qed

lemma unat_PTE_ADDR: "unat (PTE_ADDR pte) = unat pte div 4096 * 4096"
  using unat_round[of pte] by (simp add: PTE_ADDR_def and_not_mask_div)

lemma P2V_V2P [simp]: "P2V (V2P a) = a" and V2P_P2V [simp]: "V2P (P2V a) = a"
  by (simp_all add: P2V_def V2P_def)

text \<open>A virtual address is the concatenation of its two indices and the page offset.\<close>

lemma PGADDR_split: "PGADDR (PDX va) (PTX va) (va AND 0xFFF) = va"
proof -
  have m: "(0x3FF :: uint) = mask 10" "(0xFFF :: uint) = mask 12"
    by (simp_all add: mask_eq_exp_minus_1)
  show ?thesis unfolding PGADDR_def PDX_def PTX_def m
  proof (rule bit_word_eqI)
    fix n assume "n < LENGTH(32)"
    then have "22 + (n - 22) = n \<or> n - 12 < 10" by auto
    with \<open>n < LENGTH(32)\<close> show "bit (push_bit 22 (drop_bit 22 va AND mask 10) OR
      push_bit 12 (drop_bit 12 va AND mask 10) OR va AND mask 12) n = bit va n"
      by (auto simp: bit_simps)
  qed
qed

end
