(* ===== verification/Kalloc.thy ===== *)
theory Kalloc
  imports Spinlock Cstring Mmu
begin

text \<open>
  kalloc.c: the physical page allocator.  Free pages are chained through their own first
  word, so the free list lives in the memory it manages.  The abstract view is the list of
  free pages; \<open>kalloc\<close> and \<open>kfree\<close> are shown to implement a stack of pages.
\<close>

subsection \<open>State and operations\<close>

record memst = lockst +
  mem :: memory
  kfreelist :: uint
  use_lock :: bool
  kend :: uint

definition kacquire :: "nat \<Rightarrow> 'a memst_scheme \<Rightarrow> fault + 'a memst_scheme" where
  "kacquire c s = (if use_lock s then acquire c L_kmem s else Inr s)"

definition krelease :: "nat \<Rightarrow> 'a memst_scheme \<Rightarrow> fault + 'a memst_scheme" where
  "krelease c s = (if use_lock s then release c L_kmem s else Inr s)"

definition kfree :: "nat \<Rightarrow> uint \<Rightarrow> 'a memst_scheme \<Rightarrow> fault + 'a memst_scheme" where
  "kfree c v s =
     (if v mod PGSIZE \<noteq> 0 \<or> v < kend s \<or> V2P v \<ge> PHYSTOP then Inl (Panic ''kfree'')
      else let s = s\<lparr>mem := memset (mem s) (unat v) 1 4096\<rparr>
           in bindE (kacquire c s) (\<lambda>s.
                let s = s\<lparr>mem := store32 (mem s) (unat v) (kfreelist s)\<rparr>;
                    s = s\<lparr>kfreelist := v\<rparr>
                in krelease c s))"

definition kalloc :: "nat \<Rightarrow> 'a memst_scheme \<Rightarrow> fault + (uint \<times> 'a memst_scheme)" where
  "kalloc c s =
     bindE (kacquire c s) (\<lambda>s.
       let r = kfreelist s;
           s = (if r \<noteq> 0 then s\<lparr>kfreelist := load32 (mem s) (unat r)\<rparr> else s)
       in bindE (krelease c s) (\<lambda>s. Inr (r, s)))"

text \<open>The loop of freerange; a page that does not pass the check of kfree ends it with a panic.\<close>

lemma kfree_InrD: "kfree c v s = Inr t \<Longrightarrow> v mod PGSIZE = 0 \<and> kend s \<le> v \<and> V2P v < PHYSTOP"
  by (auto simp: kfree_def split: if_splits)

lemma V2P_bound:
  assumes "V2P v < PHYSTOP"
  shows "0x80000000 \<le> unat v \<and> unat v < 0x8E000000"
proof -
  have v: "v = V2P v + 0x80000000" by (simp add: V2P_def KERNBASE_def)
  have lt: "unat (V2P v) < 0xE000000" using assms by (simp add: word_less_nat_alt PHYSTOP_def)
  have "unat v = unat (V2P v) + 0x80000000"
    by (subst v) (use lt in \<open>simp add: unat_word_ariths\<close>)
  with lt show ?thesis by simp
qed

lemma unat_add_page: "V2P p < PHYSTOP \<Longrightarrow> unat (p + PGSIZE) = unat p + 4096"
  using V2P_bound[of p] by (simp add: unat_word_ariths PGSIZE_def)

function freerange_loop :: "nat \<Rightarrow> uint \<Rightarrow> uint \<Rightarrow> 'a memst_scheme \<Rightarrow> fault + 'a memst_scheme" where
  "freerange_loop c p vend s =
     (if p + PGSIZE \<le> vend then bindE (kfree c p s) (\<lambda>s. freerange_loop c (p + PGSIZE) vend s)
      else Inr s)"
  by pat_completeness auto
termination
proof (relation "measure (\<lambda>(c, p, vend, s). 2 ^ 32 - unat p)")
  fix c :: nat and p vend :: uint and s t :: "'a memst_scheme"
  assume "kfree c p s = Inr t"
  then have "V2P p < PHYSTOP" by (blast dest: kfree_InrD)
  then have "unat (p + PGSIZE) = unat p + 4096" "unat p < 2 ^ 32"
    using unat_lt32[of p] by (auto simp: unat_add_page)
  then show "((c, p + PGSIZE, vend, t), c, p, vend, s) \<in> measure (\<lambda>(c, p, vend, s). 2 ^ 32 - unat p)"
    by simp
qed simp

declare freerange_loop.simps [simp del]

definition freerange :: "nat \<Rightarrow> uint \<Rightarrow> uint \<Rightarrow> 'a memst_scheme \<Rightarrow> fault + 'a memst_scheme" where
  "freerange c vstart vend s = freerange_loop c (PGROUNDUP vstart) vend s"

definition kinit1 :: "nat \<Rightarrow> uint \<Rightarrow> uint \<Rightarrow> 'a memst_scheme \<Rightarrow> fault + 'a memst_scheme" where
  "kinit1 c vstart vend s =
     (let s = initlock L_kmem ''kmem'' s in freerange c vstart vend (s\<lparr>use_lock := False\<rparr>))"

definition kinit2 :: "nat \<Rightarrow> uint \<Rightarrow> uint \<Rightarrow> 'a memst_scheme \<Rightarrow> fault + 'a memst_scheme" where
  "kinit2 c vstart vend s = bindE (freerange c vstart vend s) (\<lambda>s. Inr (s\<lparr>use_lock := True\<rparr>))"

subsection \<open>The free list in memory\<close>

definition page_ok :: "uint \<Rightarrow> uint \<Rightarrow> bool" where
  "page_ok lo v \<longleftrightarrow> v mod PGSIZE = 0 \<and> lo \<le> v \<and> V2P v < PHYSTOP"

fun flist :: "memory \<Rightarrow> uint \<Rightarrow> uint list \<Rightarrow> bool" where
  "flist m p [] = (p = 0)"
| "flist m p (a # as) = (p = a \<and> a \<noteq> 0 \<and> flist m (load32 m (unat a)) as)"

definition kmem_ok :: "nat \<Rightarrow> uint list \<Rightarrow> 'a memst_scheme \<Rightarrow> bool" where
  "kmem_ok c ps s \<longleftrightarrow> flist (mem s) (kfreelist s) ps \<and> distinct ps \<and> (\<forall>p \<in> set ps. page_ok (kend s) p) \<and>
     cpu_ok (cpus s c) \<and> lock_free L_kmem s"

lemma page_ok_nonzero: "page_ok lo v \<Longrightarrow> v \<noteq> 0"
  using V2P_bound[of v] by (auto simp: page_ok_def)

lemma page_aligned: "page_ok lo v \<Longrightarrow> unat v mod 4096 = 0"
  using unat_mod_distrib[of v 4096] by (simp add: page_ok_def PGSIZE_def)

lemma pages_disjoint:
  assumes "page_ok lo v" "page_ok lo' w" "v \<noteq> w"
  shows "unat v + 4096 \<le> unat w \<or> unat w + 4096 \<le> unat v"
proof -
  have "unat v = 4096 * (unat v div 4096)" "unat w = 4096 * (unat w div 4096)"
    using page_aligned[OF assms(1)] page_aligned[OF assms(2)]
    by (simp_all add: minus_mod_eq_mult_div[symmetric])
  moreover have "unat v \<noteq> unat w" using assms(3) by simp
  ultimately have "unat v div 4096 < unat w div 4096 \<or> unat w div 4096 < unat v div 4096"
    by (metis linorder_neqE_nat)
  then show ?thesis
    using \<open>unat v = _\<close> \<open>unat w = _\<close> by linarith
qed

lemma flist_cong: "(\<And>a. a \<in> set as \<Longrightarrow> load32 m' (unat a) = load32 m (unat a)) \<Longrightarrow> flist m' p as = flist m p as"
  by (induction as arbitrary: p) auto

text \<open>Writes that stay inside pages not on the free list leave the free list alone.\<close>

lemma flist_frame:
  assumes "\<And>x. m' x \<noteq> m x \<Longrightarrow> \<exists>v. v \<notin> set ps \<and> page_ok lo' v \<and> unat v \<le> x \<and> x < unat v + 4096"
    and "\<forall>p \<in> set ps. page_ok lo p"
  shows "flist m' q ps = flist m q ps"
proof (rule flist_cong)
  fix a assume a: "a \<in> set ps"
  show "load32 m' (unat a) = load32 m (unat a)"
  proof (rule load32_cong)
    fix i :: nat assume "i < 4"
    show "m' (unat a + i) = m (unat a + i)"
    proof (rule ccontr)
      assume "m' (unat a + i) \<noteq> m (unat a + i)"
      then obtain v where "v \<notin> set ps" "page_ok lo' v" "unat v \<le> unat a + i" "unat a + i < unat v + 4096"
        using assms(1) by blast
      moreover from this a have "unat v + 4096 \<le> unat a \<or> unat a + 4096 \<le> unat v"
        using assms(2) by (intro pages_disjoint) auto
      ultimately show False using \<open>i < 4\<close> by linarith
    qed
  qed
qed

subsection \<open>Locking in the allocator\<close>

text \<open>Under \<open>kmem_ok\<close> the lock is free, so the critical sections run to their end.\<close>

definition ktouch :: "nat \<Rightarrow> 'a memst_scheme \<Rightarrow> 'a memst_scheme" where
  "ktouch c s = (if use_lock s then touch c s else s)"

lemma memst_more:
  fixes s t :: "'a memst_scheme"
  assumes "lockst.more t = lockst.more s"
  shows "mem t = mem s" "kfreelist t = kfreelist s" "use_lock t = use_lock s" "kend t = kend s"
    "memst.more t = memst.more s"
  using assms by (cases s; cases t; simp)+

lemma memst_locks_frame [simp]:
  fixes s :: "'a memst_scheme"
  shows "mem (touch c s) = mem s" "kfreelist (touch c s) = kfreelist s"
    "use_lock (touch c s) = use_lock s" "kend (touch c s) = kend s"
    "memst.more (touch c s) = memst.more s"
    "mem (acquired c l s) = mem s" "kfreelist (acquired c l s) = kfreelist s"
    "use_lock (acquired c l s) = use_lock s" "kend (acquired c l s) = kend s"
    "memst.more (acquired c l s) = memst.more s"
    "mem (set_cpu d f s) = mem s" "kfreelist (set_cpu d f s) = kfreelist s"
    "use_lock (set_cpu d f s) = use_lock s" "kend (set_cpu d f s) = kend s"
    "memst.more (set_cpu d f s) = memst.more s"
  using memst_more[of "touch c s" s] memst_more[of "acquired c l s" s] memst_more[of "set_cpu d f s" s]
  by auto

lemma ktouch_sel [simp]:
  "mem (ktouch c s) = mem s" "kfreelist (ktouch c s) = kfreelist s" "use_lock (ktouch c s) = use_lock s"
  "kend (ktouch c s) = kend s" "memst.more (ktouch c s) = memst.more s"
  "locks (ktouch c s) = locks s" "ncpu (ktouch c s) = ncpu s"
  "ncli (cpus (ktouch c s) d) = ncli (cpus s d)" "eflags_if (cpus (ktouch c s) d) = eflags_if (cpus s d)"
  "cproc (cpus (ktouch c s) d) = cproc (cpus s d)"
  by (auto simp: ktouch_def)

lemma memst_eqI:
  fixes s t :: "'a memst_scheme"
  assumes "ncpu s = ncpu t" "cpus s = cpus t" "locks s = locks t" "mem s = mem t"
    "kfreelist s = kfreelist t" "use_lock s = use_lock t" "kend s = kend t" "memst.more s = memst.more t"
  shows "s = t"
  using assms by (cases s; cases t) simp

lemma kcritical:
  fixes s :: "'a memst_scheme"
  assumes "cpu_ok (cpus s c)" "lock_free L_kmem s"
  shows "bindE (kacquire c s) (\<lambda>s. krelease c (s\<lparr>mem := m, kfreelist := p\<rparr>)) =
    Inr ((ktouch c s)\<lparr>mem := m, kfreelist := p\<rparr>)"
proof (cases "use_lock s")
  case True
  let ?t = "(acquired c L_kmem s)\<lparr>mem := m, kfreelist := p\<rparr>"
  have "release c L_kmem ?t = Inr (?t\<lparr>cpus := cpus (touch c s), locks := locks s\<rparr>)"
    using assms by (intro release_acquired) auto
  also have "?t\<lparr>cpus := cpus (touch c s), locks := locks s\<rparr> = (touch c s)\<lparr>mem := m, kfreelist := p\<rparr>"
    by (rule memst_eqI) auto
  finally show ?thesis
    using True assms by (simp add: kacquire_def krelease_def acquire_free ktouch_def)
qed (simp add: kacquire_def krelease_def ktouch_def)

lemma kfree_eq:
  assumes "cpu_ok (cpus s c)" "lock_free L_kmem s" "page_ok (kend s) v"
  shows "kfree c v s = Inr ((ktouch c s)
    \<lparr>mem := store32 (memset (mem s) (unat v) 1 4096) (unat v) (kfreelist s), kfreelist := v\<rparr>)"
proof -
  let ?s = "s\<lparr>mem := memset (mem s) (unat v) 1 4096\<rparr>"
  let ?m = "store32 (memset (mem s) (unat v) 1 4096) (unat v) (kfreelist s)"
  have eq: "kfree c v s = bindE (kacquire c ?s) (\<lambda>s. krelease c (s\<lparr>mem := ?m, kfreelist := v\<rparr>))"
  proof (cases "kacquire c ?s")
    case (Inr t)
    then have "lockst.more t = lockst.more ?s"
      by (auto simp: kacquire_def split: if_splits dest: acquire_more)
    from memst_more[OF this] Inr assms(3) show ?thesis
      by (auto simp: kfree_def page_ok_def Let_def)
  qed (use assms(3) in \<open>auto simp: kfree_def page_ok_def Let_def\<close>)
  also have "\<dots> = Inr ((ktouch c ?s)\<lparr>mem := ?m, kfreelist := v\<rparr>)"
    using assms by (intro kcritical) (auto simp: lock_free_def)
  also have "(ktouch c ?s)\<lparr>mem := ?m, kfreelist := v\<rparr> = (ktouch c s)\<lparr>mem := ?m, kfreelist := v\<rparr>"
    by (rule memst_eqI) (auto simp: ktouch_def touch_def)
  finally show ?thesis .
qed

lemma kalloc_eq:
  assumes "cpu_ok (cpus s c)" "lock_free L_kmem s"
  shows "kalloc c s = Inr (kfreelist s, (ktouch c s)
    \<lparr>kfreelist := if kfreelist s \<noteq> 0 then load32 (mem s) (unat (kfreelist s)) else 0\<rparr>)"
proof -
  let ?p = "if kfreelist s \<noteq> 0 then load32 (mem s) (unat (kfreelist s)) else 0"
  have "kalloc c s = bindE (bindE (kacquire c s) (\<lambda>t. krelease c (t\<lparr>mem := mem s, kfreelist := ?p\<rparr>)))
      (\<lambda>t. Inr (kfreelist s, t))"
  proof (cases "kacquire c s")
    case (Inr t)
    then have "lockst.more t = lockst.more s"
      by (auto simp: kacquire_def split: if_splits dest: acquire_more)
    from memst_more[OF this] have "(if kfreelist t \<noteq> 0 then t\<lparr>kfreelist := load32 (mem t) (unat (kfreelist t))\<rparr>
      else t) = t\<lparr>mem := mem s, kfreelist := ?p\<rparr>" "kfreelist t = kfreelist s"
      by auto
    with Inr show ?thesis by (simp add: kalloc_def Let_def)
  qed (simp add: kalloc_def)
  also have "\<dots> = Inr (kfreelist s, (ktouch c s)\<lparr>mem := mem s, kfreelist := ?p\<rparr>)"
    using kcritical[OF assms, where m = "mem s" and p = ?p] by simp
  finally show ?thesis by simp
qed

subsection \<open>The allocator as a stack of pages\<close>

lemma kfree_ok:
  assumes "kmem_ok c ps s" "page_ok (kend s) v" "v \<notin> set ps"
  obtains t where "kfree c v s = Inr t" "kmem_ok c (v # ps) t" "kend t = kend s"
    "\<And>x. x < unat v \<or> unat v + 4096 \<le> x \<Longrightarrow> mem t x = mem s x" "memst.more t = memst.more s"
    "use_lock t = use_lock s"
proof -
  let ?m = "store32 (memset (mem s) (unat v) 1 4096) (unat v) (kfreelist s)"
  let ?t = "(ktouch c s)\<lparr>mem := ?m, kfreelist := v\<rparr>"
  have ok: "flist (mem s) (kfreelist s) ps" "distinct ps" "\<forall>p \<in> set ps. page_ok (kend s) p"
    "cpu_ok (cpus s c)" "lock_free L_kmem s"
    using assms(1) by (auto simp: kmem_ok_def)
  have out: "?m x = mem s x" if "x < unat v \<or> unat v + 4096 \<le> x" for x
    using that by (auto simp: store32_other memset_eq)
  have "flist ?m (kfreelist s) ps = flist (mem s) (kfreelist s) ps"
  proof (rule flist_frame[OF _ ok(3)])
    fix x assume "?m x \<noteq> mem s x"
    then have "unat v \<le> x \<and> x < unat v + 4096" using out[of x] by linarith
    with assms(2,3) show "\<exists>w. w \<notin> set ps \<and> page_ok (kend s) w \<and> unat w \<le> x \<and> x < unat w + 4096"
      by blast
  qed
  moreover have "kfree c v s = Inr ?t" using ok(4,5) assms(2) by (rule kfree_eq)
  moreover have "cpu_ok (cpus (ktouch c s) c)" using ok(4) by (simp add: ktouch_def)
  ultimately show thesis
    using ok assms page_ok_nonzero out by (intro that[of ?t]) (auto simp: kmem_ok_def lock_free_def)
qed

lemma kalloc_ok:
  assumes "kmem_ok c ps s"
  obtains t where "kalloc c s = Inr (case ps of [] \<Rightarrow> 0 | p # _ \<Rightarrow> p, t)" "kmem_ok c (tl ps) t"
    "kend t = kend s" "mem t = mem s" "memst.more t = memst.more s"
proof -
  let ?t = "(ktouch c s)\<lparr>kfreelist := if kfreelist s \<noteq> 0 then load32 (mem s) (unat (kfreelist s)) else 0\<rparr>"
  have ok: "cpu_ok (cpus s c)" "lock_free L_kmem s" using assms by (auto simp: kmem_ok_def)
  have "kfreelist s = (case ps of [] \<Rightarrow> 0 | p # _ \<Rightarrow> p)"
    using assms by (cases ps) (auto simp: kmem_ok_def)
  moreover have "kmem_ok c (tl ps) ?t"
    using assms by (cases ps) (auto simp: kmem_ok_def lock_free_def ktouch_def)
  ultimately show thesis using kalloc_eq[OF ok] by (intro that[of ?t]) auto
qed

fun alloc_n :: "('s \<Rightarrow> fault + (uint \<times> 's)) \<Rightarrow> nat \<Rightarrow> 's \<Rightarrow> fault + (uint list \<times> 's)" where
  "alloc_n al 0 s = Inr ([], s)"
| "alloc_n al (Suc n) s =
     bindE (al s) (\<lambda>(p, s). bindE (alloc_n al n s) (\<lambda>(ps, s). Inr (p # ps, s)))"

fun free_all :: "(uint \<Rightarrow> 's \<Rightarrow> fault + 's) \<Rightarrow> uint list \<Rightarrow> 's \<Rightarrow> fault + 's" where
  "free_all fr [] s = Inr s"
| "free_all fr (p # ps) s = bindE (fr p s) (free_all fr ps)"

text \<open>The contract a client of the page allocator relies on.\<close>

locale page_allocator =
  fixes al :: "'s \<Rightarrow> fault + (uint \<times> 's)"
    and fr :: "uint \<Rightarrow> 's \<Rightarrow> fault + 's"
    and view :: "uint list \<Rightarrow> 's \<Rightarrow> bool"
    and usable :: "'s \<Rightarrow> uint \<Rightarrow> bool"
  assumes al_empty: "view [] s \<Longrightarrow> \<exists>t. al s = Inr (0, t) \<and> view [] t"
    and al_page: "view (p # ps) s \<Longrightarrow> \<exists>t. al s = Inr (p, t) \<and> view ps t \<and> usable t = usable s"
    and fr_page: "view ps s \<Longrightarrow> usable s p \<Longrightarrow> p \<notin> set ps \<Longrightarrow>
      \<exists>t. fr p s = Inr t \<and> view (p # ps) t \<and> usable t = usable s"
    and view_distinct: "view ps s \<Longrightarrow> distinct ps"
    and view_usable: "view ps s \<Longrightarrow> p \<in> set ps \<Longrightarrow> usable s p"
begin

lemma alloc_n_view:
  "view ps s \<Longrightarrow> n \<le> length ps \<Longrightarrow>
   \<exists>t. alloc_n al n s = Inr (take n ps, t) \<and> view (drop n ps) t \<and> usable t = usable s"
proof (induction n arbitrary: ps s)
  case (Suc n)
  then obtain p qs where ps: "ps = p # qs" by (cases ps) auto
  from al_page[of p qs s] Suc.prems ps obtain t where
    t: "al s = Inr (p, t)" "view qs t" "usable t = usable s" by auto
  from Suc.IH[OF t(2)] Suc.prems ps t show ?case by auto
qed auto

lemma free_all_view:
  "view ps s \<Longrightarrow> distinct (qs @ ps) \<Longrightarrow> \<forall>q \<in> set qs. usable s q \<Longrightarrow>
   \<exists>t. free_all fr qs s = Inr t \<and> view (rev qs @ ps) t"
proof (induction qs arbitrary: ps s)
  case (Cons q qs)
  from fr_page[OF Cons.prems(1), of q] Cons.prems obtain t where
    t: "fr q s = Inr t" "view (q # ps) t" "usable t = usable s" by auto
  from Cons.IH[OF t(2)] Cons.prems t show ?case by auto
qed auto

lemma alloc_free_view:
  assumes "view ps s" "n \<le> length ps" "set rs = set (take n ps)" "distinct rs"
  shows "\<exists>t u. alloc_n al n s = Inr (take n ps, t) \<and> free_all fr rs t = Inr u \<and>
    view (rev rs @ drop n ps) u"
proof -
  from alloc_n_view[OF assms(1,2)] obtain t where
    t: "alloc_n al n s = Inr (take n ps, t)" "view (drop n ps) t" "usable t = usable s" by blast
  have "set (take n ps) \<inter> set (drop n ps) = {}"
    using view_distinct[OF assms(1)] by (metis append_take_drop_id distinct_append)
  then have "distinct (rs @ drop n ps)" "\<forall>q \<in> set rs. usable t q"
    using assms view_distinct[OF t(2)] view_usable[OF assms(1)] t(3) by (auto dest: in_set_takeD)
  from free_all_view[OF t(2) this] t(1) show ?thesis by blast
qed

end

interpretation kpages: page_allocator "kalloc c" "kfree c" "kmem_ok c" "\<lambda>s. page_ok (kend s)" for c
proof
  fix s :: "'a memst_scheme"
  assume "kmem_ok c [] s"
  then show "\<exists>t. kalloc c s = Inr (0, t) \<and> kmem_ok c [] t" by (rule kalloc_ok) auto
next
  fix p ps and s :: "'a memst_scheme"
  assume "kmem_ok c (p # ps) s"
  then show "\<exists>t. kalloc c s = Inr (p, t) \<and> kmem_ok c ps t \<and> page_ok (kend t) = page_ok (kend s)"
    by (rule kalloc_ok) auto
next
  fix ps p and s :: "'a memst_scheme"
  assume "kmem_ok c ps s" "page_ok (kend s) p" "p \<notin> set ps"
  then show "\<exists>t. kfree c p s = Inr t \<and> kmem_ok c (p # ps) t \<and> page_ok (kend t) = page_ok (kend s)"
    by (rule kfree_ok) auto
qed (auto simp: kmem_ok_def)

subsection \<open>Handing the memory to the allocator at boot\<close>

definition page_range :: "uint \<Rightarrow> nat \<Rightarrow> uint list" where
  "page_range p k = map (\<lambda>i. p + 4096 * of_nat i) [0..<k]"

lemma page_range_0 [simp]: "page_range p 0 = []"
  by (simp add: page_range_def)

lemma page_range_Suc: "page_range p (Suc k) = p # page_range (p + 4096) k"
  unfolding page_range_def
  by (simp add: map_upt_Suc algebra_simps del: upt_Suc)

lemma aligned_eq:
  assumes "(x :: nat) mod 4096 = 0" "p mod 4096 = 0" "p \<le> x" "x < p + 4096"
  shows "x = p"
proof -
  have "x = 4096 * (x div 4096)" "p = 4096 * (p div 4096)"
    using assms(1,2) by (simp_all add: minus_mod_eq_mult_div[symmetric])
  with assms(3,4) have "x div 4096 = p div 4096" by linarith
  with \<open>x = _\<close> \<open>p = _\<close> show ?thesis by metis
qed

lemma set_page_range:
  "unat p mod 4096 = 0 \<Longrightarrow> unat p + 4096 * k < 2 ^ 32 \<Longrightarrow>
   v \<in> set (page_range p k) \<longleftrightarrow> unat v mod 4096 = 0 \<and> unat p \<le> unat v \<and> unat v < unat p + 4096 * k"
proof (induction k arbitrary: p)
  case (Suc k)
  have p: "unat (p + 4096) = unat p + 4096" using Suc.prems by (simp add: unat_word_ariths)
  have IH: "v \<in> set (page_range (p + 4096) k) \<longleftrightarrow>
    unat v mod 4096 = 0 \<and> unat (p + 4096) \<le> unat v \<and> unat v < unat (p + 4096) + 4096 * k"
    using Suc.prems p by (intro Suc.IH) auto
  consider "unat v < unat p + 4096" | "unat p + 4096 \<le> unat v" by linarith
  then show ?case
  proof cases
    case 1
    then have "v \<in> set (page_range p (Suc k)) \<longleftrightarrow> v = p" unfolding page_range_Suc by (simp add: IH p)
    moreover have "v = p" if "unat v mod 4096 = 0" "unat p \<le> unat v"
      using aligned_eq[OF that(1) Suc.prems(1) that(2) 1] by simp
    moreover have "unat v < unat p + 4096 * Suc k" using 1 by simp
    ultimately show ?thesis using Suc.prems(1) by (metis order_refl)
  next
    case 2
    then have "v \<noteq> p" by auto
    with 2 show ?thesis unfolding page_range_Suc by (simp add: IH p add.assoc)
  qed
qed simp

lemma distinct_page_range:
  "unat p mod 4096 = 0 \<Longrightarrow> unat p + 4096 * k < 2 ^ 32 \<Longrightarrow> distinct (page_range p k)"
proof (induction k arbitrary: p)
  case (Suc k)
  have p: "unat (p + 4096) = unat p + 4096" using Suc.prems by (simp add: unat_word_ariths)
  then have "distinct (page_range (p + 4096) k)" using Suc.prems by (intro Suc.IH) auto
  moreover have "p \<notin> set (page_range (p + 4096) k)"
    using Suc.prems p set_page_range[of "p + 4096" k p] by auto
  ultimately show ?case by (simp add: page_range_Suc)
qed simp

lemma page_okI:
  assumes "unat v mod 4096 = 0" "unat lo \<le> unat v" "0x80000000 \<le> unat v" "unat v < 0x8E000000"
  shows "page_ok lo v"
proof -
  have "unat (V2P v) = unat v - 0x80000000"
    using assms(3) by (simp add: V2P_def KERNBASE_def unat_sub_if')
  then have "unat (V2P v) < 0xE000000" using assms(3,4) by linarith
  moreover have "v mod 4096 = 0" using assms(1) unat_mod_distrib[of v 4096]
    by (simp add: unat_eq_zero[symmetric] del: unat_eq_zero)
  ultimately show ?thesis
    using assms(2) by (simp add: page_ok_def PGSIZE_def PHYSTOP_def word_less_nat_alt word_le_nat_alt)
qed

lemma freerange_loop_ok:
  assumes "kmem_ok c ps s" "unat p mod 4096 = 0" "unat (kend s) \<le> unat p" "0x80000000 \<le> unat p"
    and "unat vend = unat p + 4096 * k + r" "r < 4096" "unat vend \<le> 0x8E000000"
    and "set (page_range p k) \<inter> set ps = {}"
  shows "\<exists>t. freerange_loop c p vend s = Inr t \<and> kmem_ok c (rev (page_range p k) @ ps) t \<and>
    kend t = kend s \<and> use_lock t = use_lock s"
  using assms
proof (induction k arbitrary: p s ps)
  case 0
  have "unat (p + 4096) = unat p + 4096" using 0(5,7) by (simp add: unat_word_ariths)
  then have "\<not> p + PGSIZE \<le> vend" using 0(5,6) unfolding word_le_nat_alt PGSIZE_def by linarith
  then have "freerange_loop c p vend s = Inr s"
    by (intro trans[OF freerange_loop.simps] if_not_P)
  with 0(1) show ?case by simp
next
  case (Suc k)
  have p: "unat (p + 4096) = unat p + 4096" using Suc.prems(5,7) by (simp add: unat_word_ariths)
  have le: "p + PGSIZE \<le> vend" using Suc.prems(5) p unfolding word_le_nat_alt PGSIZE_def by simp
  have "page_ok (kend s) p" using Suc.prems by (intro page_okI) auto
  moreover have "p \<notin> set ps" using Suc.prems by (auto simp: page_range_Suc)
  ultimately obtain t where t: "kfree c p s = Inr t" "kmem_ok c (p # ps) t" "kend t = kend s"
    and ul: "use_lock t = use_lock s"
    by (rule kfree_ok[OF Suc.prems(1)])
  have "p \<notin> set (page_range (p + 4096) k)"
    using distinct_page_range[of p "Suc k"] Suc.prems by (simp add: page_range_Suc)
  then have "\<exists>u. freerange_loop c (p + 4096) vend t = Inr u \<and>
      kmem_ok c (rev (page_range (p + 4096) k) @ p # ps) u \<and> kend u = kend t \<and> use_lock u = use_lock t"
    using Suc.prems t p by (intro Suc.IH) (auto simp: page_range_Suc)
  then obtain u where u: "freerange_loop c (p + 4096) vend t = Inr u"
      "kmem_ok c (rev (page_range (p + 4096) k) @ p # ps) u" "kend u = kend s" "use_lock u = use_lock s"
    using t(3) ul by metis
  have "freerange_loop c p vend s = bindE (kfree c p s) (\<lambda>s. freerange_loop c (p + PGSIZE) vend s)"
    by (rule trans[OF freerange_loop.simps]) (rule if_P[OF le])
  then have "freerange_loop c p vend s = Inr u" unfolding t(1) bindE_Inr PGSIZE_def u(1) .
  then show ?case using u(2-) by (auto simp: page_range_Suc)
qed

lemma round_le_iff: "(x + 4095) div 4096 * 4096 \<le> 4096 * b \<longleftrightarrow> x \<le> 4096 * (b :: nat)"
  using div_less_iff_less_mult[of 4096 "x + 4095" "Suc b"] by (simp add: less_Suc_eq_le) linarith

lemma freerange_ok:
  assumes ok: "kmem_ok c ps s" and lo: "0x80000000 \<le> unat vstart" "unat (kend s) \<le> unat vstart"
    and hi: "unat vstart \<le> unat vend" "unat vend \<le> 0x8E000000" "unat vend mod 4096 = 0"
    and fresh: "\<forall>v \<in> set ps. unat v < unat vstart \<or> unat vend \<le> unat v"
  shows "\<exists>t qs. freerange c vstart vend s = Inr t \<and> kmem_ok c (qs @ ps) t \<and> kend t = kend s \<and>
    (\<forall>v. v \<in> set qs \<longleftrightarrow> unat v mod 4096 = 0 \<and> unat vstart \<le> unat v \<and> unat v < unat vend)"
proof -
  let ?p = "PGROUNDUP vstart"
  have p: "unat ?p = (unat vstart + 4095) div 4096 * 4096" using hi by (intro unat_PGROUNDUP) simp
  have al: "unat ?p \<le> x \<longleftrightarrow> unat vstart \<le> x" if "x mod 4096 = 0" for x
  proof -
    have "4096 * (x div 4096) = x" using that mult_div_mod_eq[of 4096 x] by simp
    then show ?thesis unfolding p by (metis round_le_iff)
  qed
  have pa: "unat ?p mod 4096 = 0" unfolding p by simp
  have pv: "unat ?p \<le> unat vend" "unat vstart \<le> unat ?p" using al[OF hi(3)] al[OF pa] hi(1) by auto
  define k where "k = (unat vend - unat ?p) div 4096"
  have "4096 dvd unat vend - unat ?p" using hi(3) pa by (simp add: dvd_diff_nat mod_eq_0_iff_dvd)
  then have k: "unat vend = unat ?p + 4096 * k + 0" unfolding k_def using pv(1) by simp
  have "unat ?p + 4096 * k < 2 ^ 32" using k hi by simp
  note rng = set_page_range[OF pa this]
  have "set (page_range ?p k) \<inter> set ps = {}" using rng fresh k pv by fastforce
  from freerange_loop_ok[OF ok pa _ _ k _ hi(2) this] lo pv obtain t where
    "freerange_loop c ?p vend s = Inr t" "kmem_ok c (rev (page_range ?p k) @ ps) t" "kend t = kend s"
    by auto
  moreover have "v \<in> set (rev (page_range ?p k)) \<longleftrightarrow>
      unat v mod 4096 = 0 \<and> unat vstart \<le> unat v \<and> unat v < unat vend" for v
    using rng[of v] al[of "unat v"] k by auto
  ultimately show ?thesis unfolding freerange_def by blast
qed

lemma page_ok_iff:
  assumes "0x80000000 \<le> unat lo"
  shows "page_ok lo v \<longleftrightarrow> unat v mod 4096 = 0 \<and> unat lo \<le> unat v \<and> unat v < 0x8E000000"
proof
  assume "page_ok lo v"
  then show "unat v mod 4096 = 0 \<and> unat lo \<le> unat v \<and> unat v < 0x8E000000"
    using page_aligned[of lo v] V2P_bound[of v] by (simp add: page_ok_def word_le_nat_alt)
next
  assume "unat v mod 4096 = 0 \<and> unat lo \<le> unat v \<and> unat v < 0x8E000000"
  then show "page_ok lo v" using assms by (intro page_okI) auto
qed

subsection \<open>Properties\<close>

text \<open>C13: Boot hands every usable page to the allocator exactly once: after kinit1 on the memory from the
end of the kernel to 4 MB and kinit2 on the rest up to PHYSTOP (the two calls of main), the free
list is well formed, has no page twice, and consists of exactly the page-aligned addresses at or
above the end of the kernel and below PHYSTOP.\<close>

theorem kinit_frees_all_pages:
  assumes "cpu_ok (cpus s c)" "kfreelist s = 0" "KERNBASE \<le> kend s" "kend s \<le> P2V 0x400000"
  shows "\<exists>t u ps. kinit1 c (kend s) (P2V 0x400000) s = Inr t \<and>
    kinit2 c (P2V 0x400000) (P2V PHYSTOP) t = Inr u \<and> kmem_ok c ps u \<and> use_lock u \<and>
    set ps = {v. page_ok (kend s) v}"
proof -
  let ?mid = "P2V 0x400000 :: uint" and ?top = "P2V PHYSTOP :: uint"
  let ?s = "(initlock L_kmem ''kmem'' s)\<lparr>use_lock := False\<rparr>"
  have w: "unat ?mid = 0x80400000" "unat ?top = 0x8E000000"
    by (simp_all add: P2V_def KERNBASE_def PHYSTOP_def)
  have lo: "0x80000000 \<le> unat (kend s)" "unat (kend s) \<le> 0x80400000"
    using assms(3,4) w by (simp_all add: word_le_nat_alt KERNBASE_def)
  have s: "kmem_ok c [] ?s" "kend ?s = kend s"
    using assms(1,2) by (simp_all add: kmem_ok_def initlock_def set_lock_def lock_free_def)
  from freerange_ok[OF s(1), of "kend s" ?mid] lo w obtain t qs where t:
    "freerange c (kend s) ?mid ?s = Inr t" "kmem_ok c qs t" "kend t = kend s"
    "\<And>v. v \<in> set qs \<longleftrightarrow> unat v mod 4096 = 0 \<and> unat (kend s) \<le> unat v \<and> unat v < 0x80400000"
    using s(2) by auto
  from freerange_ok[OF t(2), of ?mid ?top] lo w t(3,4) obtain u rs where u:
    "freerange c ?mid ?top t = Inr u" "kmem_ok c (rs @ qs) u" "kend u = kend s"
    "\<And>v. v \<in> set rs \<longleftrightarrow> unat v mod 4096 = 0 \<and> 0x80400000 \<le> unat v \<and> unat v < 0x8E000000"
    by auto
  have "set (rs @ qs) = {v. page_ok (kend s) v}"
    using lo by (auto simp: page_ok_iff t(4) u(4))
  moreover have "kmem_ok c (rs @ qs) (u\<lparr>use_lock := True\<rparr>)"
    using u(2) by (simp add: kmem_ok_def lock_free_def)
  moreover have "kinit1 c (kend s) ?mid s = Inr t" using t(1) by (simp add: kinit1_def)
  moreover have "kinit2 c ?mid ?top t = Inr (u\<lparr>use_lock := True\<rparr>)" using u(1) by (simp add: kinit2_def)
  moreover have "use_lock (u\<lparr>use_lock := True\<rparr>)" by simp
  ultimately show ?thesis by blast
qed

definition demo_mst :: memst where
  "demo_mst = lockst.extend demo_locks \<lparr>mem = (\<lambda>_. 0), kfreelist = 0, use_lock = False, kend = 0x80123450\<rparr>"

theorem kinit_frees_all_pages_witness:
  "\<exists>t u ps. kinit1 0 (kend demo_mst) (P2V 0x400000) demo_mst = Inr t \<and>
    kinit2 0 (P2V 0x400000) (P2V PHYSTOP) t = Inr u \<and> kmem_ok 0 ps u \<and> use_lock u \<and>
    set ps = {v. page_ok (kend demo_mst) v}"
  by (rule kinit_frees_all_pages)
    (simp_all add: demo_mst_def demo_locks_def demo_cpu_def cpu_ok_def lockst.defs KERNBASE_def P2V_def)

text \<open>C14: The allocator is a stack of pages with no aliasing: from a well-formed free list, n calls of
kalloc return the first n pages of the list, which are pairwise distinct and usable, and giving
them back with kfree in any order succeeds and leaves a well-formed free list that again holds
every page exactly once (the returned ones on top, last freed first).\<close>

theorem kalloc_kfree_roundtrip:
  assumes "kmem_ok c ps s" "n \<le> length ps" "set rs = set (take n ps)" "distinct rs"
  shows "\<exists>t u. alloc_n (kalloc c) n s = Inr (take n ps, t) \<and> distinct (take n ps) \<and>
    (\<forall>p \<in> set (take n ps). page_ok (kend s) p) \<and>
    free_all (kfree c) rs t = Inr u \<and> kmem_ok c (rev rs @ drop n ps) u"
proof -
  have "distinct (take n ps)" "\<forall>p \<in> set (take n ps). page_ok (kend s) p"
    using assms(1) by (auto simp: kmem_ok_def dest: in_set_takeD)
  with kpages.alloc_free_view[OF assms] show ?thesis by metis
qed

definition demo_pages :: memst where
  "demo_pages = demo_mst\<lparr>use_lock := True, kfreelist := 0x80125000,
     mem := store32 (\<lambda>_. 0) 0x80125000 0x80124000\<rparr>"

theorem kalloc_kfree_roundtrip_witness:
  "\<exists>t u. alloc_n (kalloc 0) 2 demo_pages = Inr ([0x80125000, 0x80124000], t) \<and>
    free_all (kfree 0) [0x80125000, 0x80124000] t = Inr u \<and> kmem_ok 0 [0x80124000, 0x80125000] u"
proof -
  have "kmem_ok 0 [0x80125000, 0x80124000] demo_pages"
    by (simp add: kmem_ok_def demo_pages_def demo_mst_def demo_locks_def demo_cpu_def cpu_ok_def lockst.defs
        lock_free_def page_ok_def V2P_def KERNBASE_def PHYSTOP_def PGSIZE_def load32_store32_other)
      (simp add: load32_def)
  from kalloc_kfree_roundtrip[OF this, of 2 "[0x80125000, 0x80124000]"] show ?thesis by auto
qed



end
