(* ===== verification/Vm.thy ===== *)
theory Vm
  imports Kalloc
begin

text \<open>
  vm.c: two-level page tables in memory.  A page directory is the kernel address of a page
  whose words are read and written with \<open>load32\<close> and \<open>store32\<close>; page-table pages come from
  \<open>kalloc\<close> and go back with \<open>kfree\<close>.  The null pointer is the address 0.  The CPU's page-table
  register and the task state that a kernel entry uses are fields of the CPU; its segment
  descriptors are not modelled.
\<close>

record vmst = memst +
  kpgdir :: uint
  kdata :: uint

definition rd :: "uint \<Rightarrow> 'a memst_scheme \<Rightarrow> uint" where
  "rd p s = load32 (mem s) (unat p)"

definition wr :: "uint \<Rightarrow> uint \<Rightarrow> 'a memst_scheme \<Rightarrow> 'a memst_scheme" where
  "wr p v s = s\<lparr>mem := store32 (mem s) (unat p) v\<rparr>"

definition zero_page :: "uint \<Rightarrow> 'a memst_scheme \<Rightarrow> 'a memst_scheme" where
  "zero_page p s = s\<lparr>mem := memset (mem s) (unat p) 0 4096\<rparr>"

subsection \<open>Walking and building page tables\<close>

definition walkpgdir ::
  "nat \<Rightarrow> uint \<Rightarrow> uint \<Rightarrow> bool \<Rightarrow> 'a memst_scheme \<Rightarrow> fault + (uint \<times> 'a memst_scheme)" where
  "walkpgdir c pgdir va alloc s =
     (let pde = pgdir + 4 * PDX va
      in if rd pde s AND PTE_P \<noteq> 0
         then Inr (P2V (PTE_ADDR (rd pde s)) + 4 * PTX va, s)
         else if \<not> alloc then Inr (0, s)
         else bindE (kalloc c s) (\<lambda>(pgtab, s).
           if pgtab = 0 then Inr (0, s)
           else let s = zero_page pgtab s;
                    s = wr pde (V2P pgtab OR PTE_P OR PTE_W OR PTE_U) s
                in Inr (pgtab + 4 * PTX va, s)))"

text \<open>
  The loop of mappages runs from the page of \<open>va\<close> to the page of \<open>va + size - 1\<close>; \<open>n\<close> is the
  number of pages after the current one, so \<open>n = 0\<close> is the test \<open>a == last\<close>.
\<close>

fun mappages_loop ::
  "nat \<Rightarrow> uint \<Rightarrow> uint \<Rightarrow> nat \<Rightarrow> uint \<Rightarrow> uint \<Rightarrow> 'a memst_scheme \<Rightarrow> fault + (int \<times> 'a memst_scheme)" where
  "mappages_loop c pgdir a n pa perm s =
     bindE (walkpgdir c pgdir a True s) (\<lambda>(pte, s).
       if pte = 0 then Inr (- 1, s)
       else if rd pte s AND PTE_P \<noteq> 0 then Inl (Panic ''remap'')
       else let s = wr pte (pa OR perm OR PTE_P) s
            in case n of 0 \<Rightarrow> Inr (0, s)
               | Suc k \<Rightarrow> mappages_loop c pgdir (a + PGSIZE) k (pa + PGSIZE) perm s)"

declare mappages_loop.simps [simp del]

definition mappages ::
  "nat \<Rightarrow> uint \<Rightarrow> uint \<Rightarrow> uint \<Rightarrow> uint \<Rightarrow> uint \<Rightarrow> 'a memst_scheme \<Rightarrow> fault + (int \<times> 'a memst_scheme)" where
  "mappages c pgdir va sz pa perm s =
     (let a = PGROUNDDOWN va; last = PGROUNDDOWN (va + sz - 1)
      in mappages_loop c pgdir a (unat (last - a) div 4096) pa perm s)"

lemma mappages_count:
  "PGROUNDDOWN va + of_nat (unat (PGROUNDDOWN w - PGROUNDDOWN va) div 4096) * PGSIZE = PGROUNDDOWN w"
proof -
  let ?d = "PGROUNDDOWN w - PGROUNDDOWN va"
  have "PGROUNDDOWN v = (v div 4096) * 4096" for v
    by (simp add: PGROUNDDOWN_def PGSIZE_def and_not_mask_div)
  then have "?d = (w div 4096 - va div 4096) * 4096" by (simp add: left_diff_distrib)
  then have "?d = push_bit 12 (w div 4096 - va div 4096)" by (simp add: push_bit_eq_mult)
  then have "take_bit 12 ?d = 0" by (simp add: take_bit_push_bit)
  then have "take_bit 12 (unat ?d) = 0" by (metis unsigned_take_bit_eq unsigned_0)
  then have "unat ?d mod 4096 = 0" by (simp add: take_bit_eq_mod)
  then have "unat ?d div 4096 * 4096 = unat ?d" by (simp add: dvd_div_mult_self mod_eq_0_iff_dvd)
  then have "(of_nat (unat ?d div 4096 * 4096) :: uint) = of_nat (unat ?d)" by (rule arg_cong)
  then have "of_nat (unat ?d div 4096) * PGSIZE = ?d" by (simp add: PGSIZE_def)
  then show ?thesis by simp
qed

subsection \<open>Removing user pages\<close>

text \<open>
  A page loop advances by at least a page at a time below \<open>oldsz\<close>; \<open>n\<close> bounds its iterations, and
  a loop that exceeds the 2^20 pages of the address space would never end.  When the page table
  of \<open>a\<close> is missing the loop skips to the next page directory entry.
\<close>

definition page_fuel :: nat where "page_fuel = 2 ^ 20"

fun deallocuvm_loop ::
  "nat \<Rightarrow> uint \<Rightarrow> nat \<Rightarrow> uint \<Rightarrow> uint \<Rightarrow> 'a memst_scheme \<Rightarrow> fault + 'a memst_scheme" where
  "deallocuvm_loop c pgdir n a oldsz s =
     (if a < oldsz then
        case n of 0 \<Rightarrow> Inl Spin
        | Suc k \<Rightarrow>
          bindE (walkpgdir c pgdir a False s) (\<lambda>(pte, s).
            if pte = 0 then
              deallocuvm_loop c pgdir k (PGADDR (PDX a + 1) 0 0 - PGSIZE + PGSIZE) oldsz s
            else if rd pte s AND PTE_P \<noteq> 0 then
              let pa = PTE_ADDR (rd pte s)
              in if pa = 0 then Inl (Panic ''kfree'')
                 else bindE (kfree c (P2V pa) s) (\<lambda>s.
                   deallocuvm_loop c pgdir k (a + PGSIZE) oldsz (wr pte 0 s))
            else deallocuvm_loop c pgdir k (a + PGSIZE) oldsz s)
      else Inr s)"

declare deallocuvm_loop.simps [simp del]

definition deallocuvm ::
  "nat \<Rightarrow> uint \<Rightarrow> uint \<Rightarrow> uint \<Rightarrow> 'a memst_scheme \<Rightarrow> fault + (uint \<times> 'a memst_scheme)" where
  "deallocuvm c pgdir oldsz newsz s =
     (if newsz \<ge> oldsz then Inr (oldsz, s)
      else bindE (deallocuvm_loop c pgdir page_fuel (PGROUNDUP newsz) oldsz s) (\<lambda>s. Inr (newsz, s)))"

fun freevm_loop :: "nat \<Rightarrow> uint \<Rightarrow> uint list \<Rightarrow> 'a memst_scheme \<Rightarrow> fault + 'a memst_scheme" where
  "freevm_loop c pgdir [] s = Inr s"
| "freevm_loop c pgdir (i # is) s =
     (if rd (pgdir + 4 * i) s AND PTE_P \<noteq> 0
      then bindE (kfree c (P2V (PTE_ADDR (rd (pgdir + 4 * i) s))) s) (freevm_loop c pgdir is)
      else freevm_loop c pgdir is s)"

definition NPDENTRIES :: nat where "NPDENTRIES = 1024"

definition freevm :: "nat \<Rightarrow> uint \<Rightarrow> 'a memst_scheme \<Rightarrow> fault + 'a memst_scheme" where
  "freevm c pgdir s =
     (if pgdir = 0 then Inl (Panic ''freevm: no pgdir'')
      else bindE (deallocuvm c pgdir KERNBASE 0 s) (\<lambda>(_, s).
           bindE (freevm_loop c pgdir (map of_nat [0..<NPDENTRIES]) s) (\<lambda>s.
           kfree c pgdir s)))"

subsection \<open>The kernel part\<close>

definition kmap :: "'a vmst_scheme \<Rightarrow> (uint \<times> uint \<times> uint \<times> uint) list" where
  "kmap s =
     [(KERNBASE, 0, EXTMEM, PTE_W),
      (KERNLINK, V2P KERNLINK, V2P (kdata s), 0),
      (kdata s, V2P (kdata s), PHYSTOP, PTE_W),
      (DEVSPACE, DEVSPACE, 0, PTE_W)]"

fun setupkvm_loop :: "nat \<Rightarrow> uint \<Rightarrow> (uint \<times> uint \<times> uint \<times> uint) list \<Rightarrow> 'a memst_scheme \<Rightarrow>
    fault + (uint \<times> 'a memst_scheme)" where
  "setupkvm_loop c pgdir [] s = Inr (pgdir, s)"
| "setupkvm_loop c pgdir ((virt, phys_start, phys_end, perm) # ks) s =
     bindE (mappages c pgdir virt (phys_end - phys_start) phys_start perm s) (\<lambda>(r, s).
       if r < 0 then bindE (freevm c pgdir s) (\<lambda>s. Inr (0, s))
       else setupkvm_loop c pgdir ks s)"

definition setupkvm :: "nat \<Rightarrow> 'a vmst_scheme \<Rightarrow> fault + (uint \<times> 'a vmst_scheme)" where
  "setupkvm c s =
     bindE (kalloc c s) (\<lambda>(pgdir, s).
       if pgdir = 0 then Inr (0, s)
       else let s = zero_page pgdir s
            in if P2V PHYSTOP > DEVSPACE then Inl (Panic ''PHYSTOP too high'')
               else setupkvm_loop c pgdir (kmap s) s)"

definition lcr3 :: "nat \<Rightarrow> uint \<Rightarrow> 'a lockst_scheme \<Rightarrow> 'a lockst_scheme" where
  "lcr3 c v s = set_cpu c (cr3_update (\<lambda>_. v)) s"

definition switchkvm :: "nat \<Rightarrow> 'a vmst_scheme \<Rightarrow> 'a vmst_scheme" where
  "switchkvm c s = lcr3 c (V2P (kpgdir s)) s"

definition kvmalloc :: "nat \<Rightarrow> 'a vmst_scheme \<Rightarrow> fault + 'a vmst_scheme" where
  "kvmalloc c s = bindE (setupkvm c s) (\<lambda>(p, s). Inr (switchkvm c (s\<lparr>kpgdir := p\<rparr>)))"

subsection \<open>User memory\<close>

text \<open>\<open>init\<close> is the address of the code that becomes the first page of the first process.\<close>

definition inituvm :: "nat \<Rightarrow> uint \<Rightarrow> uint \<Rightarrow> uint \<Rightarrow> 'a memst_scheme \<Rightarrow> fault + 'a memst_scheme" where
  "inituvm c pgdir init sz s =
     (if sz \<ge> PGSIZE then Inl (Panic ''inituvm: more than a page'')
      else bindE (kalloc c s) (\<lambda>(pg, s).
           let s = zero_page pg s
           in bindE (mappages c pgdir 0 PGSIZE (V2P pg) (PTE_W OR PTE_U) s) (\<lambda>(_, s).
              Inr (s\<lparr>mem := memmove (mem s) (unat pg) (unat init) (unat sz)\<rparr>))))"

fun allocuvm_loop ::
  "nat \<Rightarrow> uint \<Rightarrow> nat \<Rightarrow> uint \<Rightarrow> uint \<Rightarrow> uint \<Rightarrow> 'a memst_scheme \<Rightarrow> fault + (uint \<times> 'a memst_scheme)" where
  "allocuvm_loop c pgdir n a oldsz newsz s =
     (if a < newsz then
        case n of 0 \<Rightarrow> Inl Spin
        | Suc k \<Rightarrow>
          bindE (kalloc c s) (\<lambda>(pg, s).
            if pg = 0 then bindE (deallocuvm c pgdir newsz oldsz s) (\<lambda>(_, s). Inr (0, s))
            else let s = zero_page pg s
                 in bindE (mappages c pgdir a PGSIZE (V2P pg) (PTE_W OR PTE_U) s) (\<lambda>(r, s).
                    if r < 0 then
                      bindE (deallocuvm c pgdir newsz oldsz s) (\<lambda>(_, s).
                      bindE (kfree c pg s) (\<lambda>s. Inr (0, s)))
                    else allocuvm_loop c pgdir k (a + PGSIZE) oldsz newsz s))
      else Inr (newsz, s))"

declare allocuvm_loop.simps [simp del]

definition allocuvm ::
  "nat \<Rightarrow> uint \<Rightarrow> uint \<Rightarrow> uint \<Rightarrow> 'a memst_scheme \<Rightarrow> fault + (uint \<times> 'a memst_scheme)" where
  "allocuvm c pgdir oldsz newsz s =
     (if newsz \<ge> KERNBASE then Inr (0, s)
      else if newsz < oldsz then Inr (oldsz, s)
      else allocuvm_loop c pgdir page_fuel (PGROUNDUP oldsz) oldsz newsz s)"

definition clearpteu :: "nat \<Rightarrow> uint \<Rightarrow> uint \<Rightarrow> 'a memst_scheme \<Rightarrow> fault + 'a memst_scheme" where
  "clearpteu c pgdir uva s =
     bindE (walkpgdir c pgdir uva False s) (\<lambda>(pte, s).
       if pte = 0 then Inl (Panic ''clearpteu'') else Inr (wr pte (rd pte s AND NOT PTE_U) s))"

fun copyuvm_loop ::
  "nat \<Rightarrow> uint \<Rightarrow> uint \<Rightarrow> nat \<Rightarrow> uint \<Rightarrow> uint \<Rightarrow> 'a memst_scheme \<Rightarrow> fault + (uint \<times> 'a memst_scheme)" where
  "copyuvm_loop c pgdir d n i sz s =
     (if i < sz then
        case n of 0 \<Rightarrow> Inl Spin
        | Suc k \<Rightarrow>
          bindE (walkpgdir c pgdir i False s) (\<lambda>(pte, s).
            if pte = 0 then Inl (Panic ''copyuvm: pte should exist'')
            else if rd pte s AND PTE_P = 0 then Inl (Panic ''copyuvm: page not present'')
            else let pa = PTE_ADDR (rd pte s); flags = PTE_FLAGS (rd pte s)
                 in bindE (kalloc c s) (\<lambda>(pg, s).
                    if pg = 0 then bindE (freevm c d s) (\<lambda>s. Inr (0, s))
                    else let s = s\<lparr>mem := memmove (mem s) (unat pg) (unat (P2V pa)) 4096\<rparr>
                         in bindE (mappages c d i PGSIZE (V2P pg) flags s) (\<lambda>(r, s).
                            if r < 0 then
                              bindE (kfree c pg s) (\<lambda>s. bindE (freevm c d s) (\<lambda>s. Inr (0, s)))
                            else copyuvm_loop c pgdir d k (i + PGSIZE) sz s)))
      else Inr (d, s))"

declare copyuvm_loop.simps [simp del]

definition copyuvm :: "nat \<Rightarrow> uint \<Rightarrow> uint \<Rightarrow> 'a vmst_scheme \<Rightarrow> fault + (uint \<times> 'a vmst_scheme)" where
  "copyuvm c pgdir sz s =
     bindE (setupkvm c s) (\<lambda>(d, s).
       if d = 0 then Inr (0, s) else copyuvm_loop c pgdir d page_fuel 0 sz s)"

text \<open>uva2ka reads through the entry that walkpgdir returns without testing it for null.\<close>

definition uva2ka :: "nat \<Rightarrow> uint \<Rightarrow> uint \<Rightarrow> 'a memst_scheme \<Rightarrow> fault + uint" where
  "uva2ka c pgdir uva s =
     bindE (walkpgdir c pgdir uva False s) (\<lambda>(pte, s).
       if rd pte s AND PTE_P = 0 then Inr 0
       else if rd pte s AND PTE_U = 0 then Inr 0
       else Inr (P2V (PTE_ADDR (rd pte s))))"

text \<open>The bytes \<open>buf\<close> are the \<open>len\<close> bytes that the source pointer of copyout points to.\<close>

fun copyout_loop ::
  "nat \<Rightarrow> uint \<Rightarrow> nat \<Rightarrow> uint \<Rightarrow> uchar list \<Rightarrow> 'a memst_scheme \<Rightarrow> fault + (int \<times> 'a memst_scheme)" where
  "copyout_loop c pgdir k va buf s =
     (if buf \<noteq> [] then
        case k of 0 \<Rightarrow> Inl Spin
        | Suc k \<Rightarrow>
          let va0 = PGROUNDDOWN va
          in bindE (uva2ka c pgdir va0 s) (\<lambda>pa0.
             if pa0 = 0 then Inr (- 1, s)
             else let n = unat (PGSIZE - (va - va0));
                      n = (if n > length buf then length buf else n);
                      s = s\<lparr>mem := put_bytes (take n buf) (unat (pa0 + (va - va0))) (mem s)\<rparr>
                  in copyout_loop c pgdir k (va0 + PGSIZE) (drop n buf) s)
      else Inr (0, s))"

declare copyout_loop.simps [simp del]

definition copyout ::
  "nat \<Rightarrow> uint \<Rightarrow> uint \<Rightarrow> uchar list \<Rightarrow> 'a memst_scheme \<Rightarrow> fault + (int \<times> 'a memst_scheme)" where
  "copyout c pgdir va buf s = copyout_loop c pgdir (Suc page_fuel) va buf s"

subsection \<open>What the memory operations leave alone\<close>

text \<open>
  Every operation of this theory that returns has changed only memory, the free list and the
  interrupt flag saved by a balanced pushcli: no lock is left held and all state of the layers
  above is untouched.
\<close>

definition kready :: "nat \<Rightarrow> 'a memst_scheme \<Rightarrow> bool" where
  "kready c s \<longleftrightarrow> cpu_ok (cpus s c) \<and> lock_free L_kmem s"

definition mframe :: "nat \<Rightarrow> 'a memst_scheme \<Rightarrow> 'a memst_scheme \<Rightarrow> bool" where
  "mframe c s t \<longleftrightarrow> locks t = locks s \<and> ncpu t = ncpu s \<and> (cpus t = cpus s \<or> cpus t = cpus (touch c s)) \<and>
     use_lock t = use_lock s \<and> kend t = kend s \<and> memst.more t = memst.more s"

lemma mframe_refl [simp]: "mframe c s s"
  by (simp add: mframe_def)

lemma cpus_touch_cong: "cpus t = cpus s \<Longrightarrow> cpus (touch c t) = cpus (touch c s)"
  by (simp add: touch_def)

lemma touch_touch [simp]: "touch c (touch c s) = touch c s"
  by (auto simp: touch_def intro!: lockst_eqI)

lemma mframe_trans: "mframe c s t \<Longrightarrow> mframe c t u \<Longrightarrow> mframe c s u"
  using cpus_touch_cong[of t s c] cpus_touch_cong[of t "touch c s" c] by (auto simp: mframe_def)

lemma mframe_kready: "mframe c s t \<Longrightarrow> kready c s \<Longrightarrow> kready c t"
  by (auto simp: mframe_def kready_def lock_free_def)

lemma mframe_mem [simp]:
  "mframe c s (s\<lparr>mem := m\<rparr>)" "mframe c s (wr p v s)" "mframe c s (zero_page p s)"
  by (simp_all add: mframe_def wr_def zero_page_def)

lemma mframe_memI:
  "mframe c s t \<Longrightarrow> mframe c s (t\<lparr>mem := m\<rparr>)" "mframe c s t \<Longrightarrow> mframe c s (wr p v t)"
  "mframe c s t \<Longrightarrow> mframe c s (zero_page p t)"
  by (simp_all add: mframe_def wr_def zero_page_def)

lemma ktouch_cpus: "cpus (ktouch c s) = cpus s \<or> cpus (ktouch c s) = cpus (touch c s)"
  by (simp add: ktouch_def)

lemma kfree_mframe:
  assumes "kready c s" "kfree c v s = Inr t"
  shows "mframe c s t"
proof -
  have "page_ok (kend s) v" using kfree_InrD[OF assms(2)] by (simp add: page_ok_def)
  with assms kfree_eq[of s c v] ktouch_cpus[of c s] show ?thesis by (auto simp: kready_def mframe_def)
qed

lemma kalloc_mframe: "kready c s \<Longrightarrow> kalloc c s = Inr (r, t) \<Longrightarrow> mframe c s t"
  using kalloc_eq[of s c] ktouch_cpus[of c s] by (auto simp: kready_def mframe_def)

lemma walkpgdir_mframe:
  assumes "kready c s" "walkpgdir c d va al s = Inr (r, t)"
  shows "mframe c s t"
  using assms unfolding walkpgdir_def Let_def
  by (auto split: if_splits elim!: bindE_InrE dest!: kalloc_mframe[OF assms(1)] intro!: mframe_memI)

lemma mappages_loop_mframe:
  "kready c s \<Longrightarrow> mappages_loop c d a n pa perm s = Inr (r, t) \<Longrightarrow> mframe c s t"
proof (induction n arbitrary: a pa s)
  case 0
  then show ?case
    by (subst (asm) mappages_loop.simps) (auto split: if_splits elim!: bindE_InrE dest!: walkpgdir_mframe
        intro: mframe_memI)
next
  case (Suc n)
  from Suc.prems(2) obtain q u where w: "walkpgdir c d a True s = Inr (q, u)"
    and r: "t = u \<or> mappages_loop c d (a + PGSIZE) n (pa + PGSIZE) perm (wr q (pa OR perm OR PTE_P) u) = Inr (r, t)"
    by (subst (asm) mappages_loop.simps) (auto split: if_splits elim!: bindE_InrE simp: Let_def)
  note u = walkpgdir_mframe[OF Suc.prems(1) w]
  then have v: "mframe c s (wr q (pa OR perm OR PTE_P) u)" by (rule mframe_memI)
  from r show ?case
  proof
    assume "t = u" with u show ?thesis by simp
  next
    assume "mappages_loop c d (a + PGSIZE) n (pa + PGSIZE) perm (wr q (pa OR perm OR PTE_P) u) = Inr (r, t)"
    from Suc.IH[OF mframe_kready[OF v Suc.prems(1)] this] v show ?thesis by (rule mframe_trans[rotated])
  qed
qed

lemma mappages_mframe: "kready c s \<Longrightarrow> mappages c d va z pa perm s = Inr (r, t) \<Longrightarrow> mframe c s t"
  unfolding mappages_def Let_def by (rule mappages_loop_mframe)

lemma deallocuvm_loop_mframe:
  "kready c s \<Longrightarrow> deallocuvm_loop c d n a oldsz s = Inr t \<Longrightarrow> mframe c s t"
proof (induction n arbitrary: a s)
  case 0
  then show ?case by (subst (asm) deallocuvm_loop.simps) (auto split: if_splits)
next
  case (Suc n)
  show ?case
  proof (cases "a < oldsz")
    case False
    with Suc.prems(2) show ?thesis by (subst (asm) deallocuvm_loop.simps) simp
  next
    case True
    with Suc.prems(2)[unfolded deallocuvm_loop.simps[of c d "Suc n" a oldsz s]]
    obtain q u where w: "walkpgdir c d a False s = Inr (q, u)"
      and r: "(\<exists>b. deallocuvm_loop c d n b oldsz u = Inr t) \<or>
        (\<exists>v x b. kfree c v u = Inr x \<and> deallocuvm_loop c d n b oldsz (wr q 0 x) = Inr t)"
      by (auto split: if_splits elim!: bindE_InrE simp: Let_def) blast+
    note u = walkpgdir_mframe[OF Suc.prems(1) w]
    note ku = mframe_kready[OF u Suc.prems(1)]
    from r show ?thesis
    proof (elim disjE exE conjE)
      fix b assume "deallocuvm_loop c d n b oldsz u = Inr t"
      from mframe_trans[OF u Suc.IH[OF ku this]] show ?thesis .
    next
      fix v x b assume x: "kfree c v u = Inr x" "deallocuvm_loop c d n b oldsz (wr q 0 x) = Inr t"
      have y: "mframe c u (wr q 0 x)" using kfree_mframe[OF ku x(1)] by (rule mframe_memI)
      from mframe_trans[OF u mframe_trans[OF y Suc.IH[OF mframe_kready[OF y ku] x(2)]]] show ?thesis .
    qed
  qed
qed

lemma deallocuvm_mframe: "kready c s \<Longrightarrow> deallocuvm c d o1 o2 s = Inr (r, t) \<Longrightarrow> mframe c s t"
  by (auto simp: deallocuvm_def split: if_splits elim!: bindE_InrE dest: deallocuvm_loop_mframe)

lemma freevm_loop_mframe: "kready c s \<Longrightarrow> freevm_loop c d is s = Inr t \<Longrightarrow> mframe c s t"
proof (induction "is" arbitrary: s)
  case (Cons i "is")
  then show ?case
    by (auto split: if_splits elim!: bindE_InrE dest: kfree_mframe)
      (meson kfree_mframe mframe_kready mframe_trans)
qed simp

lemma freevm_mframe: "kready c s \<Longrightarrow> freevm c d s = Inr t \<Longrightarrow> mframe c s t"
  by (auto simp: freevm_def split: if_splits elim!: bindE_InrE)
    (meson deallocuvm_mframe freevm_loop_mframe kfree_mframe mframe_kready mframe_trans)

lemma setupkvm_loop_mframe: "kready c s \<Longrightarrow> setupkvm_loop c d ks s = Inr (r, t) \<Longrightarrow> mframe c s t"
proof (induction ks arbitrary: s)
  case (Cons k ks)
  obtain v ps pe perm where k: "k = (v, ps, pe, perm)" by (cases k)
  from Cons.prems(2) obtain q u where m: "mappages c d v (pe - ps) ps perm s = Inr (q, u)"
    and r: "(if q < 0 then bindE (freevm c d u) (\<lambda>s. Inr (0, s)) else setupkvm_loop c d ks u) = Inr (r, t)"
    by (auto simp: k elim!: bindE_InrE)
  note u = mappages_mframe[OF Cons.prems(1) m]
  note ku = mframe_kready[OF u Cons.prems(1)]
  have "mframe c u t"
    using r Cons.IH[OF ku] freevm_mframe[OF ku] by (auto split: if_splits elim!: bindE_InrE)
  with u show ?case by (rule mframe_trans)
qed simp

lemma setupkvm_mframe:
  assumes "kready c s" "setupkvm c s = Inr (r, t)"
  shows "mframe c s t"
proof -
  from assms(2) obtain d u where d: "kalloc c s = Inr (d, u)"
    and r: "t = u \<or> (\<exists>ks. setupkvm_loop c d ks (zero_page d u) = Inr (r, t))"
    by (auto simp: setupkvm_def Let_def elim!: bindE_InrE split: if_splits) blast
  have u: "mframe c s u" using assms(1) d by (rule kalloc_mframe)
  then have z: "mframe c s (zero_page d u)" by (rule mframe_memI)
  from setupkvm_loop_mframe[OF mframe_kready[OF z assms(1)]] r u show ?thesis
    by (auto intro: mframe_trans[OF z])
qed

lemma allocuvm_loop_mframe:
  "kready c s \<Longrightarrow> allocuvm_loop c d n a o1 o2 s = Inr (r, t) \<Longrightarrow> mframe c s t"
proof (induction n arbitrary: a s)
  case 0
  then show ?case by (subst (asm) allocuvm_loop.simps) (auto split: if_splits)
next
  case (Suc n)
  note eq = Suc.prems(2)[unfolded allocuvm_loop.simps[of c d "Suc n" a o1 o2 s]]
  show ?case
  proof (cases "a < o2")
    case True
    with eq obtain pg u where k: "kalloc c s = Inr (pg, u)"
      and r: "(\<exists>z. deallocuvm c d o2 o1 u = Inr (z, t)) \<or>
        (\<exists>q v. mappages c d a PGSIZE (V2P pg) (PTE_W OR PTE_U) (zero_page pg u) = Inr (q, v) \<and>
          ((\<exists>z w. deallocuvm c d o2 o1 v = Inr (z, w) \<and> kfree c pg w = Inr t) \<or>
           allocuvm_loop c d n (a + PGSIZE) o1 o2 v = Inr (r, t)))"
      by (auto split: if_splits elim!: bindE_InrE simp: Let_def)
    have z: "mframe c s u" "mframe c s (zero_page pg u)"
      using kalloc_mframe[OF Suc.prems(1) k] by (auto intro: mframe_memI)
    note ku = mframe_kready[OF z(1) Suc.prems(1)] and kz = mframe_kready[OF z(2) Suc.prems(1)]
    from r show ?thesis
    proof (elim disjE exE conjE)
      fix x assume "deallocuvm c d o2 o1 u = Inr (x, t)"
      from mframe_trans[OF z(1) deallocuvm_mframe[OF ku this]] show ?thesis .
    next
      fix q v x w assume "mappages c d a PGSIZE (V2P pg) (PTE_W OR PTE_U) (zero_page pg u) = Inr (q, v)"
        and w: "deallocuvm c d o2 o1 v = Inr (x, w)" "kfree c pg w = Inr t"
      then have v: "mframe c s v" using mappages_mframe[OF kz] mframe_trans[OF z(2)] by blast
      note w' = mframe_trans[OF v deallocuvm_mframe[OF mframe_kready[OF v Suc.prems(1)] w(1)]]
      from mframe_trans[OF w' kfree_mframe[OF mframe_kready[OF w' Suc.prems(1)] w(2)]] show ?thesis .
    next
      fix q v assume "mappages c d a PGSIZE (V2P pg) (PTE_W OR PTE_U) (zero_page pg u) = Inr (q, v)"
        and w: "allocuvm_loop c d n (a + PGSIZE) o1 o2 v = Inr (r, t)"
      then have v: "mframe c s v" using mappages_mframe[OF kz] mframe_trans[OF z(2)] by blast
      from mframe_trans[OF v Suc.IH[OF mframe_kready[OF v Suc.prems(1)] w]] show ?thesis .
    qed
  qed (use eq in simp)
qed

lemma allocuvm_mframe: "kready c s \<Longrightarrow> allocuvm c d o1 o2 s = Inr (r, t) \<Longrightarrow> mframe c s t"
  by (auto simp: allocuvm_def split: if_splits dest: allocuvm_loop_mframe)

lemma copyuvm_loop_mframe:
  "kready c s \<Longrightarrow> copyuvm_loop c d e n i z s = Inr (r, t) \<Longrightarrow> mframe c s t"
proof (induction n arbitrary: i s)
  case 0
  then show ?case by (subst (asm) copyuvm_loop.simps) (auto split: if_splits)
next
  case (Suc n)
  note eq = Suc.prems(2)[unfolded copyuvm_loop.simps[of c d e "Suc n" i z s]]
  show ?case
  proof (cases "i < z")
    case True
    with eq obtain q w pg u x fl where k: "walkpgdir c d i False s = Inr (q, w)" "kalloc c w = Inr (pg, u)"
      and r: "freevm c e u = Inr t \<or>
        (\<exists>q v. mappages c e i PGSIZE (V2P pg) fl (u\<lparr>mem := x\<rparr>) = Inr (q, v) \<and>
          ((\<exists>w. kfree c pg v = Inr w \<and> freevm c e w = Inr t) \<or>
           copyuvm_loop c d e n (i + PGSIZE) z v = Inr (r, t)))"
      by (auto split: if_splits elim!: bindE_InrE simp: Let_def) metis+
    note w = walkpgdir_mframe[OF Suc.prems(1) k(1)]
    have z: "mframe c s u" "mframe c s (u\<lparr>mem := x\<rparr>)"
      using mframe_trans[OF w kalloc_mframe[OF mframe_kready[OF w Suc.prems(1)] k(2)]]
      by (auto intro: mframe_memI)
    note ku = mframe_kready[OF z(1) Suc.prems(1)] and kz = mframe_kready[OF z(2) Suc.prems(1)]
    from r show ?thesis
    proof (elim disjE exE conjE)
      assume "freevm c e u = Inr t"
      from mframe_trans[OF z(1) freevm_mframe[OF ku this]] show ?thesis .
    next
      fix q v w assume "mappages c e i PGSIZE (V2P pg) fl (u\<lparr>mem := x\<rparr>) = Inr (q, v)"
        and w: "kfree c pg v = Inr w" "freevm c e w = Inr t"
      then have v: "mframe c s v" using mappages_mframe[OF kz] mframe_trans[OF z(2)] by blast
      note w' = mframe_trans[OF v kfree_mframe[OF mframe_kready[OF v Suc.prems(1)] w(1)]]
      from mframe_trans[OF w' freevm_mframe[OF mframe_kready[OF w' Suc.prems(1)] w(2)]] show ?thesis .
    next
      fix q v assume "mappages c e i PGSIZE (V2P pg) fl (u\<lparr>mem := x\<rparr>) = Inr (q, v)"
        and w: "copyuvm_loop c d e n (i + PGSIZE) z v = Inr (r, t)"
      then have v: "mframe c s v" using mappages_mframe[OF kz] mframe_trans[OF z(2)] by blast
      from mframe_trans[OF v Suc.IH[OF mframe_kready[OF v Suc.prems(1)] w]] show ?thesis .
    qed
  qed (use eq in simp)
qed

lemma copyuvm_mframe:
  assumes "kready c s" "copyuvm c d z s = Inr (r, t)"
  shows "mframe c s t"
proof -
  from assms(2) obtain e u where e: "setupkvm c s = Inr (e, u)"
    and r: "t = u \<or> copyuvm_loop c d e page_fuel 0 z u = Inr (r, t)"
    by (auto simp: copyuvm_def elim!: bindE_InrE split: if_splits)
  note u = setupkvm_mframe[OF assms(1) e]
  from r u copyuvm_loop_mframe[OF mframe_kready[OF u assms(1)]] show ?thesis
    by (auto intro: mframe_trans)
qed

end
