(* ===== verification/Proc.thy ===== *)
theory Proc
  imports Vm
begin

text \<open>
  proc.c: the process table and every operation on it except the scheduler loop, which is in
  the theory of the scheduler.  A process pointer is an index into the table; the null
  pointer is \<open>None\<close>.  The trap frame that \<open>tf\<close> points to is held by value.  The kernel stack a
  process is suspended on is abstracted to the place where the process stopped: a fresh
  context at forkret, or inside sched called from yield, sleep or exit, with sched's local
  \<open>intena\<close>.  An operation that gives up the CPU is split at the call of swtch: it first runs up
  to the switch, and \<open>resume\<close> is what the process does when a CPU switches back to it.
\<close>

subsection \<open>State\<close>

datatype procstate = UNUSED | EMBRYO | SLEEPING | RUNNABLE | RUNNING | ZOMBIE

text \<open>Sleep channels, by the object whose address the code uses.\<close>

datatype chan = Ch_null | Ch_proc nat | Ch_ticks | Ch_nread uint | Ch_nwrite uint | Ch_buf nat
  | Ch_log | Ch_sleeplock lockid | Ch_input

datatype kctx = Ctx_forkret | Ctx_yield bool | Ctx_sleep lockid bool | Ctx_exit bool

record trapframe =
  tf_edi :: uint
  tf_esi :: uint
  tf_ebp :: uint
  tf_oesp :: uint
  tf_ebx :: uint
  tf_edx :: uint
  tf_ecx :: uint
  tf_eax :: uint
  tf_gs :: ushort
  tf_fs :: ushort
  tf_es :: ushort
  tf_ds :: ushort
  tf_trapno :: uint
  tf_err :: uint
  tf_eip :: uint
  tf_cs :: ushort
  tf_eflags :: uint
  tf_esp :: uint
  tf_ss :: ushort

record proc =
  sz :: uint
  pgdir :: uint
  kstack :: uint
  pstate :: procstate
  pid :: int
  parent :: "nat option"
  tf :: trapframe
  pcontext :: kctx
  chan :: chan
  killed :: bool
  ofile :: "nat option list"
  cwd :: "nat option"
  pname :: string
  ctime :: uint
  etime :: uint
  rtime :: uint
  last_check :: uint
  priority :: int

record procst = vmst +
  ptable :: "proc list"
  nextpid :: int
  initproc :: "nat option"
  ticks :: uint
  forkret_first :: bool

definition NPROC :: nat where "NPROC = 64"
definition NOFILE :: nat where "NOFILE = 16"
definition KSTACKSIZE :: uint where "KSTACKSIZE = 4096"

definition set_proc :: "nat \<Rightarrow> (proc \<Rightarrow> proc) \<Rightarrow> 'a procst_scheme \<Rightarrow> 'a procst_scheme" where
  "set_proc i f s = s\<lparr>ptable := (ptable s)[i := f (ptable s ! i)]\<rparr>"

definition pinit :: "'a procst_scheme \<Rightarrow> 'a procst_scheme" where
  "pinit s = initlock L_ptable ''ptable'' s"

definition myproc :: "nat \<Rightarrow> 'a procst_scheme \<Rightarrow> fault + (nat option \<times> 'a procst_scheme)" where
  "myproc c s =
     (let s = pushcli c s; p = cproc (cpus s c)
      in bindE (popcli c s) (\<lambda>s. Inr (p, s)))"

text \<open>The operations of a process start with \<open>curproc = myproc()\<close> and dereference it.\<close>

definition curproc :: "nat \<Rightarrow> 'a procst_scheme \<Rightarrow> fault + (nat \<times> 'a procst_scheme)" where
  "curproc c s = bindE (myproc c s) (\<lambda>(p, s). case p of Some i \<Rightarrow> Inr (i, s) | None \<Rightarrow> Inl (Panic ''trap''))"

subsection \<open>Switching address spaces\<close>

definition SEG_KDATA :: uint where "SEG_KDATA = 2"
definition SEG_UCODE :: ushort where "SEG_UCODE = 3"
definition SEG_UDATA :: ushort where "SEG_UDATA = 4"
definition SEG_TSS :: uint where "SEG_TSS = 5"
definition DPL_USER :: ushort where "DPL_USER = 3"
definition FL_IF :: uint where "FL_IF = 0x200"

definition switchuvm :: "nat \<Rightarrow> nat option \<Rightarrow> 'a procst_scheme \<Rightarrow> fault + 'a procst_scheme" where
  "switchuvm c po s =
     (case po of None \<Rightarrow> Inl (Panic ''switchuvm: no process'')
      | Some i \<Rightarrow>
        let p = ptable s ! i
        in if kstack p = 0 then Inl (Panic ''switchuvm: no kstack'')
           else if pgdir p = 0 then Inl (Panic ''switchuvm: no pgdir'')
           else let s = pushcli c s;
                    s = set_cpu c (\<lambda>u. u\<lparr>ts_ss0 := push_bit 3 SEG_KDATA,
                          ts_esp0 := kstack p + KSTACKSIZE, ts_iomb := 0xFFFF,
                          tr := push_bit 3 SEG_TSS\<rparr>) s;
                    s = lcr3 c (V2P (pgdir p)) s
                in popcli c s)"

subsection \<open>Allocating a process\<close>

definition allocproc :: "nat \<Rightarrow> 'a procst_scheme \<Rightarrow> fault + (nat option \<times> 'a procst_scheme)" where
  "allocproc c s =
     bindE (acquire c L_ptable s) (\<lambda>s.
       case find_idx (\<lambda>p. pstate p = UNUSED) (ptable s) of
         None \<Rightarrow> bindE (release c L_ptable s) (\<lambda>s. Inr (None, s))
       | Some i \<Rightarrow>
           let s = set_proc i (\<lambda>p. p\<lparr>pstate := EMBRYO, pid := nextpid s\<rparr>) s;
               s = s\<lparr>nextpid := nextpid s + 1\<rparr>;
               s = set_proc i (\<lambda>p. p\<lparr>ctime := ticks s, rtime := 0, last_check := ticks s, priority := 60\<rparr>) s
           in bindE (release c L_ptable s) (\<lambda>s.
              bindE (kalloc c s) (\<lambda>(k, s).
                let s = set_proc i (kstack_update (\<lambda>_. k)) s
                in if k = 0 then Inr (None, set_proc i (pstate_update (\<lambda>_. UNUSED)) s)
                   else Inr (Some i, set_proc i (pcontext_update (\<lambda>_. Ctx_forkret)) s))))"

definition zero_tf :: trapframe where
  "zero_tf = \<lparr>tf_edi = 0, tf_esi = 0, tf_ebp = 0, tf_oesp = 0, tf_ebx = 0, tf_edx = 0, tf_ecx = 0,
     tf_eax = 0, tf_gs = 0, tf_fs = 0, tf_es = 0, tf_ds = 0, tf_trapno = 0, tf_err = 0, tf_eip = 0,
     tf_cs = 0, tf_eflags = 0, tf_esp = 0, tf_ss = 0\<rparr>"

definition user_tf :: trapframe where
  "user_tf = zero_tf\<lparr>
     tf_cs := push_bit 3 SEG_UCODE OR DPL_USER,
     tf_ds := push_bit 3 SEG_UDATA OR DPL_USER,
     tf_es := push_bit 3 SEG_UDATA OR DPL_USER,
     tf_ss := push_bit 3 SEG_UDATA OR DPL_USER,
     tf_eflags := FL_IF, tf_esp := PGSIZE, tf_eip := 0\<rparr>"

text \<open>
  \<open>init\<close> and \<open>init_size\<close> are the address and size of initcode; \<open>namei_root\<close> is the call of
  namei on the root path, which the file system provides.
\<close>

definition userinit ::
  "('a procst_scheme \<Rightarrow> fault + (nat option \<times> 'a procst_scheme)) \<Rightarrow> uint \<Rightarrow> uint \<Rightarrow> nat \<Rightarrow>
   'a procst_scheme \<Rightarrow> fault + 'a procst_scheme" where
  "userinit namei_root init init_size c s =
     bindE (allocproc c s) (\<lambda>(po, s).
       let s = s\<lparr>initproc := po\<rparr>
       in case po of None \<Rightarrow> Inl (Panic ''trap'')
          | Some i \<Rightarrow>
            bindE (setupkvm c s) (\<lambda>(d, s).
              let s = set_proc i (pgdir_update (\<lambda>_. d)) s
              in if d = 0 then Inl (Panic ''userinit: out of memory?'')
                 else bindE (inituvm c d init init_size s) (\<lambda>s.
                   let s = set_proc i (\<lambda>p. p\<lparr>sz := PGSIZE, tf := user_tf, pname := ''initcode''\<rparr>) s
                   in bindE (namei_root s) (\<lambda>(ip, s).
                      let s = set_proc i (cwd_update (\<lambda>_. ip)) s
                      in bindE (acquire c L_ptable s) (\<lambda>s.
                         release c L_ptable (set_proc i (pstate_update (\<lambda>_. RUNNABLE)) s))))))"

definition growproc :: "nat \<Rightarrow> int \<Rightarrow> 'a procst_scheme \<Rightarrow> fault + (int \<times> 'a procst_scheme)" where
  "growproc c n s =
     bindE (curproc c s) (\<lambda>(i, s).
       let p = ptable s ! i
       in bindE (if n > 0 then allocuvm c (pgdir p) (sz p) (sz p + of_int n) s
                 else if n < 0 then deallocuvm c (pgdir p) (sz p) (sz p + of_int n) s
                 else Inr (sz p, s)) (\<lambda>(z, s).
          if n \<noteq> 0 \<and> z = 0 then Inr (- 1, s)
          else bindE (switchuvm c (Some i) (set_proc i (sz_update (\<lambda>_. z)) s)) (\<lambda>s. Inr (0, s))))"

text \<open>
  \<open>dup i np\<close> stands for the part of fork that duplicates the open files and the current
  directory of process \<open>i\<close> into process \<open>np\<close>; the file layer provides it.
\<close>

definition fork_finish ::
  "(nat \<Rightarrow> nat \<Rightarrow> 'a procst_scheme \<Rightarrow> fault + 'a procst_scheme) \<Rightarrow> nat \<Rightarrow> nat \<Rightarrow> nat \<Rightarrow>
   'a procst_scheme \<Rightarrow> fault + (int \<times> 'a procst_scheme)" where
  "fork_finish dup c i np s =
     bindE (dup i np s) (\<lambda>s.
       let s = set_proc np (pname_update (\<lambda>_. take 15 (pname (ptable s ! i)))) s;
           pid = pid (ptable s ! np)
       in bindE (acquire c L_ptable s) (\<lambda>s.
          bindE (release c L_ptable (set_proc np (pstate_update (\<lambda>_. RUNNABLE)) s)) (\<lambda>s.
          Inr (pid, s))))"

definition fork ::
  "(nat \<Rightarrow> nat \<Rightarrow> 'a procst_scheme \<Rightarrow> fault + 'a procst_scheme) \<Rightarrow> nat \<Rightarrow>
   'a procst_scheme \<Rightarrow> fault + (int \<times> 'a procst_scheme)" where
  "fork dup c s =
     bindE (curproc c s) (\<lambda>(i, s).
     bindE (allocproc c s) (\<lambda>(po, s).
       case po of None \<Rightarrow> Inr (- 1, s)
       | Some np \<Rightarrow>
         bindE (copyuvm c (pgdir (ptable s ! i)) (sz (ptable s ! i)) s) (\<lambda>(d, s).
           let s = set_proc np (pgdir_update (\<lambda>_. d)) s
           in if d = 0 then
                bindE (kfree c (kstack (ptable s ! np)) s) (\<lambda>s.
                  Inr (- 1, set_proc np (\<lambda>p. p\<lparr>kstack := 0, pstate := UNUSED\<rparr>) s))
              else
                let s = set_proc np (\<lambda>p. p\<lparr>sz := sz (ptable s ! i), parent := Some i,
                          tf := (tf (ptable s ! i))\<lparr>tf_eax := 0\<rparr>\<rparr>) s
                in fork_finish dup c i np s)))"

subsection \<open>Entering the scheduler\<close>

text \<open>\<open>sched\<close> runs up to the call of swtch; \<open>k\<close> makes the saved context from the local \<open>intena\<close>.\<close>

definition sched :: "nat \<Rightarrow> (bool \<Rightarrow> kctx) \<Rightarrow> 'a procst_scheme \<Rightarrow> fault + 'a procst_scheme" where
  "sched c k s =
     bindE (curproc c s) (\<lambda>(i, s).
     bindE (holding c L_ptable s) (\<lambda>(h, s).
       if \<not> h then Inl (Panic ''sched ptable.lock'')
       else if ncli (cpus s c) \<noteq> 1 then Inl (Panic ''sched locks'')
       else if pstate (ptable s ! i) = RUNNING then Inl (Panic ''sched running'')
       else if eflags_if (cpus s c) then Inl (Panic ''sched interruptible'')
       else Inr (set_proc i (pcontext_update (\<lambda>_. k (intena (cpus s c)))) s)))"

definition yield :: "nat \<Rightarrow> 'a procst_scheme \<Rightarrow> fault + 'a procst_scheme" where
  "yield c s =
     bindE (acquire c L_ptable s) (\<lambda>s.
     bindE (curproc c s) (\<lambda>(i, s).
       sched c Ctx_yield (set_proc i (pstate_update (\<lambda>_. RUNNABLE)) s)))"

definition sleep :: "nat \<Rightarrow> chan \<Rightarrow> lockid option \<Rightarrow> 'a procst_scheme \<Rightarrow> fault + 'a procst_scheme" where
  "sleep c ch lk s =
     bindE (myproc c s) (\<lambda>(po, s).
       case po of None \<Rightarrow> Inl (Panic ''sleep'')
       | Some i \<Rightarrow>
         (case lk of None \<Rightarrow> Inl (Panic ''sleep without lk'')
          | Some l \<Rightarrow>
            bindE (if l \<noteq> L_ptable then bindE (acquire c L_ptable s) (release c l) else Inr s) (\<lambda>s.
              sched c (Ctx_sleep l) (set_proc i (\<lambda>p. p\<lparr>chan := ch, pstate := SLEEPING\<rparr>) s))))"

text \<open>
  What the process current on CPU \<open>c\<close> does when it is switched to: the rest of sched and of
  the operation that called it, or forkret.  The initialisation of the file system that the
  first process does in forkret is \<open>fsinit\<close>.
\<close>

definition forkret :: "('a procst_scheme \<Rightarrow> fault + 'a procst_scheme) \<Rightarrow> nat \<Rightarrow>
    'a procst_scheme \<Rightarrow> fault + 'a procst_scheme" where
  "forkret fsinit c s =
     bindE (release c L_ptable s) (\<lambda>s.
       if forkret_first s then fsinit (s\<lparr>forkret_first := False\<rparr>) else Inr s)"

definition resume :: "('a procst_scheme \<Rightarrow> fault + 'a procst_scheme) \<Rightarrow> nat \<Rightarrow>
    'a procst_scheme \<Rightarrow> fault + 'a procst_scheme" where
  "resume fsinit c s =
     (case cproc (cpus s c) of None \<Rightarrow> Inl (Panic ''trap'')
      | Some i \<Rightarrow>
        (case pcontext (ptable s ! i) of
           Ctx_forkret \<Rightarrow> forkret fsinit c s
         | Ctx_yield b \<Rightarrow> release c L_ptable (set_cpu c (intena_update (\<lambda>_. b)) s)
         | Ctx_sleep l b \<Rightarrow>
             let s = set_proc i (chan_update (\<lambda>_. Ch_null)) (set_cpu c (intena_update (\<lambda>_. b)) s)
             in if l \<noteq> L_ptable then bindE (release c L_ptable s) (acquire c l) else Inr s
         | Ctx_exit b \<Rightarrow> Inl (Panic ''zombie exit'')))"

subsection \<open>Waking and killing\<close>

definition wakeup1 :: "chan \<Rightarrow> 'a procst_scheme \<Rightarrow> 'a procst_scheme" where
  "wakeup1 ch s = s\<lparr>ptable := map (\<lambda>p. if pstate p = SLEEPING \<and> chan p = ch
     then p\<lparr>pstate := RUNNABLE\<rparr> else p) (ptable s)\<rparr>"

definition wakeup :: "nat \<Rightarrow> chan \<Rightarrow> 'a procst_scheme \<Rightarrow> fault + 'a procst_scheme" where
  "wakeup c ch s = bindE (acquire c L_ptable s) (\<lambda>s. release c L_ptable (wakeup1 ch s))"

definition kill :: "nat \<Rightarrow> int \<Rightarrow> 'a procst_scheme \<Rightarrow> fault + (int \<times> 'a procst_scheme)" where
  "kill c n s =
     bindE (acquire c L_ptable s) (\<lambda>s.
       case find_idx (\<lambda>p. pid p = n) (ptable s) of
         Some i \<Rightarrow>
           let s = set_proc i (killed_update (\<lambda>_. True)) s;
               s = (if pstate (ptable s ! i) = SLEEPING
                    then set_proc i (pstate_update (\<lambda>_. RUNNABLE)) s else s)
           in bindE (release c L_ptable s) (\<lambda>s. Inr (0, s))
       | None \<Rightarrow> bindE (release c L_ptable s) (\<lambda>s. Inr (- 1, s)))"

subsection \<open>Exit\<close>

definition chan_of :: "nat option \<Rightarrow> chan" where
  "chan_of po = (case po of None \<Rightarrow> Ch_null | Some i \<Rightarrow> Ch_proc i)"

fun reparent :: "nat \<Rightarrow> nat list \<Rightarrow> 'a procst_scheme \<Rightarrow> 'a procst_scheme" where
  "reparent i [] s = s"
| "reparent i (j # js) s =
     (if parent (ptable s ! j) = Some i then
        let s = set_proc j (parent_update (\<lambda>_. initproc s)) s
        in reparent i js (if pstate (ptable s ! j) = ZOMBIE then wakeup1 (chan_of (initproc s)) s else s)
      else reparent i js s)"

text \<open>The last part of exit, which runs with the table locked.\<close>

definition exit_locked :: "nat \<Rightarrow> nat \<Rightarrow> 'a procst_scheme \<Rightarrow> fault + 'a procst_scheme" where
  "exit_locked c i s =
     bindE (acquire c L_ptable s) (\<lambda>s.
       let s = wakeup1 (chan_of (parent (ptable s ! i))) s;
           s = reparent i [0..<length (ptable s)] s;
           s = set_proc i (\<lambda>p. p\<lparr>pstate := ZOMBIE, etime := ticks s\<rparr>) s
       in sched c Ctx_exit s)"

text \<open>
  \<open>close i\<close> stands for the part of exit that closes the open files of process \<open>i\<close> and drops its
  current directory; the file layer provides it.
\<close>

definition exit :: "(nat \<Rightarrow> 'a procst_scheme \<Rightarrow> fault + 'a procst_scheme) \<Rightarrow> nat \<Rightarrow>
    'a procst_scheme \<Rightarrow> fault + 'a procst_scheme" where
  "exit close c s =
     bindE (curproc c s) (\<lambda>(i, s).
       if Some i = initproc s then Inl (Panic ''init exiting'')
       else bindE (close i s) (\<lambda>s. exit_locked c i (set_proc i (cwd_update (\<lambda>_. None)) s)))"

subsection \<open>Waiting for a child\<close>

datatype 'r outcome = Done 'r | Asleep

definition reap :: "nat \<Rightarrow> nat \<Rightarrow> 'a procst_scheme \<Rightarrow> fault + (int \<times> 'a procst_scheme)" where
  "reap c j s =
     (let pid = pid (ptable s ! j)
      in bindE (kfree c (kstack (ptable s ! j)) s) (\<lambda>s.
         let s = set_proc j (kstack_update (\<lambda>_. 0)) s
         in bindE (freevm c (pgdir (ptable s ! j)) s) (\<lambda>s.
            Inr (pid, set_proc j (\<lambda>p. p\<lparr>pid := 0, parent := None, pname := [], killed := False,
              pstate := UNUSED, etime := ticks s\<rparr>) s))))"

text \<open>
  One turn of the loop of wait, entered with the table locked: either it returns, with the
  table unlocked, or it goes to sleep, after which the loop runs again.
\<close>

definition wait_turn :: "nat \<Rightarrow> nat \<Rightarrow> 'a procst_scheme \<Rightarrow> fault + (int outcome \<times> 'a procst_scheme)" where
  "wait_turn c i s =
     (case find_idx (\<lambda>p. parent p = Some i \<and> pstate p = ZOMBIE) (ptable s) of
        Some j \<Rightarrow>
          bindE (reap c j s) (\<lambda>(pid, s). bindE (release c L_ptable s) (\<lambda>s. Inr (Done pid, s)))
      | None \<Rightarrow>
          if (\<forall>p \<in> set (ptable s). parent p \<noteq> Some i) \<or> killed (ptable s ! i)
          then bindE (release c L_ptable s) (\<lambda>s. Inr (Done (- 1), s))
          else bindE (sleep c (Ch_proc i) (Some L_ptable) s) (\<lambda>s. Inr (Asleep, s)))"

definition wait :: "nat \<Rightarrow> 'a procst_scheme \<Rightarrow> fault + (int outcome \<times> 'a procst_scheme)" where
  "wait c s = bindE (curproc c s) (\<lambda>(i, s). bindE (acquire c L_ptable s) (wait_turn c i))"

text \<open>waitx returns the pid with the words it stores through \<open>wtime\<close> and \<open>rtime\<close>.\<close>

definition waitx_turn ::
  "nat \<Rightarrow> nat \<Rightarrow> 'a procst_scheme \<Rightarrow> fault + ((int \<times> uint \<times> uint) outcome \<times> 'a procst_scheme)" where
  "waitx_turn c i s =
     (case find_idx (\<lambda>p. parent p = Some i \<and> pstate p = ZOMBIE) (ptable s) of
        Some j \<Rightarrow>
          bindE (reap c j s) (\<lambda>(pid, s).
          bindE (release c L_ptable s) (\<lambda>s.
            let p = ptable s ! j
            in Inr (Done (pid, ticks s - ctime p - rtime p, rtime p), s)))
      | None \<Rightarrow>
          if (\<forall>p \<in> set (ptable s). parent p \<noteq> Some i) \<or> killed (ptable s ! i)
          then bindE (release c L_ptable s) (\<lambda>s. Inr (Done (- 1, - 1, - 1), s))
          else bindE (sleep c (Ch_proc i) (Some L_ptable) s) (\<lambda>s. Inr (Asleep, s)))"

definition waitx ::
  "nat \<Rightarrow> 'a procst_scheme \<Rightarrow> fault + ((int \<times> uint \<times> uint) outcome \<times> 'a procst_scheme)" where
  "waitx c s = bindE (curproc c s) (\<lambda>(i, s). bindE (acquire c L_ptable s) (waitx_turn c i))"

subsection \<open>Priorities\<close>

text \<open>The flag says whether the process gave up the CPU before it returns the old priority.\<close>

definition setpriority :: "nat \<Rightarrow> int \<Rightarrow> 'a procst_scheme \<Rightarrow> fault + (int \<times> bool \<times> 'a procst_scheme)" where
  "setpriority c pr s =
     bindE (curproc c s) (\<lambda>(i, s).
       if pr > 100 \<or> pr < 0 then Inr (- 1, False, s)
       else let old_p = priority (ptable s ! i);
                s = set_proc i (priority_update (\<lambda>_. pr)) s
            in if pr < old_p then bindE (yield c s) (\<lambda>s. Inr (old_p, True, s))
               else Inr (old_p, False, s))"

end
