(* ===== verification/Sched.thy ===== *)
theory Sched
  imports Proc
begin

text \<open>
  The scheduler loop of proc.c.  Which process the scheduler switches to next is a function of
  the process table and of the place in the code where it last called swtch; the \<open>switch\<close>
  statement has no \<open>break\<close>, so each policy falls through to the next.  On top of it stands the
  machine in which several CPUs run processes and schedulers, with its invariants.
\<close>

subsection \<open>The choice of the next process\<close>

definition strat_of :: "string \<Rightarrow> int" where
  "strat_of flag = (case flag of [] \<Rightarrow> - 1
     | f # _ \<Rightarrow> if f = CHR ''F'' then 1 else if f = CHR ''P'' then 2
               else if f = CHR ''M'' then 3 else if f = CHR ''R'' then 4 else - 1)"

definition account :: "'a procst_scheme \<Rightarrow> 'a procst_scheme" where
  "account s = s\<lparr>ptable := map (\<lambda>p.
     let p = (if pstate p = RUNNING then p\<lparr>rtime := rtime p + (ticks s - last_check p)\<rparr> else p)
     in p\<lparr>last_check := ticks s\<rparr>) (ptable s)\<rparr>"

fun fcfs_loop :: "nat \<Rightarrow> proc list \<Rightarrow> uint \<Rightarrow> nat option \<Rightarrow> nat option" where
  "fcfs_loop j [] min_ctime to_run = to_run"
| "fcfs_loop j (p # ps) min_ctime to_run =
     (if pstate p \<noteq> RUNNABLE then fcfs_loop (Suc j) ps min_ctime to_run
      else if ctime p < min_ctime then fcfs_loop (Suc j) ps (ctime p) (Some j)
      else fcfs_loop (Suc j) ps min_ctime to_run)"

fun prio_loop :: "proc list \<Rightarrow> int \<Rightarrow> int" where
  "prio_loop [] priority_chosen = priority_chosen"
| "prio_loop (p # ps) priority_chosen =
     (if pstate p \<noteq> RUNNABLE then prio_loop ps priority_chosen
      else prio_loop ps (if priority p < priority_chosen then priority p else priority_chosen))"

text \<open>A loop over the table that stops at the first entry from index \<open>j\<close> on that it switches to.\<close>

definition next_from :: "(proc \<Rightarrow> bool) \<Rightarrow> nat \<Rightarrow> proc list \<Rightarrow> nat option" where
  "next_from P j ps = map_option (\<lambda>k. j + k) (find_idx P (drop j ps))"

definition rr_next :: "nat \<Rightarrow> proc list \<Rightarrow> (nat \<times> spoint) option" where
  "rr_next j ps = map_option (\<lambda>i. (i, In_rr i)) (next_from (\<lambda>p. pstate p = RUNNABLE) j ps)"

definition prio_next :: "int \<Rightarrow> nat \<Rightarrow> proc list \<Rightarrow> (nat \<times> spoint) option" where
  "prio_next pc j ps =
     (case (if pc \<noteq> 101 then next_from (\<lambda>p. pstate p = RUNNABLE \<and> priority p = pc) j ps else None) of
        Some i \<Rightarrow> Some (i, In_prio pc i)
      | None \<Rightarrow> rr_next 0 ps)"

definition prio_start :: "proc list \<Rightarrow> (nat \<times> spoint) option" where
  "prio_start ps = prio_next (prio_loop ps 101) 0 ps"

definition fcfs_start :: "uint \<Rightarrow> proc list \<Rightarrow> (nat \<times> spoint) option" where
  "fcfs_start tk ps = (case fcfs_loop 0 ps (tk + 1000) None of
     Some i \<Rightarrow> Some (i, In_fcfs) | None \<Rightarrow> prio_start ps)"

definition switch_start :: "int \<Rightarrow> uint \<Rightarrow> proc list \<Rightarrow> (nat \<times> spoint) option" where
  "switch_start strat tk ps =
     (if strat = 1 then fcfs_start tk ps
      else if strat = 2 then prio_start ps
      else if strat = 3 then rr_next 0 ps
      else if strat = 4 then rr_next 0 ps
      else None)"

definition after_swtch :: "spoint \<Rightarrow> proc list \<Rightarrow> (nat \<times> spoint) option" where
  "after_swtch pt ps = (case pt of In_fcfs \<Rightarrow> prio_start ps
     | In_prio pc i \<Rightarrow> prio_next pc (Suc i) ps
     | In_rr i \<Rightarrow> rr_next (Suc i) ps)"

subsection \<open>The loop on a CPU\<close>

definition dispatch :: "nat \<Rightarrow> nat \<Rightarrow> spoint \<Rightarrow> 'a procst_scheme \<Rightarrow> fault + 'a procst_scheme" where
  "dispatch c i pt s =
     (let s = set_cpu c (cproc_update (\<lambda>_. Some i)) s
      in bindE (switchuvm c (Some i) s) (\<lambda>s.
         let s = set_proc i (pstate_update (\<lambda>_. RUNNING)) s
         in Inr (set_cpu c (scheduler_update (\<lambda>_. pt)) s)))"

text \<open>Either the switch statement reaches a swtch, or the round ends and the table is unlocked.\<close>

definition sched_go :: "nat \<Rightarrow> (nat \<times> spoint) option \<Rightarrow> 'a procst_scheme \<Rightarrow> fault + 'a procst_scheme" where
  "sched_go c nxt s = (case nxt of Some (i, pt) \<Rightarrow> dispatch c i pt s | None \<Rightarrow> release c L_ptable s)"

definition sched_round :: "int \<Rightarrow> nat \<Rightarrow> 'a procst_scheme \<Rightarrow> fault + 'a procst_scheme" where
  "sched_round strat c s =
     (let s = sti c s
      in bindE (acquire c L_ptable s) (\<lambda>s.
         let s = account s in sched_go c (switch_start strat (ticks s) (ptable s)) s))"

text \<open>The process has switched back to the scheduler of CPU \<open>c\<close>.\<close>

definition sched_back :: "nat \<Rightarrow> 'a procst_scheme \<Rightarrow> fault + 'a procst_scheme" where
  "sched_back c s =
     (let s = switchkvm c s;
          s = set_cpu c (cproc_update (\<lambda>_. None)) s
      in sched_go c (after_swtch (scheduler (cpus s c)) (ptable s)) s)"

subsection \<open>What each policy chooses\<close>

lemma next_from_SomeD:
  assumes "next_from P j ps = Some i"
  shows "j \<le> i \<and> i < length ps \<and> P (ps ! i) \<and> (\<forall>k. j \<le> k \<and> k < i \<longrightarrow> \<not> P (ps ! k))"
proof -
  from assms obtain k where k: "i = j + k" "find_idx P (drop j ps) = Some k"
    by (auto simp: next_from_def)
  from find_idx_SomeD[OF k(2)] have h: "k < length ps - j" "P (ps ! (j + k))"
    "\<forall>l < k. \<not> P (drop j ps ! l)" by (auto simp: less_diff_conv)
  have "\<not> P (ps ! m)" if "j \<le> m" "m < i" for m
  proof -
    have "m - j < k" using that k(1) by simp
    moreover have "drop j ps ! (m - j) = ps ! m" using that h(1) k(1) by (subst nth_drop) auto
    ultimately show ?thesis using h(3) by metis
  qed
  with h k(1) show ?thesis by auto
qed

lemma next_from_None:
  "next_from P j ps = None \<longleftrightarrow> (\<forall>k. j \<le> k \<and> k < length ps \<longrightarrow> \<not> P (ps ! k))"
proof
  assume "next_from P j ps = None"
  then have h: "\<forall>x \<in> set (drop j ps). \<not> P x" by (simp add: next_from_def find_idx_None)
  show "\<forall>k. j \<le> k \<and> k < length ps \<longrightarrow> \<not> P (ps ! k)"
  proof (intro allI impI)
    fix k assume k: "j \<le> k \<and> k < length ps"
    then have "drop j ps ! (k - j) \<in> set (drop j ps)" by (intro nth_mem) auto
    with k h show "\<not> P (ps ! k)" by auto
  qed
next
  assume "\<forall>k. j \<le> k \<and> k < length ps \<longrightarrow> \<not> P (ps ! k)"
  then show "next_from P j ps = None"
    by (auto simp: next_from_def find_idx_None in_set_conv_nth less_diff_conv)
qed

text \<open>The table indices a loop from \<open>j\<close> on switches to, in order.\<close>

definition hits :: "(proc \<Rightarrow> bool) \<Rightarrow> nat \<Rightarrow> proc list \<Rightarrow> nat list" where
  "hits P j ps = filter (\<lambda>i. P (ps ! i)) [j..<length ps]"

lemma hits_next:
  "hits P j ps = (case next_from P j ps of None \<Rightarrow> [] | Some i \<Rightarrow> i # hits P (Suc i) ps)"
proof (cases "next_from P j ps")
  case None
  from None[unfolded next_from_None] have "hits P j ps = []" by (auto simp: hits_def filter_empty_conv)
  with None show ?thesis by simp
next
  case (Some i)
  from next_from_SomeD[OF Some] have i: "j \<le> i" "i < length ps" "P (ps ! i)"
    "\<And>k. j \<le> k \<Longrightarrow> k < i \<Longrightarrow> \<not> P (ps ! k)" by auto
  have "[j..<length ps] = [j..<i] @ i # [Suc i..<length ps]"
    using upt_add_eq_append[OF i(1), of "length ps - i"] i(2) by (simp add: upt_conv_Cons)
  then have "hits P j ps = filter (\<lambda>i. P (ps ! i)) [j..<i] @ i # hits P (Suc i) ps"
    using i(3) by (simp add: hits_def)
  moreover have "filter (\<lambda>i. P (ps ! i)) [j..<i] = []" using i(4) by (auto simp: filter_empty_conv)
  ultimately show ?thesis using Some by simp
qed

definition runnable :: "proc \<Rightarrow> bool" where
  "runnable p \<longleftrightarrow> pstate p = RUNNABLE"

lemma prio_loop_le: "prio_loop ps m \<le> m"
proof (induction ps arbitrary: m)
  case (Cons p ps)
  from Cons.IH[of "priority p"] Cons.IH[of m] show ?case by auto
qed simp

lemma prio_loop_min: "p \<in> set ps \<Longrightarrow> runnable p \<Longrightarrow> prio_loop ps m \<le> priority p"
proof (induction ps arbitrary: m)
  case (Cons q ps)
  from Cons.prems(1) consider "p = q" | "p \<in> set ps" by auto
  then show ?case
  proof cases
    case 1
    with Cons.prems(2) have "prio_loop (q # ps) m = prio_loop ps (if priority p < m then priority p else m)"
      by (simp add: runnable_def)
    also have "\<dots> \<le> (if priority p < m then priority p else m)" by (rule prio_loop_le)
    finally show ?thesis by (simp split: if_splits)
  next
    case 2
    from Cons.IH[OF 2 Cons.prems(2)] show ?thesis by simp
  qed
qed simp

lemma prio_loop_attained: "prio_loop ps m = m \<or> (\<exists>p \<in> set ps. runnable p \<and> priority p = prio_loop ps m)"
proof (induction ps arbitrary: m)
  case (Cons p ps)
  from Cons.IH[of "priority p"] Cons.IH[of m] show ?case by (auto simp: runnable_def)
qed simp

text \<open>The FCFS scan finds the first process of least creation time below its initial bound.\<close>

definition fcfs_best :: "proc list \<Rightarrow> uint \<Rightarrow> nat \<Rightarrow> bool" where
  "fcfs_best ps m i \<longleftrightarrow> i < length ps \<and> runnable (ps ! i) \<and> ctime (ps ! i) < m \<and>
     (\<forall>k < length ps. runnable (ps ! k) \<longrightarrow>
        ctime (ps ! i) \<le> ctime (ps ! k) \<and> (k < i \<longrightarrow> ctime (ps ! i) < ctime (ps ! k)))"

definition fcfs_empty :: "proc list \<Rightarrow> uint \<Rightarrow> bool" where
  "fcfs_empty ps m \<longleftrightarrow> (\<forall>k < length ps. runnable (ps ! k) \<longrightarrow> m \<le> ctime (ps ! k))"

lemma fcfs_best_Cons:
  "fcfs_best (p # ps) m 0 \<longleftrightarrow> runnable p \<and> ctime p < m \<and> fcfs_empty ps (ctime p)"
  "fcfs_best (p # ps) m (Suc i) \<longleftrightarrow> fcfs_best ps m i \<and> (runnable p \<longrightarrow> ctime (ps ! i) < ctime p)"
  by (auto simp: fcfs_best_def fcfs_empty_def All_less_Suc2)

lemma fcfs_empty_Cons:
  "fcfs_empty (p # ps) m \<longleftrightarrow> (runnable p \<longrightarrow> m \<le> ctime p) \<and> fcfs_empty ps m"
  by (auto simp: fcfs_empty_def All_less_Suc2)

lemma fcfs_best_mono: "fcfs_best ps m i \<Longrightarrow> m \<le> m' \<Longrightarrow> fcfs_best ps m' i"
  by (auto simp: fcfs_best_def)

lemma fcfs_loop_spec:
  "fcfs_empty ps m \<and> fcfs_loop j ps m r = r \<or> (\<exists>i. fcfs_best ps m i \<and> fcfs_loop j ps m r = Some (j + i))"
proof (induction ps arbitrary: j m r)
  case (Cons p ps)
  show ?case
  proof (cases "runnable p \<and> ctime p < m")
    case True
    then have eq: "fcfs_loop j (p # ps) m r = fcfs_loop (Suc j) ps (ctime p) (Some j)"
      by (simp add: runnable_def)
    from Cons.IH[of "ctime p" "Suc j" "Some j"] show ?thesis
    proof (elim disjE exE conjE)
      assume "fcfs_empty ps (ctime p)" "fcfs_loop (Suc j) ps (ctime p) (Some j) = Some j"
      with True eq show ?thesis using fcfs_best_Cons(1)[of p ps m] by (intro disjI2 exI[of _ 0]) simp
    next
      fix i assume i: "fcfs_best ps (ctime p) i" "fcfs_loop (Suc j) ps (ctime p) (Some j) = Some (Suc j + i)"
      then have "fcfs_best (p # ps) m (Suc i)"
        using True by (auto simp: fcfs_best_Cons(2) intro: fcfs_best_mono) (simp add: fcfs_best_def)
      with i eq show ?thesis by (intro disjI2 exI[of _ "Suc i"]) simp
    qed
  next
    case False
    then have eq: "fcfs_loop j (p # ps) m r = fcfs_loop (Suc j) ps m r" by (simp add: runnable_def)
    from Cons.IH[of m "Suc j" r] show ?thesis
    proof (elim disjE exE conjE)
      assume "fcfs_empty ps m" "fcfs_loop (Suc j) ps m r = r"
      with False eq show ?thesis by (auto simp: fcfs_empty_Cons)
    next
      fix i assume i: "fcfs_best ps m i" "fcfs_loop (Suc j) ps m r = Some (Suc j + i)"
      then have "fcfs_best (p # ps) m (Suc i)"
        using False by (auto simp: fcfs_best_Cons(2)) (auto simp: fcfs_best_def)
      with i eq show ?thesis by (intro disjI2 exI[of _ "Suc i"]) simp
    qed
  qed
qed (simp add: fcfs_empty_def)

subsection \<open>A whole round\<close>

text \<open>
  The sequence of processes one round of the loop switches to when every process that runs
  gives the CPU back at once (it yields) and nothing else happens to the table.
\<close>

definition spoint_rank :: "nat \<Rightarrow> spoint \<Rightarrow> nat" where
  "spoint_rank n pt = (case pt of In_fcfs \<Rightarrow> 2 * n + 2 | In_prio pc i \<Rightarrow> n + 1 + (n - i) | In_rr i \<Rightarrow> n - i)"

lemma rr_next_rank: "rr_next j ps = Some (i, pt) \<Longrightarrow> i < length ps \<and> pt = In_rr i \<and> j \<le> i"
  using next_from_SomeD[of "\<lambda>p. pstate p = RUNNABLE" j ps] by (auto simp: rr_next_def)

lemma prio_next_rank:
  "prio_next pc j ps = Some (i, pt) \<Longrightarrow> i < length ps \<and> (pt = In_prio pc i \<and> j \<le> i \<or> pt = In_rr i)"
  using next_from_SomeD[of "\<lambda>p. pstate p = RUNNABLE \<and> priority p = pc" j ps] rr_next_rank[of 0 ps i pt]
  by (auto simp: prio_next_def split: option.splits if_splits)

lemma after_swtch_rank:
  assumes "after_swtch pt ps = Some (i, pt')"
  shows "i < length ps" and "spoint_rank (length ps) pt' < spoint_rank (length ps) pt"
  using assms rr_next_rank[of _ ps i pt'] prio_next_rank[of _ _ ps i pt']
  by (auto simp: after_swtch_def prio_start_def spoint_rank_def split: spoint.splits; fastforce)+

function trace_from :: "(nat \<times> spoint) option \<Rightarrow> proc list \<Rightarrow> nat list" where
  "trace_from None ps = []"
| "trace_from (Some (i, pt)) ps = i # trace_from (after_swtch pt ps) ps"
  by pat_completeness auto
termination
  by (relation "measure (\<lambda>(o', ps). case o' of None \<Rightarrow> 0 | Some (i, pt) \<Rightarrow> Suc (spoint_rank (length ps) pt))")
    (auto split: option.splits dest: after_swtch_rank)

definition round_trace :: "int \<Rightarrow> uint \<Rightarrow> proc list \<Rightarrow> nat list" where
  "round_trace strat tk ps = trace_from (switch_start strat tk ps) ps"

lemma trace_rr: "trace_from (rr_next j ps) ps = hits runnable j ps"
proof (induction "length ps - j" arbitrary: j rule: less_induct)
  case less
  have r: "(\<lambda>p. pstate p = RUNNABLE) = runnable" by (auto simp: runnable_def)
  show ?case
  proof (cases "next_from runnable j ps")
    case None
    then show ?thesis by (subst hits_next) (simp add: rr_next_def r)
  next
    case (Some i)
    have "j \<le> i" "i < length ps" using next_from_SomeD[OF Some] by auto
    then have "trace_from (rr_next (Suc i) ps) ps = hits runnable (Suc i) ps" by (intro less) auto
    with Some show ?thesis by (subst hits_next) (simp add: rr_next_def r after_swtch_def)
  qed
qed

lemma trace_prio:
  assumes "pc \<noteq> 101"
  shows "trace_from (prio_next pc j ps) ps =
    hits (\<lambda>p. runnable p \<and> priority p = pc) j ps @ hits runnable 0 ps"
proof (induction "length ps - j" arbitrary: j rule: less_induct)
  case less
  let ?P = "\<lambda>p. runnable p \<and> priority p = pc"
  have n: "prio_next pc j ps = (case next_from ?P j ps of Some i \<Rightarrow> Some (i, In_prio pc i) | None \<Rightarrow> rr_next 0 ps)"
    using assms by (simp add: prio_next_def runnable_def)
  show ?case
  proof (cases "next_from ?P j ps")
    case None
    then show ?thesis by (subst hits_next) (simp add: n trace_rr)
  next
    case (Some i)
    have "j \<le> i" "i < length ps" using next_from_SomeD[OF Some] by auto
    then have "trace_from (prio_next pc (Suc i) ps) ps = hits ?P (Suc i) ps @ hits runnable 0 ps"
      by (intro less) auto
    with Some show ?thesis by (subst hits_next) (simp add: n after_swtch_def)
  qed
qed

text \<open>The processes the priority case switches to: all runnable ones of the least priority value.\<close>

definition prio_hits :: "proc list \<Rightarrow> nat list" where
  "prio_hits ps = hits (\<lambda>p. runnable p \<and> (\<forall>q \<in> set ps. runnable q \<longrightarrow> priority p \<le> priority q)) 0 ps"

lemma prio_loop_eq_iff:
  assumes "\<forall>q \<in> set ps. priority q \<le> 100" "p \<in> set ps" "runnable p"
  shows "priority p = prio_loop ps 101 \<longleftrightarrow> (\<forall>q \<in> set ps. runnable q \<longrightarrow> priority p \<le> priority q)"
proof -
  have le: "prio_loop ps 101 \<le> priority q" if "q \<in> set ps" "runnable q" for q
    using prio_loop_min that by auto
  then have "prio_loop ps 101 \<noteq> 101" using assms by force
  then obtain q where q: "q \<in> set ps" "runnable q" "priority q = prio_loop ps 101"
    using prio_loop_attained[of ps 101] by auto
  show ?thesis
  proof
    assume "\<forall>q \<in> set ps. runnable q \<longrightarrow> priority p \<le> priority q"
    with q le[OF assms(2,3)] show "priority p = prio_loop ps 101" by force
  qed (use le in auto)
qed

lemma trace_prio_start:
  assumes "\<forall>q \<in> set ps. priority q \<le> 100"
  shows "trace_from (prio_start ps) ps = prio_hits ps @ hits runnable 0 ps"
proof (cases "\<exists>p \<in> set ps. runnable p")
  case True
  then obtain p where p: "p \<in> set ps" "runnable p" by blast
  from prio_loop_min[OF this, of 101] assms p(1) have "prio_loop ps 101 \<noteq> 101" by force
  then have "trace_from (prio_start ps) ps =
      hits (\<lambda>p. runnable p \<and> priority p = prio_loop ps 101) 0 ps @ hits runnable 0 ps"
    by (simp add: prio_start_def trace_prio)
  moreover have "hits (\<lambda>p. runnable p \<and> priority p = prio_loop ps 101) 0 ps = prio_hits ps"
    unfolding hits_def prio_hits_def
    by (intro filter_cong) (auto simp: prio_loop_eq_iff[OF assms nth_mem])
  ultimately show ?thesis by simp
next
  case False
  then have n: "next_from P 0 ps = None" if "\<And>p. P p \<Longrightarrow> runnable p" for P
    using that by (metis next_from_SomeD not_None_eq nth_mem)
  have "next_from (\<lambda>p. pstate p = RUNNABLE \<and> priority p = prio_loop ps 101) 0 ps = None"
    by (rule n) (simp add: runnable_def)
  then have "trace_from (prio_start ps) ps = trace_from (rr_next 0 ps) ps"
    by (simp add: prio_start_def prio_next_def)
  moreover have "prio_hits ps = []"
    using False by (auto simp: prio_hits_def hits_def filter_empty_conv)
  ultimately show ?thesis by (simp add: trace_rr)
qed

subsection \<open>Properties of the choice\<close>


definition demo_proc :: proc where
  "demo_proc = \<lparr>sz = 4096, pgdir = 0x80200000, kstack = 0x80201000, pstate = RUNNABLE, pid = 1, parent = None,
     tf = zero_tf, pcontext = Ctx_forkret, chan = Ch_null, killed = False, ofile = replicate 16 None,
     cwd = Some 0, pname = ''init'', ctime = 0, etime = 0, rtime = 0, last_check = 0, priority = 60\<rparr>"

definition demo_table :: "proc list" where
  "demo_table = [demo_proc\<lparr>pstate := SLEEPING\<rparr>, demo_proc\<lparr>pid := 2, ctime := 7, priority := 80\<rparr>,
     demo_proc\<lparr>pid := 3, ctime := 9, priority := 20\<rparr>, demo_proc\<lparr>pid := 4, ctime := 8, priority := 90\<rparr>]"


text \<open>C9: The first process a round of the FCFS policy switches to is a runnable process of least
creation time, the first such in the table, provided some runnable process was created less than 1000
ticks after now in unsigned arithmetic.  If no runnable process is below that bound the policy falls
back to the priority scan.\<close>

theorem fcfs_choice:
  "case switch_start 1 tk ps of
     Some (i, In_fcfs) \<Rightarrow> fcfs_best ps (tk + 1000) i
   | r \<Rightarrow> fcfs_empty ps (tk + 1000) \<and> r = prio_start ps"
proof -
  have "prio_start ps \<noteq> Some (i, In_fcfs)" for i
    using prio_next_rank[of "prio_loop ps 101" 0 ps i In_fcfs] by (auto simp: prio_start_def)
  then show ?thesis
    using fcfs_loop_spec[of ps "tk + 1000" 0 None]
    by (auto simp: switch_start_def fcfs_start_def split: option.splits spoint.splits)
qed

end
