(* ===== verification/Tabinv.thy ===== *)
theory Tabinv
  imports Proc
begin

text \<open>
  The invariants of the process table: which processes the CPUs run, what a used slot holds,
  who is whose parent, and that no process sleeps in wait over a dead child.  Each is shown
  to be kept by the table updates that the operations are made of.
\<close>

subsection \<open>The invariants\<close>

definition live :: "proc \<Rightarrow> bool" where
  "live p \<longleftrightarrow> pstate p = SLEEPING \<or> pstate p = RUNNABLE \<or> pstate p = RUNNING"

text \<open>\<open>cp c\<close> is the process CPU \<open>c\<close> runs; a process is running if and only if one CPU runs it.\<close>

definition run_inv :: "nat \<Rightarrow> (nat \<Rightarrow> nat option) \<Rightarrow> proc list \<Rightarrow> bool" where
  "run_inv N cp ps \<longleftrightarrow>
     (\<forall>c d i. cp c = Some i \<and> cp d = Some i \<longrightarrow> c = d) \<and>
     (\<forall>c i. cp c = Some i \<longrightarrow> c < N \<and> i < length ps \<and> pstate (ps ! i) = RUNNING) \<and>
     (\<forall>i < length ps. pstate (ps ! i) = RUNNING \<longrightarrow> (\<exists>c. cp c = Some i))"

definition slot_ok :: "int \<Rightarrow> proc \<Rightarrow> bool" where
  "slot_ok np p \<longleftrightarrow> pstate p \<noteq> EMBRYO \<and> 0 \<le> priority p \<and> priority p \<le> 100 \<and>
     (pstate p \<noteq> UNUSED \<longrightarrow> kstack p \<noteq> 0 \<and> pgdir p \<noteq> 0 \<and> 0 < pid p \<and> pid p < np) \<and>
     (pstate p = RUNNABLE \<or> pstate p = SLEEPING \<longrightarrow> (\<forall>b. pcontext p \<noteq> Ctx_exit b))"

definition slot_inv :: "int \<Rightarrow> proc list \<Rightarrow> bool" where
  "slot_inv np ps \<longleftrightarrow> 0 < np \<and> (\<forall>i < length ps. slot_ok np (ps ! i)) \<and>
     (\<forall>i < length ps. \<forall>j < length ps. i \<noteq> j \<longrightarrow> pstate (ps ! i) \<noteq> UNUSED \<longrightarrow> pstate (ps ! j) \<noteq> UNUSED \<longrightarrow>
        pid (ps ! i) \<noteq> pid (ps ! j))"

definition fam_inv :: "nat option \<Rightarrow> proc list \<Rightarrow> bool" where
  "fam_inv ip ps \<longleftrightarrow> (\<exists>q < length ps. ip = Some q \<and> live (ps ! q) \<and> parent (ps ! q) = None) \<and>
     (\<forall>i < length ps. parent (ps ! i) \<noteq> Some i) \<and>
     (\<forall>i < length ps. pstate (ps ! i) = UNUSED \<longrightarrow> parent (ps ! i) = None) \<and>
     (\<forall>i < length ps. pstate (ps ! i) \<noteq> UNUSED \<longrightarrow> ip \<noteq> Some i \<longrightarrow>
        (\<exists>j < length ps. parent (ps ! i) = Some j \<and> live (ps ! j)))"

definition waiting :: "proc list \<Rightarrow> nat \<Rightarrow> bool" where
  "waiting ps i \<longleftrightarrow> pstate (ps ! i) = SLEEPING \<and> chan (ps ! i) = Ch_proc i"

definition wait_inv :: "proc list \<Rightarrow> bool" where
  "wait_inv ps \<longleftrightarrow> (\<forall>i < length ps. waiting ps i \<longrightarrow>
     (\<forall>j < length ps. parent (ps ! j) = Some i \<longrightarrow> pstate (ps ! j) \<noteq> ZOMBIE))"

definition tab_inv :: "nat \<Rightarrow> (nat \<Rightarrow> nat option) \<Rightarrow> int \<Rightarrow> nat option \<Rightarrow> proc list \<Rightarrow> bool" where
  "tab_inv N cp np ip ps \<longleftrightarrow> length ps = NPROC \<and> run_inv N cp ps \<and> slot_inv np ps \<and> fam_inv ip ps \<and> wait_inv ps"

lemma live_iff: "slot_ok np p \<Longrightarrow> live p \<longleftrightarrow> pstate p \<noteq> UNUSED \<and> pstate p \<noteq> ZOMBIE"
  by (cases "pstate p") (auto simp: slot_ok_def live_def)

subsection \<open>Updates of one slot\<close>

lemma nth_upd: "xs[i := x] ! j = (if i = j \<and> j < length xs then x else xs ! j)"
  by (cases "i < length xs") (auto simp: nth_list_update list_update_beyond)

lemma run_inv_stop:
  "run_inv N cp ps \<Longrightarrow> cp c = Some i \<Longrightarrow> pstate q \<noteq> RUNNING \<Longrightarrow> run_inv N (cp(c := None)) (ps[i := q])"
  unfolding run_inv_def by (auto simp: nth_upd split: if_splits) (metis option.inject)

lemma run_inv_start:
  "run_inv N cp ps \<Longrightarrow> cp c = None \<Longrightarrow> c < N \<Longrightarrow> i < length ps \<Longrightarrow> pstate (ps ! i) \<noteq> RUNNING \<Longrightarrow>
   pstate q = RUNNING \<Longrightarrow> run_inv N (cp(c := Some i)) (ps[i := q])"
  unfolding run_inv_def by (auto simp: nth_upd split: if_splits) (metis option.distinct(1))

lemma run_inv_cong:
  assumes "run_inv N cp ps" "length ps' = length ps"
    and "\<And>i. i < length ps \<Longrightarrow> pstate (ps' ! i) = RUNNING \<longleftrightarrow> pstate (ps ! i) = RUNNING"
  shows "run_inv N cp ps'"
  using assms unfolding run_inv_def by metis

lemma slot_inv_upd:
  assumes "slot_inv np ps" "slot_ok np q"
    and "pstate q \<noteq> UNUSED \<Longrightarrow> pid q = pid (ps ! i) \<and> pstate (ps ! i) \<noteq> UNUSED"
  shows "slot_inv np (ps[i := q])"
  using assms unfolding slot_inv_def by (auto simp: nth_upd)

lemma slot_ok_Suc: "slot_ok np p \<Longrightarrow> slot_ok (np + 1) p"
  by (auto simp: slot_ok_def)

lemma slot_inv_new:
  assumes "slot_inv np ps" "slot_ok (np + 1) q" "pstate q \<noteq> UNUSED \<Longrightarrow> pid q = np"
  shows "slot_inv (np + 1) (ps[i := q])"
proof -
  have lt: "pid (ps ! j) \<noteq> np" if "j < length ps" "pstate (ps ! j) \<noteq> UNUSED" for j
    using assms(1) that by (auto simp: slot_inv_def slot_ok_def)
  from assms show ?thesis
    unfolding slot_inv_def using lt by (auto simp: nth_upd slot_ok_Suc)
qed

lemma slot_inv_cong:
  assumes "slot_inv np ps" "length ps' = length ps"
    and "\<And>i. i < length ps \<Longrightarrow> slot_ok np (ps' ! i) \<and> pid (ps' ! i) = pid (ps ! i) \<and>
      (pstate (ps' ! i) = UNUSED \<longleftrightarrow> pstate (ps ! i) = UNUSED)"
  shows "slot_inv np ps'"
  using assms unfolding slot_inv_def by auto

lemma fam_inv_cong:
  assumes "fam_inv ip ps" "length ps' = length ps"
    and "\<And>i. i < length ps \<Longrightarrow> parent (ps' ! i) = parent (ps ! i) \<and> live (ps' ! i) = live (ps ! i) \<and>
      (pstate (ps' ! i) = UNUSED \<longleftrightarrow> pstate (ps ! i) = UNUSED)"
  shows "fam_inv ip ps'"
  using assms unfolding fam_inv_def by auto

lemma fam_invI:
  assumes "\<exists>q < length ps. ip = Some q \<and> live (ps ! q) \<and> parent (ps ! q) = None"
    and "\<And>i. i < length ps \<Longrightarrow> parent (ps ! i) \<noteq> Some i"
    and "\<And>i. i < length ps \<Longrightarrow> pstate (ps ! i) = UNUSED \<Longrightarrow> parent (ps ! i) = None"
    and "\<And>i. i < length ps \<Longrightarrow> pstate (ps ! i) \<noteq> UNUSED \<Longrightarrow> ip \<noteq> Some i \<Longrightarrow>
      \<exists>j < length ps. parent (ps ! i) = Some j \<and> live (ps ! j)"
  shows "fam_inv ip ps"
  using assms by (simp add: fam_inv_def)

lemma fam_inv_new:
  assumes "fam_inv ip ps" "i < length ps" "pstate (ps ! i) = UNUSED" "pstate q = RUNNABLE"
    and "parent q = Some j" "j < length ps" "live (ps ! j)"
  shows "fam_inv ip (ps[i := q])"
proof -
  have "j \<noteq> i" "ip \<noteq> Some i" using assms by (auto simp: live_def fam_inv_def)
  moreover have lv: "live (ps[i := q] ! k)" if "live (ps ! k)" "k < length ps" for k
    using that assms(4) by (auto simp: nth_upd live_def)
  moreover have "\<exists>m < length ps. parent (ps[i := q] ! k) = Some m \<and> live (ps[i := q] ! m)"
    if "k < length ps" "pstate (ps[i := q] ! k) \<noteq> UNUSED" "ip \<noteq> Some k" for k
  proof (cases "k = i")
    case True
    with assms lv show ?thesis by auto
  next
    case False
    then have e: "ps[i := q] ! k = ps ! k" by simp
    with that assms(1) obtain m where "m < length ps" "parent (ps ! k) = Some m" "live (ps ! m)"
      by (auto simp: fam_inv_def)
    with e lv show ?thesis by auto
  qed
  moreover obtain r where r: "r < length ps" "ip = Some r" "live (ps ! r)" "parent (ps ! r) = None"
    using assms(1) by (auto simp: fam_inv_def)
  moreover have "r \<noteq> i" using r(3) assms(3) by (auto simp: live_def)
  with r have "\<exists>r < length ps. ip = Some r \<and> live (ps[i := q] ! r) \<and> parent (ps[i := q] ! r) = None" by auto
  moreover have "parent (ps[i := q] ! k) \<noteq> Some k" if "k < length ps" for k
    using assms(1,5) that \<open>j \<noteq> i\<close> by (auto simp: fam_inv_def nth_upd)
  moreover have "parent (ps[i := q] ! k) = None" if "k < length ps" "pstate (ps[i := q] ! k) = UNUSED" for k
    using assms(1,4) that by (auto simp: fam_inv_def nth_upd split: if_splits)
  ultimately show ?thesis by (intro fam_invI) auto
qed

lemma fam_inv_reap:
  assumes "fam_inv ip ps" "i < length ps" "pstate (ps ! i) = ZOMBIE \<or> pstate (ps ! i) = UNUSED"
    and "pstate q = UNUSED" "parent q = None"
  shows "fam_inv ip (ps[i := q])"
proof -
  have "live (ps[i := q] ! k)" if "live (ps ! k)" for k
    using that assms(2,3) by (cases "k = i") (auto simp: live_def)
  note lv = this
  have k: "k \<noteq> i" if "pstate (ps[i := q] ! k) \<noteq> UNUSED" for k using that assms(2,4) by (auto simp: nth_upd)
  have "\<exists>j < length ps. parent (ps[i := q] ! k) = Some j \<and> live (ps[i := q] ! j)"
    if "k < length ps" "pstate (ps[i := q] ! k) \<noteq> UNUSED" "ip \<noteq> Some k" for k
  proof -
    from k[OF that(2)] have e: "ps[i := q] ! k = ps ! k" by (simp add: nth_upd)
    with that assms(1) obtain j where "j < length ps" "parent (ps ! k) = Some j" "live (ps ! j)"
      by (auto simp: fam_inv_def)
    with e lv show ?thesis by auto
  qed
  moreover obtain r where r: "r < length ps" "ip = Some r" "live (ps ! r)" "parent (ps ! r) = None"
    using assms(1) by (auto simp: fam_inv_def)
  then have "\<exists>r < length ps. ip = Some r \<and> live (ps[i := q] ! r) \<and> parent (ps[i := q] ! r) = None"
    using lv[OF r(3)] assms(5) by (intro exI[of _ r]) (auto simp: nth_upd)
  moreover have "\<forall>k < length ps. parent (ps[i := q] ! k) \<noteq> Some k"
    using assms(1,5) by (auto simp: fam_inv_def nth_upd)
  moreover have "parent (ps[i := q] ! k) = None" if "k < length ps" "pstate (ps[i := q] ! k) = UNUSED" for k
    using that assms(1,5) by (auto simp: fam_inv_def nth_upd split: if_splits)
  ultimately show ?thesis by (intro fam_invI) auto
qed

lemma wait_inv_upd:
  assumes "wait_inv ps" "i < length ps" "pstate q = ZOMBIE \<Longrightarrow> pstate (ps ! i) = ZOMBIE \<and> parent q = parent (ps ! i)"
    and "pstate q \<noteq> SLEEPING \<or> chan q \<noteq> Ch_proc i \<or> waiting ps i"
  shows "wait_inv (ps[i := q])"
  using assms unfolding wait_inv_def waiting_def by (auto simp: nth_upd)

subsection \<open>Waking\<close>

definition wake1 :: "chan \<Rightarrow> proc \<Rightarrow> proc" where
  "wake1 ch p = (if pstate p = SLEEPING \<and> chan p = ch then p\<lparr>pstate := RUNNABLE\<rparr> else p)"

lemma wakeup1_ptable: "ptable (wakeup1 ch s) = map (wake1 ch) (ptable s)"
  by (simp add: wakeup1_def wake1_def)

lemma wake1_sel [simp]:
  "parent (wake1 ch p) = parent p" "pid (wake1 ch p) = pid p" "kstack (wake1 ch p) = kstack p"
  "pgdir (wake1 ch p) = pgdir p" "priority (wake1 ch p) = priority p" "pcontext (wake1 ch p) = pcontext p"
  "chan (wake1 ch p) = chan p" "pstate (wake1 ch p) = RUNNING \<longleftrightarrow> pstate p = RUNNING"
  "pstate (wake1 ch p) = UNUSED \<longleftrightarrow> pstate p = UNUSED" "pstate (wake1 ch p) = ZOMBIE \<longleftrightarrow> pstate p = ZOMBIE"
  "pstate (wake1 ch p) = SLEEPING \<longleftrightarrow> pstate p = SLEEPING \<and> chan p \<noteq> ch"
  "live (wake1 ch p) \<longleftrightarrow> live p" "slot_ok np (wake1 ch p) \<longleftrightarrow> slot_ok np p"
  by (auto simp: wake1_def live_def slot_ok_def)

lemma tab_inv_wake: "tab_inv N cp np ip ps \<Longrightarrow> tab_inv N cp np ip (map (wake1 ch) ps)"
  unfolding tab_inv_def
  by (auto intro: run_inv_cong slot_inv_cong fam_inv_cong simp: slot_inv_def)
    (auto simp: wait_inv_def waiting_def)

subsection \<open>Exit\<close>

definition adopt :: "nat \<Rightarrow> nat option \<Rightarrow> proc \<Rightarrow> proc" where
  "adopt i ip p = (if parent p = Some i then p\<lparr>parent := ip\<rparr> else p)"

lemma adopt_sel [simp]:
  "pid (adopt i ip p) = pid p" "kstack (adopt i ip p) = kstack p" "pgdir (adopt i ip p) = pgdir p"
  "priority (adopt i ip p) = priority p" "pcontext (adopt i ip p) = pcontext p" "chan (adopt i ip p) = chan p"
  "pstate (adopt i ip p) = pstate p" "live (adopt i ip p) \<longleftrightarrow> live p" "slot_ok np (adopt i ip p) \<longleftrightarrow> slot_ok np p"
  "parent (adopt i ip p) = (if parent p = Some i then ip else parent p)"
  by (auto simp: adopt_def live_def slot_ok_def)

definition dead_child :: "nat \<Rightarrow> proc list \<Rightarrow> bool" where
  "dead_child i ps \<longleftrightarrow> (\<exists>j < length ps. parent (ps ! j) = Some i \<and> pstate (ps ! j) = ZOMBIE)"

text \<open>What exit does to the other slots when process \<open>i\<close> leaves.\<close>

definition bequeath :: "nat \<Rightarrow> nat option \<Rightarrow> proc list \<Rightarrow> proc list" where
  "bequeath i ip ps =
     (let ps = map (wake1 (chan_of (parent (ps ! i)))) ps;
          ps' = map (adopt i ip) ps
      in if dead_child i ps then map (wake1 (chan_of ip)) ps' else ps')"

lemma bequeath_nth:
  assumes "k < length ps"
  shows "parent (bequeath i ip ps ! k) = (if parent (ps ! k) = Some i then ip else parent (ps ! k))"
    and "pstate (bequeath i ip ps ! k) = RUNNING \<longleftrightarrow> pstate (ps ! k) = RUNNING"
    and "pstate (bequeath i ip ps ! k) = UNUSED \<longleftrightarrow> pstate (ps ! k) = UNUSED"
    and "pstate (bequeath i ip ps ! k) = ZOMBIE \<longleftrightarrow> pstate (ps ! k) = ZOMBIE"
    and "pstate (bequeath i ip ps ! k) = SLEEPING \<longleftrightarrow> pstate (ps ! k) = SLEEPING \<and>
      chan (ps ! k) \<noteq> chan_of (parent (ps ! i)) \<and> (dead_child i ps \<longrightarrow> chan (ps ! k) \<noteq> chan_of ip)"
    and "pid (bequeath i ip ps ! k) = pid (ps ! k)" "chan (bequeath i ip ps ! k) = chan (ps ! k)"
    and "live (bequeath i ip ps ! k) \<longleftrightarrow> live (ps ! k)" "slot_ok np (bequeath i ip ps ! k) \<longleftrightarrow> slot_ok np (ps ! k)"
proof -
  have d: "dead_child i (map (wake1 ch) ps) \<longleftrightarrow> dead_child i ps" for ch by (auto simp: dead_child_def)
  show "parent (bequeath i ip ps ! k) = (if parent (ps ! k) = Some i then ip else parent (ps ! k))"
    "pstate (bequeath i ip ps ! k) = RUNNING \<longleftrightarrow> pstate (ps ! k) = RUNNING"
    "pstate (bequeath i ip ps ! k) = UNUSED \<longleftrightarrow> pstate (ps ! k) = UNUSED"
    "pstate (bequeath i ip ps ! k) = ZOMBIE \<longleftrightarrow> pstate (ps ! k) = ZOMBIE"
    "pstate (bequeath i ip ps ! k) = SLEEPING \<longleftrightarrow> pstate (ps ! k) = SLEEPING \<and>
      chan (ps ! k) \<noteq> chan_of (parent (ps ! i)) \<and> (dead_child i ps \<longrightarrow> chan (ps ! k) \<noteq> chan_of ip)"
    "pid (bequeath i ip ps ! k) = pid (ps ! k)" "chan (bequeath i ip ps ! k) = chan (ps ! k)"
    "live (bequeath i ip ps ! k) \<longleftrightarrow> live (ps ! k)" "slot_ok np (bequeath i ip ps ! k) \<longleftrightarrow> slot_ok np (ps ! k)"
    using assms by (auto simp: bequeath_def Let_def d)
qed

lemma bequeath_length [simp]: "length (bequeath i ip ps) = length ps"
  by (simp add: bequeath_def Let_def)

lemma tab_inv_exit:
  assumes inv: "tab_inv N cp np ip ps" and c: "cp c = Some i" and ini: "ip \<noteq> Some i"
    and q: "pstate q = ZOMBIE" "parent q = parent (bequeath i ip ps ! i)" "slot_ok np q" "pid q = pid (ps ! i)"
  shows "tab_inv N (cp(c := None)) np ip ((bequeath i ip ps)[i := q])"
proof -
  let ?b = "bequeath i ip ps" and ?e = "(bequeath i ip ps)[i := q]"
  have R: "run_inv N cp ps" and S: "slot_inv np ps" and F: "fam_inv ip ps" and W: "wait_inv ps"
    and L: "length ps = NPROC" using inv by (auto simp: tab_inv_def)
  have i: "i < length ps" "pstate (ps ! i) = RUNNING" using R c by (auto simp: run_inv_def)
  obtain r where r: "r < length ps" "ip = Some r" "live (ps ! r)" "parent (ps ! r) = None" "r \<noteq> i"
    using F ini by (auto simp: fam_inv_def)
  have lv: "live (?e ! k)" if "live (ps ! k)" "k \<noteq> i" "k < length ps" for k
    using that by (simp add: bequeath_nth)
  have par: "parent (?e ! k) = (if parent (ps ! k) = Some i then ip else parent (ps ! k))" if "k < length ps" for k
    using that q(2) by (auto simp: nth_upd bequeath_nth)
  have un: "pstate (?e ! k) = UNUSED \<longleftrightarrow> pstate (ps ! k) = UNUSED" if "k < length ps" for k
    using that q(1) i by (auto simp: nth_upd bequeath_nth)
  have "run_inv N cp ?b" by (rule run_inv_cong[OF R]) (simp_all add: bequeath_nth)
  then have R': "run_inv N (cp(c := None)) ?e" using c q(1) by (intro run_inv_stop) simp_all
  have "slot_inv np ?b" by (rule slot_inv_cong[OF S]) (use S in \<open>auto simp: bequeath_nth slot_inv_def\<close>)
  then have S': "slot_inv np ?e" using q i by (intro slot_inv_upd) (simp_all add: bequeath_nth)
  have F': "fam_inv ip ?e"
  proof (rule fam_invI)
    show "\<exists>m < length ?e. ip = Some m \<and> live (?e ! m) \<and> parent (?e ! m) = None"
      using r lv par[of r] by auto
    show "parent (?e ! k) \<noteq> Some k" if "k < length ?e" for k
      using that F r par[of k] by (auto simp: fam_inv_def split: if_splits)
    show "parent (?e ! k) = None" if "k < length ?e" "pstate (?e ! k) = UNUSED" for k
      using that F un[of k] par[of k] by (auto simp: fam_inv_def)
    show "\<exists>j < length ?e. parent (?e ! k) = Some j \<and> live (?e ! j)"
      if k: "k < length ?e" "pstate (?e ! k) \<noteq> UNUSED" "ip \<noteq> Some k" for k
    proof -
      from k F un[of k] obtain j where j: "j < length ps" "parent (ps ! k) = Some j" "live (ps ! j)"
        by (auto simp: fam_inv_def)
      then show ?thesis using par[of k] k(1) r lv by (cases "j = i") auto
    qed
  qed
  have "pstate (?e ! j) \<noteq> ZOMBIE" if w: "w < length ps" "waiting ?e w" and j: "j < length ps" "parent (?e ! j) = Some w" for w j
  proof
    assume z: "pstate (?e ! j) = ZOMBIE"
    have wi: "w \<noteq> i" using w(2) q(1) i by (auto simp: waiting_def)
    then have ws: "pstate (ps ! w) = SLEEPING" "chan (ps ! w) = Ch_proc w" "parent (ps ! i) \<noteq> Some w"
      "dead_child i ps \<longrightarrow> ip \<noteq> Some w"
      using w by (auto simp: waiting_def bequeath_nth chan_of_def split: option.splits)
    show False
    proof (cases "j = i")
      case True
      with j par[of i] ws(3) i F show False by (auto simp: fam_inv_def)
    next
      case False
      then have zj: "pstate (ps ! j) = ZOMBIE" using z j by (simp add: bequeath_nth)
      show False
      proof (cases "parent (ps ! j) = Some i")
        case True
        then have "dead_child i ps" using zj j by (auto simp: dead_child_def)
        with ws(4) True j par[of j] show False by simp
      next
        case False
        then have "parent (ps ! j) = Some w" using j par[of j] by simp
        with W ws w j zj show False by (auto simp: wait_inv_def waiting_def)
      qed
    qed
  qed
  then have "wait_inv ?e" by (auto simp: wait_inv_def)
  with R' S' F' L show ?thesis by (simp add: tab_inv_def)
qed

text \<open>The loop of exit that hands the children to init computes \<open>bequeath\<close>.\<close>

lemma reparent_ptable:
  assumes "distinct js" "\<forall>j \<in> set js. j < length (ptable s)" "initproc s \<noteq> Some i"
  shows "ptable (reparent i js s) =
    (let ps = map (\<lambda>k. if k \<in> set js then adopt i (initproc s) (ptable s ! k) else ptable s ! k) [0..<length (ptable s)]
     in if \<exists>j \<in> set js. parent (ptable s ! j) = Some i \<and> pstate (ptable s ! j) = ZOMBIE
        then map (wake1 (chan_of (initproc s))) ps else ps)
    \<and> initproc (reparent i js s) = initproc s"
  using assms
proof (induction js arbitrary: s)
  case Nil
  then show ?case by (simp add: map_nth)
next
  case (Cons j js)
  show ?case
  proof (cases "parent (ptable s ! j) = Some i")
    case False
    then have "reparent i (j # js) s = reparent i js s" by simp
    with Cons False show ?thesis by (auto simp: adopt_def Let_def intro!: nth_equalityI)
  next
    case True
    let ?t = "set_proc j (parent_update (\<lambda>_. initproc s)) s"
    let ?w = "pstate (ptable s ! j) = ZOMBIE"
    define u where "u = (if ?w then wakeup1 (chan_of (initproc s)) ?t else ?t)"
    have j: "j < length (ptable s)" "j \<notin> set js" using Cons.prems by auto
    have eq: "reparent i (j # js) s = reparent i js u"
      using True j by (simp add: Let_def set_proc_def u_def)
    have u: "initproc u = initproc s" "length (ptable u) = length (ptable s)"
      by (simp_all add: set_proc_def wakeup1_def u_def)
    have n: "ptable u ! k = (if ?w then wake1 (chan_of (initproc s)) else (\<lambda>p. p))
        (if k = j then adopt i (initproc s) (ptable s ! k) else ptable s ! k)" if "k < length (ptable s)" for k
      using that True by (auto simp: set_proc_def wakeup1_ptable adopt_def u_def)
    have ex: "(\<exists>k \<in> set js. parent (ptable u ! k) = Some i \<and> pstate (ptable u ! k) = ZOMBIE) \<longleftrightarrow>
        (\<exists>k \<in> set js. parent (ptable s ! k) = Some i \<and> pstate (ptable s ! k) = ZOMBIE)"
      using Cons.prems(2) j by (intro bex_cong refl) (auto simp: n)
    have w2: "wake1 ch (adopt i ip (wake1 ch p)) = wake1 ch (adopt i ip p)" "wake1 ch (wake1 ch p) = wake1 ch p"
      "adopt i ip (wake1 ch p) = wake1 ch (adopt i ip p)" for ch ip p by (auto simp: wake1_def adopt_def)
    have IH: "ptable (reparent i js u) =
      (let ps = map (\<lambda>k. if k \<in> set js then adopt i (initproc s) (ptable u ! k) else ptable u ! k) [0..<length (ptable s)]
       in if \<exists>j \<in> set js. parent (ptable s ! j) = Some i \<and> pstate (ptable s ! j) = ZOMBIE
          then map (wake1 (chan_of (initproc s))) ps else ps) \<and> initproc (reparent i js u) = initproc s"
      using Cons.IH[of u] Cons.prems unfolding u ex by simp
    show ?thesis unfolding eq using IH j True
      by (auto simp: Let_def n w2 intro!: nth_equalityI)
  qed
qed

lemma reparent_bequeath:
  assumes "initproc s \<noteq> Some i"
  shows "ptable (reparent i [0..<length (ptable s)] (wakeup1 (chan_of (parent (ptable s ! i))) s)) =
    bequeath i (initproc s) (ptable s)"
proof -
  let ?s = "wakeup1 (chan_of (parent (ptable s ! i))) s"
  have s: "initproc ?s = initproc s" "length (ptable ?s) = length (ptable s)" by (simp_all add: wakeup1_def)
  note r = reparent_ptable[of "[0..<length (ptable s)]" ?s i]
  have m: "map (\<lambda>k. if k \<in> set [0..<length ps] then f (ps ! k) else ps ! k) [0..<length ps] = map f ps"
    for f and ps :: "proc list" by (auto intro!: nth_equalityI)
  have d: "(\<exists>j \<in> set [0..<length ps]. parent (ps ! j) = Some i \<and> pstate (ps ! j) = ZOMBIE) = dead_child i ps"
    for ps by (auto simp: dead_child_def)
  have "ptable (reparent i [0..<length (ptable s)] ?s) =
    (let ps = map (adopt i (initproc s)) (ptable ?s)
     in if dead_child i (ptable ?s) then map (wake1 (chan_of (initproc s))) ps else ps)"
    using r assms m[of "ptable ?s" "adopt i (initproc s)"] d[of "ptable ?s"] unfolding s by simp
  then show ?thesis by (simp add: bequeath_def wakeup1_ptable Let_def)
qed

subsection \<open>The other operations\<close>

lemma tab_inv_stop:
  assumes inv: "tab_inv N cp np ip ps" and c: "cp c = Some i"
    and q: "pstate q = RUNNABLE \<or> pstate q = SLEEPING" "parent q = parent (ps ! i)" "slot_ok np q" "pid q = pid (ps ! i)"
    and w: "pstate q = SLEEPING \<Longrightarrow> chan q = Ch_proc i \<Longrightarrow> \<not> dead_child i ps"
  shows "tab_inv N (cp(c := None)) np ip (ps[i := q])"
proof -
  have R: "run_inv N cp ps" and S: "slot_inv np ps" and F: "fam_inv ip ps" and W: "wait_inv ps"
    and L: "length ps = NPROC" using inv by (auto simp: tab_inv_def)
  have i: "i < length ps" "pstate (ps ! i) = RUNNING" using R c by (auto simp: run_inv_def)
  have "run_inv N (cp(c := None)) (ps[i := q])" using R c q(1) by (intro run_inv_stop) auto
  moreover have "slot_inv np (ps[i := q])" using S q i by (intro slot_inv_upd) auto
  moreover have "fam_inv ip (ps[i := q])"
    using q i by (intro fam_inv_cong[OF F]) (auto simp: nth_upd live_def)
  moreover have "wait_inv (ps[i := q])"
    using W q(1,2) w i unfolding wait_inv_def waiting_def dead_child_def by (auto simp: nth_upd)
  ultimately show ?thesis using L by (simp add: tab_inv_def)
qed

lemma tab_inv_start:
  assumes inv: "tab_inv N cp np ip ps" and c: "cp c = None" "c < N" "i < length ps" "pstate (ps ! i) = RUNNABLE"
  shows "tab_inv N (cp(c := Some i)) np ip (ps[i := (ps ! i)\<lparr>pstate := RUNNING\<rparr>])"
proof -
  let ?q = "(ps ! i)\<lparr>pstate := RUNNING\<rparr>"
  have R: "run_inv N cp ps" and S: "slot_inv np ps" and F: "fam_inv ip ps" and W: "wait_inv ps"
    and L: "length ps = NPROC" using inv by (auto simp: tab_inv_def)
  have "run_inv N (cp(c := Some i)) (ps[i := ?q])" using R c by (intro run_inv_start) auto
  moreover have "slot_inv np (ps[i := ?q])"
    using S c(3,4) by (intro slot_inv_upd) (auto simp: slot_inv_def slot_ok_def)
  moreover have "fam_inv ip (ps[i := ?q])"
    using c(3,4) by (intro fam_inv_cong[OF F]) (auto simp: nth_upd live_def)
  moreover have "wait_inv (ps[i := ?q])" using W c(3) by (intro wait_inv_upd) auto
  ultimately show ?thesis using L by (simp add: tab_inv_def)
qed

lemma tab_inv_new:
  assumes inv: "tab_inv N cp np ip ps" and i: "i < length ps" "pstate (ps ! i) = UNUSED"
    and q: "pstate q = RUNNABLE" "parent q = Some j" "slot_ok (np + 1) q" "pid q = np"
    and j: "j < length ps" "live (ps ! j)"
  shows "tab_inv N cp (np + 1) ip (ps[i := q])"
proof -
  have R: "run_inv N cp ps" and S: "slot_inv np ps" and F: "fam_inv ip ps" and W: "wait_inv ps"
    and L: "length ps = NPROC" using inv by (auto simp: tab_inv_def)
  have "run_inv N cp (ps[i := q])" using i q by (intro run_inv_cong[OF R]) (auto simp: nth_upd)
  moreover have "slot_inv (np + 1) (ps[i := q])" using S q by (intro slot_inv_new) auto
  moreover have "fam_inv ip (ps[i := q])" using F i q j by (intro fam_inv_new)
  moreover have "wait_inv (ps[i := q])" using W i q by (intro wait_inv_upd) auto
  ultimately show ?thesis using L by (simp add: tab_inv_def)
qed

text \<open>A slot that becomes, or stays, unused.\<close>

lemma tab_inv_clear:
  assumes inv: "tab_inv N cp np ip ps" and i: "i < length ps" "pstate (ps ! i) = ZOMBIE \<or> pstate (ps ! i) = UNUSED"
    and q: "pstate q = UNUSED" "parent q = None" "0 \<le> priority q" "priority q \<le> 100" and np: "np \<le> np'"
  shows "tab_inv N cp np' ip (ps[i := q])"
proof -
  have R: "run_inv N cp ps" and S: "slot_inv np ps" and F: "fam_inv ip ps" and W: "wait_inv ps"
    and L: "length ps = NPROC" using inv by (auto simp: tab_inv_def)
  have "run_inv N cp (ps[i := q])" using i q by (intro run_inv_cong[OF R]) (auto simp: nth_upd)
  moreover have "slot_inv np' ps" using S np by (auto simp: slot_inv_def slot_ok_def)
  then have "slot_inv np' (ps[i := q])" using q by (intro slot_inv_upd) (auto simp: slot_ok_def)
  moreover have "fam_inv ip (ps[i := q])" using F i q by (intro fam_inv_reap)
  moreover have "wait_inv (ps[i := q])" using W i q by (intro wait_inv_upd) auto
  ultimately show ?thesis using L by (simp add: tab_inv_def)
qed

text \<open>An update that keeps the state of the slot, or wakes its process.\<close>

lemma tab_inv_keep:
  assumes inv: "tab_inv N cp np ip ps" and i: "i < length ps"
    and q: "pstate q = pstate (ps ! i) \<or> pstate (ps ! i) = SLEEPING \<and> pstate q = RUNNABLE"
      "parent q = parent (ps ! i)" "pid q = pid (ps ! i)" "kstack q = kstack (ps ! i)" "pgdir q = pgdir (ps ! i)"
      "pcontext q = pcontext (ps ! i)" "chan q = chan (ps ! i) \<or> chan q = Ch_null" "0 \<le> priority q" "priority q \<le> 100"
  shows "tab_inv N cp np ip (ps[i := q])"
proof -
  have R: "run_inv N cp ps" and S: "slot_inv np ps" and F: "fam_inv ip ps" and W: "wait_inv ps"
    and L: "length ps = NPROC" using inv by (auto simp: tab_inv_def)
  have ok: "slot_ok np (ps ! i)" using S i by (simp add: slot_inv_def)
  have "run_inv N cp (ps[i := q])" using i q by (intro run_inv_cong[OF R]) (auto simp: nth_upd)
  moreover have "slot_inv np (ps[i := q])" using S q ok by (intro slot_inv_upd) (auto simp: slot_ok_def)
  moreover have "fam_inv ip (ps[i := q])"
    using i q by (intro fam_inv_cong[OF F]) (auto simp: nth_upd live_def)
  moreover have "wait_inv (ps[i := q])" using W i q by (intro wait_inv_upd) (auto simp: waiting_def)
  ultimately show ?thesis using L by (simp add: tab_inv_def)
qed

end
