(* ===== verification/Procinv.thy ===== *)
theory Procinv
  imports Sched Tabinv
begin

text \<open>
  The effect of each process operation on the process table, on the locks and on what the
  CPUs run.  Between operations every lock is free (\<open>quiet\<close>) except that a process inside the
  loop of wait, and the scheduler, hold the process table's lock (\<open>plocked\<close>).
\<close>

subsection \<open>Locks at the boundaries of operations\<close>

definition quiet :: "'a lockst_scheme \<Rightarrow> bool" where
  "quiet s \<longleftrightarrow> (\<forall>l. lock_free l s) \<and> (\<forall>c. ncli (cpus s c) = 0)"

definition plocked :: "nat \<Rightarrow> 'a lockst_scheme \<Rightarrow> bool" where
  "plocked c s \<longleftrightarrow> (\<forall>l. l \<noteq> L_ptable \<longrightarrow> lock_free l s) \<and> held_by c L_ptable s \<and>
     (\<forall>d. d \<noteq> c \<longrightarrow> ncli (cpus s d) = 0) \<and> ncli (cpus s c) = 1 \<and> \<not> eflags_if (cpus s c)"

text \<open>The process state an operation may rely on being unchanged elsewhere.\<close>

definition penv :: "'a procst_scheme \<Rightarrow> nat \<times> int \<times> nat option \<times> uint \<times> bool \<times> (nat \<Rightarrow> nat option)" where
  "penv s = (ncpu s, nextpid s, initproc s, ticks s, forkret_first s, \<lambda>d. cproc (cpus s d))"

lemma penvD:
  assumes "penv t = penv s"
  shows "ncpu t = ncpu s" "nextpid t = nextpid s" "initproc t = initproc s" "ticks t = ticks s"
    "forkret_first t = forkret_first s" "cproc (cpus t d) = cproc (cpus s d)"
  using assms by (auto simp: penv_def fun_eq_iff)

lemma procst_more:
  fixes s t :: "'a procst_scheme"
  assumes "memst.more t = memst.more s"
  shows "kpgdir t = kpgdir s" "kdata t = kdata s" "ptable t = ptable s" "nextpid t = nextpid s"
    "initproc t = initproc s" "ticks t = ticks s" "forkret_first t = forkret_first s"
    "procst.more t = procst.more s"
  using assms by (cases s; cases t; simp)+

lemma procst_lock_more:
  fixes s t :: "'a procst_scheme"
  assumes "lockst.more t = lockst.more s"
  shows "ptable t = ptable s" "nextpid t = nextpid s" "initproc t = initproc s" "ticks t = ticks s"
    "forkret_first t = forkret_first s"
  using procst_more[OF memst_more(5)[OF assms]] by auto

lemma procst_frame [simp]:
  fixes s :: "'a procst_scheme"
  shows "ptable (touch c s) = ptable s" "ptable (acquired c l s) = ptable s" "ptable (set_cpu d f s) = ptable s"
    "ptable (set_lock l g s) = ptable s" "ptable (pushcli c s) = ptable s"
    "ticks (touch c s) = ticks s" "ticks (acquired c l s) = ticks s"
    "initproc (touch c s) = initproc s" "initproc (acquired c l s) = initproc s"
    "nextpid (touch c s) = nextpid s" "nextpid (acquired c l s) = nextpid s"
    "forkret_first (touch c s) = forkret_first s" "forkret_first (acquired c l s) = forkret_first s"
  by (rule procst_lock_more, simp)+

lemma penv_simps [simp]:
  "penv (touch c s) = penv s" "penv (acquired c l s) = penv s" "penv (set_proc i f s) = penv s"
  "penv (s\<lparr>ptable := ps\<rparr>) = penv s" "penv (s\<lparr>mem := m\<rparr>) = penv s"
  by (simp_all add: penv_def set_proc_def)

lemma set_proc_sel [simp]:
  "ptable (set_proc i f s) = (ptable s)[i := f (ptable s ! i)]" "cpus (set_proc i f s) = cpus s"
  "locks (set_proc i f s) = locks s" "ncpu (set_proc i f s) = ncpu s"
  "ticks (set_proc i f s) = ticks s" "initproc (set_proc i f s) = initproc s"
  "nextpid (set_proc i f s) = nextpid s" "forkret_first (set_proc i f s) = forkret_first s"
  by (simp_all add: set_proc_def)

lemma quiet_cong: "cpus t = cpus s \<Longrightarrow> locks t = locks s \<Longrightarrow> quiet t = quiet s"
  by (simp add: quiet_def lock_free_def)

lemma plocked_cong: "cpus t = cpus s \<Longrightarrow> locks t = locks s \<Longrightarrow> plocked c t = plocked c s"
  by (simp add: plocked_def lock_free_def held_by_def)

lemma quiet_simps [simp]:
  "quiet (touch c s) = quiet s" "quiet (set_proc i f p) = quiet p"
  "plocked c (touch d s) = plocked c s" "plocked c (set_proc i f p) = plocked c p"
  by (auto simp: quiet_def plocked_def lock_free_def held_by_def)

lemma quiet_cpu_ok: "quiet s \<Longrightarrow> cpu_ok (cpus s c)"
  by (simp add: quiet_def cpu_ok_def)

lemma plocked_cpu_ok: "plocked c s \<Longrightarrow> cpu_ok (cpus s d)"
  by (cases "d = c") (auto simp: plocked_def cpu_ok_def)

lemma quiet_kready: "quiet s \<Longrightarrow> kready c s"
  by (simp add: kready_def quiet_cpu_ok) (simp add: quiet_def)

lemma plocked_kready: "plocked c s \<Longrightarrow> kready d s"
  by (simp add: kready_def plocked_cpu_ok) (simp add: plocked_def)

lemma plocked_touch: "plocked c s \<Longrightarrow> touch c s = s"
  by (simp add: touch_def plocked_def)

lemma plocked_acquired [simp]: "quiet s \<Longrightarrow> plocked c (acquired c L_ptable s)"
  by (auto simp: plocked_def quiet_def lock_free_def)

lemma acquire_ptable: "quiet s \<Longrightarrow> acquire c L_ptable s = Inr (acquired c L_ptable s)"
  by (rule acquire_free) (auto simp: quiet_cpu_ok quiet_def)

lemma acquire_plocked: "plocked c s \<Longrightarrow> acquire d L_ptable s = Inl (if d = c then Panic ''acquire'' else Spin)"
  using plocked_cpu_ok[of c s d] by (auto simp: acquire_eq plocked_def held_by_def)

lemma release_plocked:
  assumes "plocked c s"
  obtains t where "release c L_ptable s = Inr t" "quiet t" "lockst.more t = lockst.more s" "ncpu t = ncpu s"
    "\<And>d. cproc (cpus t d) = cproc (cpus s d)"
proof -
  have ok: "cpu_ok (cpus s c)" using assms by (rule plocked_cpu_ok)
  have h: "holding c L_ptable s = Inr (True, s)"
    using holding_eq[OF ok, of L_ptable] assms plocked_touch[OF assms] by (simp add: plocked_def)
  let ?u = "set_lock L_ptable (locked_update (\<lambda>_. 0)) (set_lock L_ptable (lcpu_update (\<lambda>_. None)) s)"
  have "\<exists>t. popcli c ?u = Inr t \<and> quiet t \<and> lockst.more t = lockst.more s \<and> ncpu t = ncpu s \<and>
    (\<forall>d. cproc (cpus t d) = cproc (cpus s d))"
    using assms by (auto simp: popcli_def Let_def plocked_def quiet_def lock_free_def sti_def)
  then show thesis using that by (auto simp: release_def h)
qed

lemma release_plocked_InrD:
  fixes s t :: "'a procst_scheme"
  assumes "plocked c s" "release c L_ptable s = Inr t"
  shows "quiet t" "ptable t = ptable s" "penv t = penv s" "cproc (cpus t d) = cproc (cpus s d)"
    "lockst.more t = lockst.more s"
proof -
  from release_plocked[OF assms(1)] assms(2) have r: "quiet t" "lockst.more t = lockst.more s" "ncpu t = ncpu s"
    "\<And>d. cproc (cpus t d) = cproc (cpus s d)" by (metis Inr_inject)+
  note m = procst_lock_more[OF r(2)]
  from r m show "quiet t" "ptable t = ptable s" "penv t = penv s" "cproc (cpus t d) = cproc (cpus s d)"
    "lockst.more t = lockst.more s" by (auto simp: penv_def)
qed

lemma curproc_eq: "cpu_ok (cpus s c) \<Longrightarrow> cproc (cpus s c) = Some i \<Longrightarrow> curproc c s = Inr (i, touch c s)"
  by (simp add: curproc_def myproc_def Let_def popcli_pushcli)

lemma curproc_plocked: "plocked c s \<Longrightarrow> cproc (cpus s c) = Some i \<Longrightarrow> curproc c s = Inr (i, s)"
  using curproc_eq[of s c i] by (simp add: plocked_cpu_ok plocked_touch)

subsection \<open>Giving up the CPU\<close>

lemma sched_plocked:
  assumes "plocked c s" "cproc (cpus s c) = Some i" "pstate (ptable s ! i) \<noteq> RUNNING"
  shows "sched c k s = Inr (set_proc i (pcontext_update (\<lambda>_. k (intena (cpus s c)))) s)"
proof -
  have "holding c L_ptable s = Inr (True, s)"
    using holding_eq[OF plocked_cpu_ok[OF assms(1)], of c L_ptable] assms(1) plocked_touch[OF assms(1)]
    by (simp add: plocked_def)
  with assms show ?thesis
    using curproc_plocked[OF assms(1,2)] by (simp add: sched_def) (simp add: plocked_def)
qed

lemma set_proc_twice: "set_proc i f (set_proc i g s) = set_proc i (\<lambda>p. f (g p)) s"
  by (cases "i < length (ptable s)") (simp_all add: set_proc_def list_update_beyond)

lemma yield_quiet:
  assumes "quiet s" "cproc (cpus s c) = Some i" "i < length (ptable s)"
  obtains b where "yield c s =
    Inr (set_proc i (\<lambda>p. p\<lparr>pstate := RUNNABLE, pcontext := Ctx_yield b\<rparr>) (acquired c L_ptable s))"
proof -
  let ?s = "acquired c L_ptable s"
  let ?t = "set_proc i (pstate_update (\<lambda>_. RUNNABLE)) ?s"
  have l: "plocked c ?s" "plocked c ?t" using assms(1) by simp_all
  have cp: "cproc (cpus ?s c) = Some i" "cproc (cpus ?t c) = Some i" using assms(2) by simp_all
  have "yield c s = sched c Ctx_yield ?t"
    using acquire_ptable[OF assms(1)] curproc_plocked[OF l(1) cp(1)] by (simp add: yield_def)
  also have "\<dots> = Inr (set_proc i (pcontext_update (\<lambda>_. Ctx_yield (intena (cpus ?t c)))) ?t)"
    using assms(3) by (intro sched_plocked[OF l(2) cp(2)]) simp
  finally show thesis by (intro that) (simp add: set_proc_twice)
qed

lemma sleep_plocked:
  assumes "plocked c s" "cproc (cpus s c) = Some i" "i < length (ptable s)"
  obtains b where "sleep c ch (Some L_ptable) s =
    Inr (set_proc i (\<lambda>p. p\<lparr>chan := ch, pstate := SLEEPING, pcontext := Ctx_sleep L_ptable b\<rparr>) s)"
proof -
  let ?t = "set_proc i (\<lambda>p. p\<lparr>chan := ch, pstate := SLEEPING\<rparr>) s"
  have m: "myproc c s = Inr (Some i, s)"
    using assms(1,2) by (simp add: myproc_def Let_def popcli_pushcli plocked_cpu_ok plocked_touch)
  have "sleep c ch (Some L_ptable) s = sched c (Ctx_sleep L_ptable) ?t" by (simp add: sleep_def m)
  also have "\<dots> = Inr (set_proc i (pcontext_update (\<lambda>_. Ctx_sleep L_ptable (intena (cpus ?t c)))) ?t)"
    using assms by (intro sched_plocked) simp_all
  finally show thesis by (intro that) (simp add: set_proc_twice)
qed

text \<open>Sleeping on another lock: it is released once the table's lock is held, out of order.\<close>

lemma release_outer:
  assumes "quiet s" "l \<noteq> L_ptable"
  obtains t where "release c l (acquired c L_ptable (acquired c l s)) = Inr t" "plocked c t"
    "lockst.more t = lockst.more s" "ncpu t = ncpu s" "\<And>d. cproc (cpus t d) = cproc (cpus s d)"
proof -
  let ?u = "acquired c L_ptable (acquired c l s)"
  have n: "ncli (cpus ?u c) = 2" "\<not> eflags_if (cpus ?u c)" using assms by (simp_all add: quiet_def)
  then have "holding c l ?u = Inr (True, ?u)"
    using assms by (simp add: holding_eq cpu_ok_def held_by_def touch_def)
  moreover have "\<exists>t. popcli c (set_lock l (locked_update (\<lambda>_. 0)) (set_lock l (lcpu_update (\<lambda>_. None)) ?u)) = Inr t
      \<and> plocked c t \<and> lockst.more t = lockst.more s \<and> ncpu t = ncpu s \<and>
      (\<forall>d. cproc (cpus t d) = cproc (cpus s d))"
    using assms n by (auto simp: popcli_def Let_def plocked_def quiet_def lock_free_def held_by_def)
  ultimately show thesis using that by (auto simp: release_def)
qed

lemma sleep_quiet:
  fixes s :: "'a procst_scheme"
  assumes "quiet s" "cproc (cpus s c) = Some i" "i < length (ptable s)" "l \<noteq> L_ptable"
  obtains b t where "bindE (acquire c l s) (sleep c ch (Some l)) = Inr t" "plocked c t" "penv t = penv s"
    "ptable t = (ptable s)[i := (ptable s ! i)\<lparr>chan := ch, pstate := SLEEPING, pcontext := Ctx_sleep l b\<rparr>]"
proof -
  let ?a = "acquired c l s"
  have ok: "cpu_ok (cpus s c)" using assms(1) by (rule quiet_cpu_ok)
  have a: "acquire c l s = Inr ?a" using assms(1) ok by (intro acquire_free) (simp_all add: quiet_def)
  have oka: "cpu_ok (cpus ?a c)" "touch c ?a = ?a"
    using assms(1) by (simp_all add: cpu_ok_def quiet_def touch_def)
  have m: "myproc c ?a = Inr (Some i, ?a)"
    using assms(2) oka by (simp add: myproc_def Let_def popcli_pushcli)
  have p: "acquire c L_ptable ?a = Inr (acquired c L_ptable ?a)"
    using assms(1,4) oka(1) by (intro acquire_free) (simp_all add: quiet_def lock_free_def)
  obtain u where u: "release c l (acquired c L_ptable ?a) = Inr u" "plocked c u"
    "lockst.more u = lockst.more s" "ncpu u = ncpu s" "\<And>d. cproc (cpus u d) = cproc (cpus s d)"
    using release_outer[OF assms(1,4), of c] by metis
  note um = procst_lock_more[OF u(3)]
  let ?v = "set_proc i (\<lambda>p. p\<lparr>chan := ch, pstate := SLEEPING\<rparr>) u"
  have "bindE (acquire c l s) (sleep c ch (Some l)) = sched c (Ctx_sleep l) ?v"
    using assms(4) by (simp add: a sleep_def m p u(1))
  also have "\<dots> = Inr (set_proc i (pcontext_update (\<lambda>_. Ctx_sleep l (intena (cpus ?v c)))) ?v)"
    using u assms um by (intro sched_plocked) simp_all
  finally have e: "bindE (acquire c l s) (sleep c ch (Some l)) =
    Inr (set_proc i (pcontext_update (\<lambda>_. Ctx_sleep l (intena (cpus u c)))) ?v)" by simp
  show thesis using u(2,4,5) um assms(3) by (intro that[OF e]) (simp_all add: penv_def)
qed

subsection \<open>Memory operations\<close>

lemma mframe_procst:
  fixes s t :: "'a procst_scheme"
  assumes "mframe c s t"
  shows "ptable t = ptable s" "penv t = penv s"
proof -
  have m: "memst.more t = memst.more s" "ncpu t = ncpu s" "cpus t = cpus s \<or> cpus t = cpus (touch c s)"
    using assms by (auto simp: mframe_def)
  note procst_more[OF m(1)]
  with m show "ptable t = ptable s" "penv t = penv s" by (auto simp: penv_def)
qed

lemma quiet_mframe: "quiet s \<Longrightarrow> mframe c s t \<Longrightarrow> quiet t"
  using quiet_cong[of t s] quiet_cong[of t "touch c s"] by (auto simp: mframe_def)

lemma plocked_mframe: "plocked c s \<Longrightarrow> mframe c s t \<Longrightarrow> plocked c t"
  using plocked_cong[of t s c] plocked_cong[of t "touch c s" c] by (auto simp: mframe_def)

lemma reap_plocked:
  assumes "plocked c s" "reap c j s = Inr (r, t)" "j < length (ptable s)"
  shows "plocked c t" "penv t = penv s" "r = pid (ptable s ! j)"
    "ptable t = (ptable s)[j := (ptable s ! j)\<lparr>kstack := 0, pid := 0, parent := None, pname := [],
       killed := False, pstate := UNUSED, etime := ticks s\<rparr>]"
proof -
  from assms(2) obtain u v where u: "kfree c (kstack (ptable s ! j)) s = Inr u"
    and v: "freevm c (pgdir (ptable u ! j)) (set_proc j (kstack_update (\<lambda>_. 0)) u) = Inr v \<or>
      freevm c (pgdir ((ptable u)[j := (ptable u ! j)\<lparr>kstack := 0\<rparr>] ! j)) (set_proc j (kstack_update (\<lambda>_. 0)) u) = Inr v"
    and t: "t = set_proc j (\<lambda>p. p\<lparr>pid := 0, parent := None, pname := [], killed := False,
      pstate := UNUSED, etime := ticks v\<rparr>) v" and r: "r = pid (ptable s ! j)"
    by (auto simp: reap_def Let_def elim!: bindE_InrE)
  let ?u = "set_proc j (kstack_update (\<lambda>_. 0)) u"
  note mu = kfree_mframe[OF plocked_kready[OF assms(1)] u]
  have lu: "plocked c ?u" using plocked_mframe[OF assms(1) mu] by simp
  from v have mv: "mframe c ?u v" using freevm_mframe[OF plocked_kready[OF lu]] by auto
  note pu = mframe_procst[OF mu] and pv = mframe_procst[OF mv]
  show "plocked c t" "penv t = penv s" "r = pid (ptable s ! j)"
    using plocked_mframe[OF lu mv] pu pv t r by simp_all
  have "ticks v = ticks s" using penvD(4)[of v s] pu pv by simp
  then show "ptable t = (ptable s)[j := (ptable s ! j)\<lparr>kstack := 0, pid := 0, parent := None, pname := [],
       killed := False, pstate := UNUSED, etime := ticks s\<rparr>]"
    using pu pv assms(3) t by simp
qed

end
