(* ===== verification/Machine.thy ===== *)
theory Machine
  imports Procinv
begin

text \<open>
  The processes and CPUs of the kernel as a transition system.  A step is one kernel operation
  of a CPU, from the point where it takes its locks to the point where all are free again; a
  step that gives up the CPU runs on through the scheduler to the next process it switches to
  (or to the end of the scheduling round) and through that process's return from sched.  The
  only lock held between steps is the process table's, by a process that has been woken inside
  the loop of wait.
\<close>

subsection \<open>Steps\<close>

text \<open>
  After a switch to a process: it returns from sched (or enters forkret); a process that slept
  on a lock of its own gets it back and, in the end, releases it.
\<close>

definition settle :: "nat \<Rightarrow> 'a procst_scheme \<Rightarrow> fault + 'a procst_scheme" where
  "settle c s = (case cproc (cpus s c) of None \<Rightarrow> Inr s
     | Some i \<Rightarrow> bindE (resume Inr c s) (\<lambda>t.
         case pcontext (ptable s ! i) of
           Ctx_sleep l b \<Rightarrow> if l \<noteq> L_ptable then release c l t else Inr t
         | _ \<Rightarrow> Inr t))"

definition switch_out :: "nat \<Rightarrow> 'a procst_scheme \<Rightarrow> fault + 'a procst_scheme" where
  "switch_out c s = bindE (sched_back c s) (settle c)"

definition finish :: "nat \<Rightarrow> 'r outcome \<times> 'a procst_scheme \<Rightarrow> fault + 'a procst_scheme" where
  "finish c os = (case os of (Done r, s) \<Rightarrow> Inr s | (Asleep, s) \<Rightarrow> switch_out c s)"

text \<open>What the file layer may do to the process table while fork copies the open files.\<close>

definition files_only :: "(nat \<Rightarrow> nat \<Rightarrow> 'a procst_scheme \<Rightarrow> fault + 'a procst_scheme) \<Rightarrow> bool" where
  "files_only dup \<longleftrightarrow> (\<forall>i np s t. quiet s \<longrightarrow> dup i np s = Inr t \<longrightarrow> quiet t \<and> penv t = penv s \<and>
     (\<exists>f w. ptable t = (ptable s)[np := (ptable s ! np)\<lparr>ofile := f, cwd := w\<rparr>]))"

inductive kstep :: "int \<Rightarrow> 'a procst_scheme \<Rightarrow> 'a procst_scheme \<Rightarrow> bool" for strat :: int where
  k_tick: "kstep strat s (s\<lparr>ticks := ticks s + 1\<rparr>)"
| k_round: "c < ncpu s \<Longrightarrow> cproc (cpus s c) = None \<Longrightarrow>
    bindE (sched_round strat c s) (settle c) = Inr t \<Longrightarrow> kstep strat s t"
| k_yield: "cproc (cpus s c) = Some i \<Longrightarrow> bindE (yield c s) (switch_out c) = Inr t \<Longrightarrow> kstep strat s t"
| k_sleep: "cproc (cpus s c) = Some i \<Longrightarrow> l \<noteq> L_ptable \<Longrightarrow> ch \<notin> range Ch_proc \<Longrightarrow>
    bindE (bindE (acquire c l s) (sleep c ch (Some l))) (switch_out c) = Inr t \<Longrightarrow> kstep strat s t"
| k_wakeup: "wakeup c ch s = Inr t \<Longrightarrow> kstep strat s t"
| k_kill: "kill c n s = Inr (r, t) \<Longrightarrow> kstep strat s t"
| k_fork: "cproc (cpus s c) = Some i \<Longrightarrow> files_only dup \<Longrightarrow> fork dup c s = Inr (r, t) \<Longrightarrow> kstep strat s t"
| k_exit: "cproc (cpus s c) = Some i \<Longrightarrow> initproc s \<noteq> Some i \<Longrightarrow>
    bindE (exit_locked c i s) (switch_out c) = Inr t \<Longrightarrow> kstep strat s t"
| k_wait: "cproc (cpus s c) = Some i \<Longrightarrow> bindE (wait c s) (finish c) = Inr t \<Longrightarrow> kstep strat s t"
| k_wait_again: "cproc (cpus s c) = Some i \<Longrightarrow> held_by c L_ptable s \<Longrightarrow>
    bindE (wait_turn c i s) (finish c) = Inr t \<Longrightarrow> kstep strat s t"
| k_waitx: "cproc (cpus s c) = Some i \<Longrightarrow> bindE (waitx c s) (finish c) = Inr t \<Longrightarrow> kstep strat s t"
| k_waitx_again: "cproc (cpus s c) = Some i \<Longrightarrow> held_by c L_ptable s \<Longrightarrow>
    bindE (waitx_turn c i s) (finish c) = Inr t \<Longrightarrow> kstep strat s t"
| k_setpriority: "cproc (cpus s c) = Some i \<Longrightarrow> setpriority c n s = Inr (r, False, t) \<Longrightarrow> kstep strat s t"
| k_setpriority_yield: "cproc (cpus s c) = Some i \<Longrightarrow> setpriority c n s = Inr (r, True, u) \<Longrightarrow>
    switch_out c u = Inr t \<Longrightarrow> kstep strat s t"
| k_growproc: "cproc (cpus s c) = Some i \<Longrightarrow> growproc c n s = Inr (r, t) \<Longrightarrow> kstep strat s t"

text \<open>The machine starts when main has created the first process and the file system is up.\<close>

definition kstart :: "'a procst_scheme \<Rightarrow> bool" where
  "kstart s \<longleftrightarrow> quiet s \<and> (\<forall>c. cproc (cpus s c) = None) \<and> \<not> forkret_first s \<and> 0 < ncpu s \<and>
     length (ptable s) = NPROC \<and> nextpid s = 2 \<and> initproc s = Some 0 \<and>
     pstate (ptable s ! 0) = RUNNABLE \<and> pid (ptable s ! 0) = 1 \<and> kstack (ptable s ! 0) \<noteq> 0 \<and>
     pgdir (ptable s ! 0) \<noteq> 0 \<and> pcontext (ptable s ! 0) = Ctx_forkret \<and>
     (\<forall>p \<in> set (ptable s). parent p = None \<and> 0 \<le> priority p \<and> priority p \<le> 100) \<and>
     (\<forall>i. 0 < i \<and> i < NPROC \<longrightarrow> pstate (ptable s ! i) = UNUSED)"

subsection \<open>The invariant\<close>

definition ptab_inv :: "'a procst_scheme \<Rightarrow> bool" where
  "ptab_inv s \<longleftrightarrow> tab_inv (ncpu s) (\<lambda>d. cproc (cpus s d)) (nextpid s) (initproc s) (ptable s) \<and> \<not> forkret_first s"

definition kinv :: "'a procst_scheme \<Rightarrow> bool" where
  "kinv s \<longleftrightarrow> ptab_inv s \<and> (quiet s \<or> (\<exists>c i. plocked c s \<and> cproc (cpus s c) = Some i))"

lemma ptab_inv_cong: "penv t = penv s \<Longrightarrow> ptable t = ptable s \<Longrightarrow> ptab_inv t = ptab_inv s"
  by (auto simp: ptab_inv_def penv_def fun_eq_iff)

lemma ptab_inv_cpu:
  "ptab_inv s \<Longrightarrow> cproc (cpus s c) = Some i \<Longrightarrow> c < ncpu s \<and> i < length (ptable s) \<and> pstate (ptable s ! i) = RUNNING"
  by (auto simp: ptab_inv_def tab_inv_def run_inv_def)

lemma ptab_inv_slot: "ptab_inv s \<Longrightarrow> i < length (ptable s) \<Longrightarrow> slot_ok (nextpid s) (ptable s ! i)"
  by (auto simp: ptab_inv_def tab_inv_def slot_inv_def)

lemma kstart_kinv: "kstart s \<Longrightarrow> kinv s"
proof -
  assume s: "kstart s"
  have u: "pstate (ptable s ! i) = UNUSED \<longleftrightarrow> i \<noteq> 0" if "i < length (ptable s)" for i
    using s that by (cases "i = 0") (auto simp: kstart_def)
  have p: "parent (ptable s ! i) = None \<and> 0 \<le> priority (ptable s ! i) \<and> priority (ptable s ! i) \<le> 100"
    if "i < length (ptable s)" for i using s that by (auto simp: kstart_def)
  have st: "pstate (ptable s ! i) \<noteq> RUNNING \<and> pstate (ptable s ! i) \<noteq> SLEEPING \<and> pstate (ptable s ! i) \<noteq> EMBRYO"
    if "i < length (ptable s)" for i using s that by (cases "i = 0") (auto simp: kstart_def)
  have n: "0 < length (ptable s)" using s by (simp add: kstart_def NPROC_def)
  have "run_inv (ncpu s) (\<lambda>d. cproc (cpus s d)) (ptable s)"
    using s st by (auto simp: run_inv_def kstart_def)
  moreover have "slot_ok (nextpid s) (ptable s ! i)" if "i < length (ptable s)" for i
    using that u[OF that] p[OF that] st[OF that] s by (cases "i = 0") (auto simp: slot_ok_def kstart_def)
  then have "slot_inv (nextpid s) (ptable s)" using u s by (auto simp: slot_inv_def kstart_def)
  moreover have "fam_inv (initproc s) (ptable s)"
    using s u p n by (intro fam_invI) (auto simp: kstart_def live_def)
  moreover have "wait_inv (ptable s)" using st by (auto simp: wait_inv_def waiting_def)
  ultimately show ?thesis using s by (auto simp: kinv_def ptab_inv_def tab_inv_def kstart_def)
qed

subsection \<open>The scheduler keeps it and never faults\<close>

definition choice_ok :: "(nat \<times> spoint) option \<Rightarrow> proc list \<Rightarrow> bool" where
  "choice_ok nxt ps \<longleftrightarrow> (\<forall>i pt. nxt = Some (i, pt) \<longrightarrow> i < length ps \<and> pstate (ps ! i) = RUNNABLE)"

lemma rr_next_ok: "choice_ok (rr_next j ps) ps"
  by (auto simp: choice_ok_def rr_next_def dest: next_from_SomeD)

lemma prio_next_ok: "choice_ok (prio_next pc j ps) ps"
  using rr_next_ok[of 0 ps]
  by (auto simp: choice_ok_def prio_next_def split: option.splits if_splits dest: next_from_SomeD)

lemma after_swtch_ok: "choice_ok (after_swtch pt ps) ps"
  by (simp add: after_swtch_def rr_next_ok prio_next_ok prio_start_def split: spoint.split)

lemma switch_start_ok: "choice_ok (switch_start strat tk ps) ps"
proof -
  have "choice_ok (fcfs_start tk ps) ps"
    using fcfs_loop_spec[of ps "tk + 1000" 0 None] prio_next_ok[of "prio_loop ps 101" 0 ps]
    by (auto simp: choice_ok_def fcfs_start_def prio_start_def fcfs_best_def runnable_def split: option.splits)
  then show ?thesis
    by (simp add: switch_start_def rr_next_ok prio_next_ok prio_start_def) (simp add: choice_ok_def)
qed

lemma switchuvm_plocked:
  fixes s :: "'a procst_scheme"
  assumes "plocked c s" "kstack (ptable s ! i) \<noteq> 0" "pgdir (ptable s ! i) \<noteq> 0"
  obtains t where "switchuvm c (Some i) s = Inr t" "plocked c t" "penv t = penv s" "ptable t = ptable s"
proof -
  let ?f = "\<lambda>u. u\<lparr>ts_ss0 := push_bit 3 SEG_KDATA, ts_esp0 := kstack (ptable s ! i) + KSTACKSIZE, ts_iomb := 0xFFFF,
    tr := push_bit 3 SEG_TSS\<rparr>"
  let ?u = "lcr3 c (V2P (pgdir (ptable s ! i))) (set_cpu c ?f (pushcli c s))"
  have "\<exists>t. popcli c ?u = Inr t \<and> plocked c t \<and> lockst.more t = lockst.more s \<and> ncpu t = ncpu s \<and>
      (\<forall>d. cproc (cpus t d) = cproc (cpus s d))"
    using assms(1) by (auto simp: popcli_def Let_def plocked_def lock_free_def held_by_def lcr3_def)
  then obtain t where t: "popcli c ?u = Inr t" "plocked c t" "lockst.more t = lockst.more s" "ncpu t = ncpu s"
    "\<And>d. cproc (cpus t d) = cproc (cpus s d)" by blast
  note m = procst_lock_more[OF t(3)]
  have "switchuvm c (Some i) s = Inr t" using assms t(1) by (simp add: switchuvm_def Let_def)
  with t m show thesis by (intro that[of t]) (auto simp: penv_def)
qed

text \<open>What the machine state looks like when process \<open>i\<close> has just been switched to.\<close>

lemma dispatch_ok:
  fixes s :: "'a procst_scheme"
  assumes "plocked c s" "ptab_inv s" "c < ncpu s" "cproc (cpus s c) = None"
    and "i < length (ptable s)" "pstate (ptable s ! i) = RUNNABLE"
  obtains t where "dispatch c i pt s = Inr t" "plocked c t" "ptab_inv t" "cproc (cpus t c) = Some i"
    "\<forall>b. pcontext (ptable t ! i) \<noteq> Ctx_exit b" "ncpu t = ncpu s"
proof -
  let ?s = "set_cpu c (cproc_update (\<lambda>_. Some i)) s"
  have ok: "slot_ok (nextpid s) (ptable s ! i)" using assms by (simp add: ptab_inv_slot)
  have l: "plocked c ?s" using assms(1) by (auto simp: plocked_def lock_free_def held_by_def)
  obtain u where u: "switchuvm c (Some i) ?s = Inr u" "plocked c u" "penv u = penv ?s" "ptable u = ptable ?s"
    using switchuvm_plocked[OF l, of i] ok assms(6) by (auto simp: slot_ok_def)
  let ?v = "set_proc i (pstate_update (\<lambda>_. RUNNING)) u"
  let ?t = "set_cpu c (scheduler_update (\<lambda>_. pt)) ?v"
  have cp: "(\<lambda>d. cproc (cpus ?t d)) = (\<lambda>d. cproc (cpus s d))(c := Some i)"
    using u(3) by (auto simp: penv_def fun_eq_iff)
  have e: "ncpu ?t = ncpu s" "nextpid ?t = nextpid s" "initproc ?t = initproc s" "forkret_first ?t = forkret_first s"
    "ptable ?t = (ptable s)[i := (ptable s ! i)\<lparr>pstate := RUNNING\<rparr>]"
    using u(3,4) procst_lock_more[of ?s s] procst_lock_more[of ?t ?v] by (auto simp: penv_def)
  have "tab_inv (ncpu s) ((\<lambda>d. cproc (cpus s d))(c := Some i)) (nextpid s) (initproc s)
      ((ptable s)[i := (ptable s ! i)\<lparr>pstate := RUNNING\<rparr>])"
    using assms by (intro tab_inv_start) (auto simp: ptab_inv_def)
  then have "ptab_inv ?t" unfolding ptab_inv_def cp e using assms(2) by (simp add: ptab_inv_def)
  moreover have "plocked c ?t" using u(2) by (auto simp: plocked_def lock_free_def held_by_def)
  moreover have "dispatch c i pt s = Inr ?t" using u(1) by (simp add: dispatch_def Let_def)
  moreover have "cproc (cpus ?t c) = Some i" using fun_cong[OF cp, of c] by simp
  moreover have "\<forall>b. pcontext (ptable ?t ! i) \<noteq> Ctx_exit b"
    using ok assms(5,6) unfolding e by (simp add: slot_ok_def)
  ultimately show thesis using that e(1) by blast
qed

lemma kinv_quietI: "ptab_inv s \<Longrightarrow> quiet t \<Longrightarrow> penv t = penv s \<Longrightarrow> ptable t = ptable s \<Longrightarrow> kinv t"
  using ptab_inv_cong[of t s] by (simp add: kinv_def)

lemma penv_set_cpu: "(\<And>u. cproc (f u) = cproc u) \<Longrightarrow> penv (set_cpu c f s) = penv s"
  using procst_lock_more[of "set_cpu c f s" s] by (auto simp: penv_def fun_eq_iff)

lemma plocked_set_cpu:
  "(\<And>u. ncli (f u) = ncli u \<and> eflags_if (f u) = eflags_if u) \<Longrightarrow> plocked c s \<Longrightarrow> plocked c (set_cpu d f s)"
  by (auto simp: plocked_def lock_free_def held_by_def)

lemma quiet_acquire_release:
  fixes s :: "'a procst_scheme"
  assumes "quiet s"
  obtains t where "bindE (acquire c l s) (release c l) = Inr t" "quiet t" "penv t = penv s" "ptable t = ptable s"
proof -
  have f: "cpu_ok (cpus s c)" "lock_free l s" using assms by (auto simp: quiet_cpu_ok quiet_def)
  let ?a = "acquired c l s"
  let ?t = "?a\<lparr>cpus := cpus (touch c s), locks := locks s\<rparr>"
  have r: "bindE (acquire c l s) (release c l) = Inr ?t"
    using acquire_free[OF f] release_acquired[OF f, of ?a] by simp
  have "lockst.more ?t = lockst.more s" by simp
  note procst_lock_more[OF this]
  moreover have "quiet ?t" using assms by (simp add: quiet_def lock_free_def)
  ultimately show thesis using r by (intro that[of ?t]) (auto simp: penv_def)
qed

lemma settle_ok:
  fixes s :: "'a procst_scheme"
  assumes "plocked c s" "ptab_inv s" "cproc (cpus s c) = Some i" "\<forall>b. pcontext (ptable s ! i) \<noteq> Ctx_exit b"
  shows "\<exists>t. settle c s = Inr t \<and> kinv t \<and> penv t = penv s"
proof (cases "pcontext (ptable s ! i)")
  case Ctx_forkret
  obtain t where t: "release c L_ptable s = Inr t" using release_plocked[OF assms(1)] .
  note d = release_plocked_InrD[OF assms(1) t]
  have "\<not> forkret_first t" using assms(2) penvD(5)[OF d(3)] by (simp add: ptab_inv_def)
  then have "settle c s = Inr t" using Ctx_forkret assms(3) t by (simp add: settle_def resume_def forkret_def)
  with kinv_quietI[OF assms(2) d(1,3,2)] d(3) show ?thesis by blast
next
  case (Ctx_yield b)
  let ?s = "set_cpu c (intena_update (\<lambda>_. b)) s"
  have l: "plocked c ?s" using assms(1) by (intro plocked_set_cpu) auto
  obtain t where t: "release c L_ptable ?s = Inr t" using release_plocked[OF l] .
  note d = release_plocked_InrD[OF l t]
  have pe: "penv ?s = penv s" by (intro penv_set_cpu) simp
  then have "kinv t" "penv t = penv s" using d by (auto intro: kinv_quietI[OF assms(2)])
  moreover have "settle c s = Inr t" using Ctx_yield assms(3) t by (simp add: settle_def resume_def)
  ultimately show ?thesis by blast
next
  case (Ctx_sleep l b)
  let ?s = "set_proc i (chan_update (\<lambda>_. Ch_null)) (set_cpu c (intena_update (\<lambda>_. b)) s)"
  have i: "i < length (ptable s)" using ptab_inv_cpu[OF assms(2,3)] by simp
  have pl: "plocked c ?s" using assms(1) plocked_set_cpu[of "intena_update (\<lambda>_. b)" c s c] by simp
  have pe: "penv ?s = penv s" using penv_set_cpu[of "intena_update (\<lambda>_. b)" c s] by simp
  have "tab_inv (ncpu s) (\<lambda>d. cproc (cpus s d)) (nextpid s) (initproc s) (ptable ?s)"
    using assms(2) i ptab_inv_slot[OF assms(2) i] unfolding set_proc_sel procst_frame
    by (intro tab_inv_keep) (auto simp: ptab_inv_def slot_ok_def)
  then have inv: "ptab_inv ?s" using assms(2) penvD[OF pe] by (simp add: ptab_inv_def)
  show ?thesis
  proof (cases "l = L_ptable")
    case True
    then have "settle c s = Inr ?s" using Ctx_sleep assms(3) by (simp add: settle_def resume_def)
    moreover have "cproc (cpus ?s c) = Some i" using assms(3) by simp
    ultimately show ?thesis using inv pl pe unfolding kinv_def by blast
  next
    case False
    obtain t where t: "release c L_ptable ?s = Inr t" using release_plocked[OF pl] .
    note d = release_plocked_InrD[OF pl t]
    obtain u where u: "bindE (acquire c l t) (release c l) = Inr u" "quiet u" "penv u = penv t" "ptable u = ptable t"
      by (rule quiet_acquire_release[OF d(1)])
    have "settle c s = Inr u"
      using Ctx_sleep False assms(3) t u(1) by (simp add: settle_def resume_def bindE_assoc)
    moreover have "kinv u" "penv u = penv s" using u d pe by (auto intro: kinv_quietI[OF inv])
    ultimately show ?thesis by blast
  qed
qed (use assms(4) in blast)

lemma go_settle_ok:
  fixes s :: "'a procst_scheme"
  assumes "plocked c s" "ptab_inv s" "c < ncpu s" "cproc (cpus s c) = None" "choice_ok nxt (ptable s)"
  shows "\<exists>t. bindE (sched_go c nxt s) (settle c) = Inr t \<and> kinv t \<and> cproc (cpus t c) = map_option fst nxt"
proof (cases nxt)
  case None
  obtain t where t: "release c L_ptable s = Inr t" using release_plocked[OF assms(1)] .
  note d = release_plocked_InrD[OF assms(1) t]
  have "settle c t = Inr t" using assms(4) d(4) by (simp add: settle_def)
  with t kinv_quietI[OF assms(2) d(1,3,2)] None assms(4) d(4) show ?thesis by (simp add: sched_go_def)
next
  case (Some ip)
  obtain i pt where ip: "ip = (i, pt)" by (cases ip)
  with Some assms(5) have i: "i < length (ptable s)" "pstate (ptable s ! i) = RUNNABLE"
    by (auto simp: choice_ok_def)
  obtain t where t: "dispatch c i pt s = Inr t" "plocked c t" "ptab_inv t" "cproc (cpus t c) = Some i"
    "\<forall>b. pcontext (ptable t ! i) \<noteq> Ctx_exit b"
    using dispatch_ok[OF assms(1-4) i] .
  from settle_ok[OF t(2-5)] obtain u where "settle c t = Inr u" "kinv u" "penv u = penv t" by blast
  with t(1,4) penvD(6)[of u t c] Some ip show ?thesis by (simp add: sched_go_def)
qed

lemma switch_out_ok:
  fixes s :: "'a procst_scheme"
  assumes "plocked c s" "\<not> forkret_first s" "c < ncpu s"
    and "tab_inv (ncpu s) ((\<lambda>d. cproc (cpus s d))(c := None)) (nextpid s) (initproc s) (ptable s)"
  shows "\<exists>t. switch_out c s = Inr t \<and> kinv t"
proof -
  let ?s = "set_cpu c (cproc_update (\<lambda>_. None)) (switchkvm c s)"
  have m: "lockst.more ?s = lockst.more s" by (simp add: switchkvm_def lcr3_def)
  note p = procst_lock_more[OF m]
  have cp: "(\<lambda>d. cproc (cpus ?s d)) = (\<lambda>d. cproc (cpus s d))(c := None)" "ncpu ?s = ncpu s"
    by (auto simp: switchkvm_def lcr3_def)
  have "plocked c ?s" using assms(1) by (auto simp: plocked_def lock_free_def held_by_def switchkvm_def lcr3_def)
  moreover have "ptab_inv ?s" unfolding ptab_inv_def cp p using assms(2,4) by simp
  moreover have "c < ncpu ?s" "cproc (cpus ?s c) = None" using assms(3) fun_cong[OF cp(1), of c] cp(2) by simp_all
  ultimately have "\<exists>t. bindE (sched_go c (after_swtch (scheduler (cpus ?s c)) (ptable ?s)) ?s) (settle c) = Inr t \<and> kinv t"
    using go_settle_ok[OF _ _ _ _ after_swtch_ok] by blast
  then show ?thesis by (simp add: switch_out_def sched_back_def Let_def)
qed

subsection \<open>Each operation\<close>

lemma tab_inv_map:
  assumes "tab_inv N cp np ip ps"
    and "\<And>p. pstate (f p) = pstate p \<and> parent (f p) = parent p \<and> pid (f p) = pid p \<and> kstack (f p) = kstack p \<and>
      pgdir (f p) = pgdir p \<and> pcontext (f p) = pcontext p \<and> chan (f p) = chan p \<and> priority (f p) = priority p"
  shows "tab_inv N cp np ip (map f ps)"
proof -
  have "slot_ok np (f p) = slot_ok np p" "live (f p) = live p" for p
    using assms(2)[of p] by (simp_all add: slot_ok_def live_def)
  note f = assms(2) this
  have R: "run_inv N cp ps" and S: "slot_inv np ps" and F: "fam_inv ip ps" and W: "wait_inv ps"
    and L: "length ps = NPROC" using assms(1) by (auto simp: tab_inv_def)
  have "run_inv N cp (map f ps)" by (rule run_inv_cong[OF R]) (simp_all add: f)
  moreover have "slot_inv np (map f ps)"
    by (rule slot_inv_cong[OF S]) (use S in \<open>simp_all add: f slot_inv_def\<close>)
  moreover have "fam_inv ip (map f ps)" by (rule fam_inv_cong[OF F]) (simp_all add: f)
  moreover have "wait_inv (map f ps)" using W by (simp add: wait_inv_def waiting_def f)
  ultimately show ?thesis using L by (simp add: tab_inv_def)
qed

lemma round_ok:
  fixes s :: "'a procst_scheme"
  assumes "quiet s" "ptab_inv s" "c < ncpu s" "cproc (cpus s c) = None"
  shows "\<exists>t. bindE (sched_round strat c s) (settle c) = Inr t \<and> kinv t \<and>
    cproc (cpus t c) = map_option fst (switch_start strat (ticks s) (ptable (account s)))"
proof -
  let ?s = "sti c s"
  have q: "quiet ?s" using assms(1) by (auto simp: quiet_def lock_free_def sti_def)
  have pe: "penv ?s = penv s" "ptable ?s = ptable s" by (simp_all add: sti_def penv_set_cpu)
  let ?a = "account (acquired c L_ptable ?s)"
  have a: "plocked c ?a" using plocked_acquired[OF q, of c] by (subst plocked_cong) (auto simp: account_def)
  have e: "penv ?a = penv s" using pe by (simp add: account_def)
  have "ptab_inv ?a"
    unfolding ptab_inv_def using assms(2) penvD[OF e] pe(2)
    by (auto simp: account_def Let_def ptab_inv_def intro!: tab_inv_map)
  moreover have "c < ncpu ?a" "cproc (cpus ?a c) = None" using assms penvD[OF e] by simp_all
  ultimately have "\<exists>t. bindE (sched_go c (switch_start strat (ticks ?a) (ptable ?a)) ?a) (settle c) = Inr t \<and> kinv t \<and>
      cproc (cpus t c) = map_option fst (switch_start strat (ticks ?a) (ptable ?a))"
    by (rule go_settle_ok[OF a _ _ _ switch_start_ok])
  moreover have "ticks ?s = ticks s" using penvD(4)[OF pe(1)] .
  then have "ptable ?a = ptable (account s)" "ticks ?a = ticks s" using pe(2) by (simp_all add: account_def)
  ultimately show ?thesis using acquire_ptable[OF q, of c] by (simp add: sched_round_def Let_def)
qed

lemma ptab_inv_stop:
  assumes "ptab_inv s" "cproc (cpus s c) = Some i"
    and "pstate q = RUNNABLE \<or> pstate q = SLEEPING" "parent q = parent (ptable s ! i)" "slot_ok (nextpid s) q"
    and "pid q = pid (ptable s ! i)" "pstate q = SLEEPING \<Longrightarrow> chan q = Ch_proc i \<Longrightarrow> \<not> dead_child i (ptable s)"
    and "penv t = penv s" "ptable t = (ptable s)[i := q]" "plocked c t"
  shows "\<exists>u. switch_out c t = Inr u \<and> kinv u"
proof (rule switch_out_ok[OF assms(10)])
  note e = penvD[OF assms(8)]
  show "\<not> forkret_first t" "c < ncpu t" using assms(1) e ptab_inv_cpu[OF assms(1,2)] by (simp_all add: ptab_inv_def)
  show "tab_inv (ncpu t) ((\<lambda>d. cproc (cpus t d))(c := None)) (nextpid t) (initproc t) (ptable t)"
    unfolding e assms(9) using assms(1-7) by (intro tab_inv_stop) (auto simp: ptab_inv_def)
qed

lemma running_slot_ok:
  assumes "ptab_inv s" "cproc (cpus s c) = Some i"
  shows "i < length (ptable s)" "slot_ok (nextpid s) (ptable s ! i)" "pstate (ptable s ! i) = RUNNING"
  using ptab_inv_cpu[OF assms] ptab_inv_slot[OF assms(1)] by auto

lemma yield_ok:
  fixes s :: "'a procst_scheme"
  assumes "quiet s" "ptab_inv s" "cproc (cpus s c) = Some i"
  shows "\<exists>t. bindE (yield c s) (switch_out c) = Inr t \<and> kinv t"
proof -
  note r = running_slot_ok[OF assms(2,3)]
  obtain b where y: "yield c s =
    Inr (set_proc i (\<lambda>p. p\<lparr>pstate := RUNNABLE, pcontext := Ctx_yield b\<rparr>) (acquired c L_ptable s))"
    using yield_quiet[OF assms(1,3) r(1)] .
  have "\<exists>u. switch_out c (set_proc i (\<lambda>p. p\<lparr>pstate := RUNNABLE, pcontext := Ctx_yield b\<rparr>) (acquired c L_ptable s)) = Inr u
      \<and> kinv u"
    using r assms(1) by (intro ptab_inv_stop[OF assms(2,3)]) (auto simp: slot_ok_def)
  with y show ?thesis by simp
qed

lemma sleep_ok:
  fixes s :: "'a procst_scheme"
  assumes "quiet s" "ptab_inv s" "cproc (cpus s c) = Some i" "l \<noteq> L_ptable" "ch \<notin> range Ch_proc"
  shows "\<exists>t. bindE (bindE (acquire c l s) (sleep c ch (Some l))) (switch_out c) = Inr t \<and> kinv t"
proof -
  note r = running_slot_ok[OF assms(2,3)]
  obtain b t where t: "bindE (acquire c l s) (sleep c ch (Some l)) = Inr t" "plocked c t" "penv t = penv s"
    "ptable t = (ptable s)[i := (ptable s ! i)\<lparr>chan := ch, pstate := SLEEPING, pcontext := Ctx_sleep l b\<rparr>]"
    using sleep_quiet[OF assms(1,3) r(1) assms(4)] .
  have "\<exists>u. switch_out c t = Inr u \<and> kinv u"
    using r assms(5) by (intro ptab_inv_stop[OF assms(2,3) _ _ _ _ _ t(3,4,2)]) (auto simp: slot_ok_def)
  with t(1) show ?thesis by simp
qed

text \<open>An operation that locks the table, updates it and unlocks it.\<close>

lemma locked_update:
  fixes s :: "'a procst_scheme"
  assumes "quiet s" "plocked c (acquired c L_ptable s) \<Longrightarrow> plocked c t" "penv t = penv s"
    and "tab_inv (ncpu s) (\<lambda>d. cproc (cpus s d)) (nextpid s) (initproc s) (ptable t)" "\<not> forkret_first s"
  shows "\<exists>u. release c L_ptable t = Inr u \<and> kinv u"
proof -
  have l: "plocked c t" using assms(1,2) by simp
  obtain u where u: "release c L_ptable t = Inr u" using release_plocked[OF l] .
  note d = release_plocked_InrD[OF l u]
  have "ptab_inv t" using assms(4,5) penvD[OF assms(3)] by (simp add: ptab_inv_def)
  with kinv_quietI[OF this d(1,3,2)] u show ?thesis by blast
qed

lemma wakeup1_sel [simp]:
  "penv (wakeup1 ch s) = penv s" "cpus (wakeup1 ch s) = cpus s" "locks (wakeup1 ch s) = locks s"
  "plocked c (wakeup1 ch s) = plocked c s" "initproc (wakeup1 ch s) = initproc s"
  "ptable (wakeup1 ch s) = map (wake1 ch) (ptable s)" "ticks (wakeup1 ch s) = ticks s"
  by (simp_all add: wakeup1_ptable) (simp_all add: wakeup1_def plocked_def lock_free_def held_by_def)

lemma wakeup_ok:
  fixes s :: "'a procst_scheme"
  assumes "quiet s" "ptab_inv s"
  shows "\<exists>t. wakeup c ch s = Inr t \<and> kinv t"
proof -
  have "\<exists>u. release c L_ptable (wakeup1 ch (acquired c L_ptable s)) = Inr u \<and> kinv u"
    using assms
    by (intro locked_update[OF assms(1)])
      (auto simp: ptab_inv_def intro: tab_inv_wake)
  then show ?thesis using acquire_ptable[OF assms(1)] by (simp add: wakeup_def)
qed

lemma kill_ok:
  fixes s :: "'a procst_scheme"
  assumes "quiet s" "ptab_inv s"
  shows "\<exists>r t. kill c n s = Inr (r, t) \<and> kinv t"
proof -
  let ?s = "acquired c L_ptable s"
  have s: "tab_inv (ncpu s) (\<lambda>d. cproc (cpus s d)) (nextpid s) (initproc s) (ptable s)" "\<not> forkret_first s"
    using assms(2) by (auto simp: ptab_inv_def)
  show ?thesis
  proof (cases "find_idx (\<lambda>p. pid p = n) (ptable ?s)")
    case None
    have "\<exists>u. release c L_ptable ?s = Inr u \<and> kinv u" using s by (intro locked_update[OF assms(1)]) auto
    with None show ?thesis using acquire_ptable[OF assms(1), of c] by (auto simp: kill_def)
  next
    case (Some i)
    then have i: "i < length (ptable s)" using find_idx_length[OF Some] by simp
    let ?k = "set_proc i (killed_update (\<lambda>_. True)) ?s"
    let ?t = "if pstate (ptable ?k ! i) = SLEEPING then set_proc i (pstate_update (\<lambda>_. RUNNABLE)) ?k else ?k"
    have "tab_inv (ncpu s) (\<lambda>d. cproc (cpus s d)) (nextpid s) (initproc s) (ptable ?t)"
      using i ptab_inv_slot[OF assms(2) i]
      by (cases "pstate (ptable s ! i) = SLEEPING") (auto intro!: tab_inv_keep[OF s(1)] simp: slot_ok_def)
    then have "\<exists>u. release c L_ptable ?t = Inr u \<and> kinv u"
      using s(2) by (intro locked_update[OF assms(1)]) auto
    with Some show ?thesis using acquire_ptable[OF assms(1), of c] by (auto simp: kill_def Let_def)
  qed
qed

lemma exit_ok:
  fixes s :: "'a procst_scheme"
  assumes "quiet s" "ptab_inv s" "cproc (cpus s c) = Some i" "initproc s \<noteq> Some i"
  shows "\<exists>t. bindE (exit_locked c i s) (switch_out c) = Inr t \<and> kinv t"
proof -
  note r = running_slot_ok[OF assms(2,3)]
  let ?a = "acquired c L_ptable s"
  let ?w = "reparent i [0..<length (ptable ?a)] (wakeup1 (chan_of (parent (ptable ?a ! i))) ?a)"
  let ?z = "set_proc i (\<lambda>p. p\<lparr>pstate := ZOMBIE, etime := ticks ?w\<rparr>) ?w"
  have re: "penv (reparent j js u) = penv u \<and> plocked c (reparent j js u) = plocked c u" for j js and u :: "'a procst_scheme"
    by (induction js arbitrary: u) (auto simp: Let_def)
  have w: "penv ?w = penv s" "plocked c ?w" "ptable ?w = bequeath i (initproc s) (ptable s)"
    using re[of i "[0..<length (ptable ?a)]"] reparent_bequeath[of ?a i] assms(1,4) by simp_all
  have cp: "cproc (cpus ?z c) = Some i" using penvD(6)[OF w(1), of c] assms(3) by simp
  obtain b where sch: "sched c Ctx_exit ?z = Inr (set_proc i (pcontext_update (\<lambda>_. Ctx_exit b)) ?z)"
    using sched_plocked[of c ?z i Ctx_exit] cp w r(1) by auto
  let ?t = "set_proc i (pcontext_update (\<lambda>_. Ctx_exit b)) ?z"
  have e: "exit_locked c i s = Inr ?t"
    using acquire_ptable[OF assms(1), of c] sch by (simp add: exit_locked_def Let_def)
  have "\<exists>u. switch_out c ?t = Inr u \<and> kinv u"
  proof (rule switch_out_ok)
    have pe: "penv ?t = penv s" using w(1) by simp
    note p = penvD[OF pe]
    show "plocked c ?t" using w(2) by simp
    show "\<not> forkret_first ?t" "c < ncpu ?t"
      using assms(2) ptab_inv_cpu[OF assms(2,3)] p by (auto simp: ptab_inv_def)
    have t: "ptable ?t = (bequeath i (initproc s) (ptable s))
      [i := (bequeath i (initproc s) (ptable s) ! i)\<lparr>pstate := ZOMBIE, etime := ticks ?w, pcontext := Ctx_exit b\<rparr>]"
      using w(3) r(1) by simp
    show "tab_inv (ncpu ?t) ((\<lambda>d. cproc (cpus ?t d))(c := None)) (nextpid ?t) (initproc ?t) (ptable ?t)"
      unfolding p t using assms(2-4) r bequeath_nth(2,6)[OF r(1), of i "initproc s"]
        bequeath_nth(9)[OF r(1), where i = i and ip = "initproc s" and np = "nextpid s"]
      by (intro tab_inv_exit) (auto simp: ptab_inv_def slot_ok_def)
  qed
  with e show ?thesis by simp
qed

text \<open>The two ways wait and waitx go on from a locked table; \<open>res\<close> is the value returned for a reaped child.\<close>

definition child_turn :: "(int \<Rightarrow> nat \<Rightarrow> 'a procst_scheme \<Rightarrow> 'r) \<Rightarrow> 'r \<Rightarrow> nat \<Rightarrow> nat \<Rightarrow>
    'a procst_scheme \<Rightarrow> fault + ('r outcome \<times> 'a procst_scheme)" where
  "child_turn res none c i s =
     (case find_idx (\<lambda>p. parent p = Some i \<and> pstate p = ZOMBIE) (ptable s) of
        Some j \<Rightarrow> bindE (reap c j s) (\<lambda>(pid, s). bindE (release c L_ptable s) (\<lambda>s. Inr (Done (res pid j s), s)))
      | None \<Rightarrow>
          if (\<forall>p \<in> set (ptable s). parent p \<noteq> Some i) \<or> killed (ptable s ! i)
          then bindE (release c L_ptable s) (\<lambda>s. Inr (Done none, s))
          else bindE (sleep c (Ch_proc i) (Some L_ptable) s) (\<lambda>s. Inr (Asleep, s)))"

lemma wait_turn_child: "wait_turn c i s = child_turn (\<lambda>pid j s. pid) (- 1) c i s"
  by (simp add: wait_turn_def child_turn_def)

lemma waitx_turn_child:
  "waitx_turn c i s = child_turn (\<lambda>pid j s. (pid, ticks s - ctime (ptable s ! j) - rtime (ptable s ! j),
     rtime (ptable s ! j))) (- 1, - 1, - 1) c i s"
  unfolding waitx_turn_def child_turn_def Let_def by (rule refl)

lemma child_turn_inv:
  fixes s :: "'a procst_scheme"
  assumes "plocked c s" "ptab_inv s" "cproc (cpus s c) = Some i" "bindE (child_turn res none c i s) (finish c) = Inr t"
  shows "kinv t"
proof (cases "find_idx (\<lambda>p. parent p = Some i \<and> pstate p = ZOMBIE) (ptable s)")
  case (Some j)
  note j = find_idx_SomeD[OF Some]
  from assms(4) Some obtain r u where u: "reap c j s = Inr (r, u)" "release c L_ptable u = Inr t"
    by (auto simp: child_turn_def finish_def elim!: bindE_InrE)
  note p = reap_plocked[OF assms(1) u(1)] and ok = ptab_inv_slot[OF assms(2)]
  have pu: "plocked c u" "penv u = penv s" using p j by auto
  note e = penvD[OF pu(2)]
  have "ptab_inv u"
    unfolding ptab_inv_def e using assms(2) p(4) j ok[of j]
    by (auto simp: ptab_inv_def slot_ok_def intro!: tab_inv_clear)
  with release_plocked_InrD[OF pu(1) u(2)] show ?thesis by (intro kinv_quietI)
next
  case None
  show ?thesis
  proof (cases "(\<forall>p \<in> set (ptable s). parent p \<noteq> Some i) \<or> killed (ptable s ! i)")
    case True
    with assms(4) None have "release c L_ptable s = Inr t"
      by (auto simp: child_turn_def finish_def elim!: bindE_InrE)
    from release_plocked_InrD[OF assms(1) this] show ?thesis by (intro kinv_quietI[OF assms(2)])
  next
    case False
    note r = running_slot_ok[OF assms(2,3)]
    obtain b where sl: "sleep c (Ch_proc i) (Some L_ptable) s =
      Inr (set_proc i (\<lambda>p. p\<lparr>chan := Ch_proc i, pstate := SLEEPING, pcontext := Ctx_sleep L_ptable b\<rparr>) s)"
      using sleep_plocked[OF assms(1,3) r(1)] .
    let ?t = "set_proc i (\<lambda>p. p\<lparr>chan := Ch_proc i, pstate := SLEEPING, pcontext := Ctx_sleep L_ptable b\<rparr>) s"
    have "\<not> dead_child i (ptable s)" using None by (auto simp: find_idx_None dead_child_def)
    then have "\<exists>u. switch_out c ?t = Inr u \<and> kinv u"
      using r assms(1) by (intro ptab_inv_stop[OF assms(2,3)]) (auto simp: slot_ok_def)
    moreover have "child_turn res none c i s = Inr (Asleep, ?t)"
      unfolding child_turn_def None option.case if_not_P[OF False] sl by simp
    ultimately show ?thesis using assms(4) by (auto simp: finish_def)
  qed
qed

lemma wait_inv_step:
  fixes s :: "'a procst_scheme"
  assumes "quiet s" "ptab_inv s" "cproc (cpus s c) = Some i"
    and "bindE (bindE (curproc c s) (\<lambda>(i, s). bindE (acquire c L_ptable s) (child_turn res none c i))) (finish c) = Inr t"
  shows "kinv t"
proof -
  let ?s = "touch c s"
  have cur: "curproc c s = Inr (i, ?s)" using assms(1,3) by (intro curproc_eq) (auto simp: quiet_cpu_ok)
  have a: "acquire c L_ptable ?s = Inr (acquired c L_ptable ?s)" using assms(1) by (intro acquire_ptable) simp
  have "bindE (child_turn res none c i (acquired c L_ptable ?s)) (finish c) = Inr t"
    using assms(4) by (simp add: cur a)
  then show ?thesis
  proof (rule child_turn_inv[rotated 3])
    show "plocked c (acquired c L_ptable ?s)" using assms(1) by simp
    show "ptab_inv (acquired c L_ptable ?s)" using assms(2) by (subst ptab_inv_cong[of _ s]) simp_all
    show "cproc (cpus (acquired c L_ptable ?s) c) = Some i" using assms(3) by simp
  qed
qed

lemma setpriority_state:
  fixes s :: "'a procst_scheme"
  assumes "ptab_inv s" "cproc (cpus s c) = Some i" "0 \<le> n" "n \<le> 100"
  shows "ptab_inv (set_proc i (priority_update (\<lambda>_. n)) (touch c s))"
proof -
  note r = running_slot_ok[OF assms(1,2)]
  have "penv (set_proc i (priority_update (\<lambda>_. n)) (touch c s)) = penv s" by simp
  note e = penvD[OF this]
  show ?thesis unfolding ptab_inv_def e using assms r
    by (auto simp: ptab_inv_def intro!: tab_inv_keep)
qed

lemma setpriority_inv:
  fixes s :: "'a procst_scheme"
  assumes "quiet s" "ptab_inv s" "cproc (cpus s c) = Some i" "setpriority c n s = Inr (r, y, u)"
  shows "\<not> y \<Longrightarrow> kinv u" and "y \<Longrightarrow> switch_out c u = Inr t \<Longrightarrow> kinv t"
proof -
  let ?p = "set_proc i (priority_update (\<lambda>_. n)) (touch c s)"
  have cur: "curproc c s = Inr (i, touch c s)" using assms(1,3) by (intro curproc_eq) (auto simp: quiet_cpu_ok)
  have t: "ptab_inv (touch c s)" "quiet (touch c s)" "quiet ?p" using assms by (auto simp: ptab_inv_cong[of "touch c s" s])
  have p: "ptab_inv ?p" if "0 \<le> n" "n \<le> 100" using setpriority_state[OF assms(2,3) that] .
  from assms(4) cur show "\<not> y \<Longrightarrow> kinv u"
    using t p by (auto simp: setpriority_def Let_def kinv_def split: if_splits elim!: bindE_InrE)
  have cp: "cproc (cpus ?p c) = Some i" using assms(3) by simp
  from assms(4) cur show "kinv t" if "y" "switch_out c u = Inr t"
  proof (cases "n > 100 \<or> n < 0")
    case False
    then have "yield c ?p = Inr u"
      using assms(4) cur that by (auto simp: setpriority_def Let_def split: if_splits elim!: bindE_InrE)
    with yield_ok[OF t(3) p cp] False that show ?thesis by auto
  qed (use cur that in \<open>auto simp: setpriority_def\<close>)
qed

text \<open>What allocproc leaves in the slot it takes, \<open>k\<close> being the kernel stack.\<close>

definition alloc_slot :: "'a procst_scheme \<Rightarrow> uint \<Rightarrow> proc \<Rightarrow> proc" where
  "alloc_slot s k p = p\<lparr>pstate := EMBRYO, pid := nextpid s, ctime := ticks s, rtime := 0, last_check := ticks s, priority := 60, kstack := k\<rparr>"

lemma allocproc_quiet:
  fixes s :: "'a procst_scheme"
  assumes "quiet s" "allocproc c s = Inr (po, t)"
  shows "quiet t \<and> (po = None \<and> penv t = penv s \<and> ptable t = ptable s \<or>
    (\<exists>i k. i < length (ptable s) \<and> pstate (ptable s ! i) = UNUSED \<and> penv t = penv (s\<lparr>nextpid := nextpid s + 1\<rparr>) \<and>
      (po = None \<and> ptable t = (ptable s)[i := (alloc_slot s k (ptable s ! i))\<lparr>pstate := UNUSED\<rparr>] \<or>
       po = Some i \<and> k \<noteq> 0 \<and>
         ptable t = (ptable s)[i := (alloc_slot s k (ptable s ! i))\<lparr>pcontext := Ctx_forkret\<rparr>])))"
proof -
  let ?a = "acquired c L_ptable s"
  note aq = acquire_ptable[OF assms(1), of c]
  show ?thesis
  proof (cases "find_idx (\<lambda>p. pstate p = UNUSED) (ptable s)")
    case None
    then have "po = None" "release c L_ptable ?a = Inr t"
      using assms(2) by (auto simp: allocproc_def aq elim!: bindE_InrE)
    with release_plocked_InrD[of c ?a t] assms(1) show ?thesis by simp
  next
    case (Some i)
    note i = find_idx_SomeD[OF Some]
    let ?b = "set_proc i (\<lambda>p. p\<lparr>ctime := ticks s, rtime := 0, last_check := ticks s, priority := 60\<rparr>)
      ((set_proc i (\<lambda>p. p\<lparr>pstate := EMBRYO, pid := nextpid s\<rparr>) ?a)\<lparr>nextpid := nextpid s + 1\<rparr>)"
    from assms(2) Some obtain u k v where u: "release c L_ptable ?b = Inr u" and k: "kalloc c u = Inr (k, v)"
      and t: "if k = 0 then po = None \<and> t = set_proc i (pstate_update (\<lambda>_. UNUSED)) (set_proc i (kstack_update (\<lambda>_. k)) v)
        else po = Some i \<and> t = set_proc i (pcontext_update (\<lambda>_. Ctx_forkret)) (set_proc i (kstack_update (\<lambda>_. k)) v)"
      by (auto simp: allocproc_def aq Let_def elim!: bindE_InrE split: if_splits)
    have lb: "plocked c ?b" using plocked_acquired[OF assms(1), of c] by (subst plocked_cong[of _ ?a]) simp_all
    note d = release_plocked_InrD[OF lb u]
    note m = kalloc_mframe[OF quiet_kready[OF d(1)] k]
    note mp = mframe_procst[OF m]
    have pb: "penv ?b = penv (s\<lparr>nextpid := nextpid s + 1\<rparr>)" by (simp add: penv_def)
    have pt: "ptable ?b = (ptable s)[i := (ptable s ! i)\<lparr>pstate := EMBRYO, pid := nextpid s, ctime := ticks s, rtime := 0,
        last_check := ticks s, priority := 60\<rparr>]" using i by simp
    have "quiet v" using quiet_mframe[OF d(1) m] .
    moreover have "penv v = penv (s\<lparr>nextpid := nextpid s + 1\<rparr>)" using mp d pb by simp
    moreover have "ptable v = ptable ?b" using mp d by simp
    ultimately have "quiet t" "penv t = penv (s\<lparr>nextpid := nextpid s + 1\<rparr>)"
      "po = None \<and> ptable t = (ptable s)[i := (alloc_slot s k (ptable s ! i))\<lparr>pstate := UNUSED\<rparr>] \<or>
       po = Some i \<and> k \<noteq> 0 \<and> ptable t = (ptable s)[i := (alloc_slot s k (ptable s ! i))\<lparr>pcontext := Ctx_forkret\<rparr>]"
      using t i pt by (auto simp: alloc_slot_def split: if_splits)
    with i show ?thesis by blast
  qed
qed

definition fork_child :: "'a procst_scheme \<Rightarrow> nat \<Rightarrow> proc \<Rightarrow> bool" where
  "fork_child s i q \<longleftrightarrow> pstate q = RUNNABLE \<and> parent q = Some i \<and> pid q = nextpid s \<and> kstack q \<noteq> 0 \<and> pgdir q \<noteq> 0 \<and>
     pcontext q = Ctx_forkret \<and> priority q = 60 \<and> ctime q = ticks s \<and> sz q = sz (ptable s ! i) \<and>
     tf q = (tf (ptable s ! i))\<lparr>tf_eax := 0\<rparr> \<and> pname q = take 15 (pname (ptable s ! i))"

lemma fork_late:
  fixes s t u :: "'a procst_scheme"
  assumes q: "quiet u" "penv u = penv s'" and np: "np < length (ptable u)" "np \<noteq> i"
    and dup: "files_only dup"
    and r: "fork_finish dup c i np u = Inr (r, t)"
  shows "quiet t \<and> penv t = penv s' \<and> r = pid (ptable u ! np) \<and> (\<exists>f w. ptable t = (ptable u)[np := (ptable u ! np)
    \<lparr>ofile := f, cwd := w, pname := take 15 (pname (ptable u ! i)), pstate := RUNNABLE\<rparr>])"
proof -
  from r obtain v where v: "dup i np u = Inr v" by (auto simp: fork_finish_def elim!: bindE_InrE)
  from dup v q(1) obtain f w where vq: "quiet v" "penv v = penv u"
    and vt: "ptable v = (ptable u)[np := (ptable u ! np)\<lparr>ofile := f, cwd := w\<rparr>]"
    unfolding files_only_def by blast
  let ?n = "set_proc np (pname_update (\<lambda>_. take 15 (pname (ptable v ! i)))) v"
  let ?a = "set_proc np (pstate_update (\<lambda>_. RUNNABLE)) (acquired c L_ptable ?n)"
  have qn: "quiet ?n" using vq by simp
  have la: "plocked c ?a" using plocked_acquired[OF qn, of c] by simp
  from r v acquire_ptable[OF qn, of c] have rel: "release c L_ptable ?a = Inr t" "r = pid (ptable ?n ! np)"
    by (auto simp: fork_finish_def Let_def elim!: bindE_InrE)
  note d = release_plocked_InrD[OF la rel(1)]
  have "r = pid (ptable u ! np)" using rel(2) vt np by simp
  moreover have "penv t = penv s'" using d(3) vq(2) q(2) by simp
  moreover have "ptable t = (ptable u)[np := (ptable u ! np)
    \<lparr>ofile := f, cwd := w, pname := take 15 (pname (ptable u ! i)), pstate := RUNNABLE\<rparr>]"
    using d(2) vt np by simp
  ultimately show ?thesis using d(1) by blast
qed

definition fork_post :: "'a procst_scheme \<Rightarrow> nat \<Rightarrow> int \<Rightarrow> 'a procst_scheme \<Rightarrow> bool" where
  "fork_post s i r t \<longleftrightarrow> quiet t \<and> (r = - 1 \<and> penv t = penv s \<and> ptable t = ptable s \<or>
    (\<exists>np q. np < length (ptable s) \<and> pstate (ptable s ! np) = UNUSED \<and> penv t = penv (s\<lparr>nextpid := nextpid s + 1\<rparr>) \<and>
      ptable t = (ptable s)[np := q] \<and>
      (r = - 1 \<and> pstate q = UNUSED \<and> parent q = parent (ptable s ! np) \<and> priority q = 60 \<or>
       r = nextpid s \<and> fork_child s i q)))"

lemma fork_postI:
  "quiet t \<Longrightarrow> np < length (ptable s) \<Longrightarrow> pstate (ptable s ! np) = UNUSED \<Longrightarrow> penv t = penv (s\<lparr>nextpid := nextpid s + 1\<rparr>) \<Longrightarrow>
   ptable t = (ptable s)[np := q] \<Longrightarrow>
   r = - 1 \<and> pstate q = UNUSED \<and> parent q = parent (ptable s ! np) \<and> priority q = 60 \<or> r = nextpid s \<and> fork_child s i q \<Longrightarrow>
   fork_post s i r t"
  unfolding fork_post_def by blast

lemma fork_spec:
  fixes s :: "'a procst_scheme"
  assumes qs: "quiet s" and inv: "ptab_inv s" and cp: "cproc (cpus s c) = Some i" and dup: "files_only dup"
    and f: "fork dup c s = Inr (r, t)"
  shows "fork_post s i r t"
proof -
  note ri = running_slot_ok[OF inv cp]
  have cur: "curproc c s = Inr (i, touch c s)" using qs cp by (intro curproc_eq) (auto simp: quiet_cpu_ok)
  from f obtain po s1 where a: "allocproc c (touch c s) = Inr (po, s1)" by (auto simp: fork_def cur elim!: bindE_InrE)
  have q0: "quiet (touch c s)" using qs by simp
  have al: "alloc_slot (touch c s) = alloc_slot s" by (intro ext) (simp add: alloc_slot_def)
  have pn: "penv ((touch c s)\<lparr>nextpid := nextpid s + 1\<rparr>) = penv (s\<lparr>nextpid := nextpid s + 1\<rparr>)"
    by (simp add: penv_def)
  note A = allocproc_quiet[OF q0 a, unfolded al procst_frame penv_simps pn]
  show ?thesis
  proof (cases po)
    case None
    then have "r = - 1" "t = s1" using f by (simp_all add: fork_def cur a)
    from A None consider "quiet s1" "penv s1 = penv s" "ptable s1 = ptable s"
      | np k where "quiet s1" "np < length (ptable s)" "pstate (ptable s ! np) = UNUSED"
          "penv s1 = penv (s\<lparr>nextpid := nextpid s + 1\<rparr>)"
          "ptable s1 = (ptable s)[np := (alloc_slot s k (ptable s ! np))\<lparr>pstate := UNUSED\<rparr>]" by auto
    then show ?thesis
    proof cases
      case 1
      with \<open>r = - 1\<close> \<open>t = s1\<close> show ?thesis by (simp add: fork_post_def)
    next
      case 2
      then show ?thesis using \<open>r = - 1\<close> \<open>t = s1\<close> by (intro fork_postI) (auto simp: alloc_slot_def)
    qed
  next
    case (Some np)
    with A obtain k where s1: "quiet s1" "np < length (ptable s)" "pstate (ptable s ! np) = UNUSED" "k \<noteq> 0"
      "penv s1 = penv (s\<lparr>nextpid := nextpid s + 1\<rparr>)"
      "ptable s1 = (ptable s)[np := (alloc_slot s k (ptable s ! np))\<lparr>pcontext := Ctx_forkret\<rparr>]" by auto
    have ne: "np \<noteq> i" using s1(3) ri(3) by auto
    from f Some obtain d s2 where cu: "copyuvm c (pgdir (ptable s1 ! i)) (sz (ptable s1 ! i)) s1 = Inr (d, s2)"
      by (auto simp: fork_def cur a elim!: bindE_InrE)
    note m = copyuvm_mframe[OF quiet_kready[OF s1(1)] cu]
    note m2 = mframe_procst[OF m] quiet_mframe[OF s1(1) m]
    let ?s3 = "set_proc np (pgdir_update (\<lambda>_. d)) s2"
    have q3: "quiet ?s3" using m2 by simp
    show ?thesis
    proof (cases "d = 0")
      case True
      with f Some obtain s4 where k4: "kfree c (kstack (ptable ?s3 ! np)) ?s3 = Inr s4"
        and rt: "r = - 1" "t = set_proc np (\<lambda>p. p\<lparr>kstack := 0, pstate := UNUSED\<rparr>) s4"
        by (auto simp: fork_def cur a cu Let_def elim!: bindE_InrE)
      note m4 = kfree_mframe[OF quiet_kready[OF q3] k4]
      note p4 = mframe_procst[OF m4] quiet_mframe[OF q3 m4]
      have e: "ptable t = (ptable s)[np := (alloc_slot s k (ptable s ! np))
          \<lparr>pcontext := Ctx_forkret, pgdir := d, kstack := 0, pstate := UNUSED\<rparr>]" using rt p4 m2 s1 by simp
      show ?thesis using rt p4 m2 s1 by (intro fork_postI[OF _ s1(2,3) _ e]) (auto simp: alloc_slot_def)
    next
      case False
      let ?s5 = "set_proc np (\<lambda>p. p\<lparr>sz := sz (ptable ?s3 ! i), parent := Some i,
        tf := (tf (ptable ?s3 ! i))\<lparr>tf_eax := 0\<rparr>\<rparr>) ?s3"
      have ff: "fork_finish dup c i np ?s5 = Inr (r, t)"
        using f Some False by (simp add: fork_def cur a cu Let_def)
      have "quiet t \<and> penv t = penv (s\<lparr>nextpid := nextpid s + 1\<rparr>) \<and> r = pid (ptable ?s5 ! np) \<and>
        (\<exists>f w. ptable t = (ptable ?s5)[np := (ptable ?s5 ! np)
          \<lparr>ofile := f, cwd := w, pname := take 15 (pname (ptable ?s5 ! i)), pstate := RUNNABLE\<rparr>])"
        using dup q3 m2 s1 ne by (intro fork_late[OF _ _ _ _ _ ff]) auto
      then obtain fs w where q: "quiet t" "penv t = penv (s\<lparr>nextpid := nextpid s + 1\<rparr>)" "r = pid (ptable ?s5 ! np)"
        "ptable t = (ptable ?s5)[np := (ptable ?s5 ! np)
          \<lparr>ofile := fs, cwd := w, pname := take 15 (pname (ptable ?s5 ! i)), pstate := RUNNABLE\<rparr>]" by blast
      let ?q = "(alloc_slot s k (ptable s ! np))\<lparr>pcontext := Ctx_forkret, pgdir := d, sz := sz (ptable s ! i),
        parent := Some i, tf := (tf (ptable s ! i))\<lparr>tf_eax := 0\<rparr>, ofile := fs, cwd := w,
        pname := take 15 (pname (ptable s ! i)), pstate := RUNNABLE\<rparr>"
      have "ptable t = (ptable s)[np := ?q]" using q(4) m2 s1 ne by simp
      moreover have "r = nextpid s" using q(3) m2 s1 ne by (simp add: alloc_slot_def)
      moreover have "fork_child s i ?q" using False s1(4) by (simp add: fork_child_def alloc_slot_def)
      ultimately show ?thesis using q(1,2) s1(2,3) by (intro fork_postI) auto
    qed
  qed
qed

lemma fork_inv:
  assumes "quiet s" "ptab_inv s" "cproc (cpus s c) = Some i" "files_only dup" "fork dup c s = Inr (r, t)"
  shows "kinv t"
proof -
  note R = running_slot_ok[OF assms(2,3)]
  from fork_spec[OF assms] have q: "quiet t" by (simp add: fork_post_def)
  from fork_spec[OF assms] consider "penv t = penv s" "ptable t = ptable s"
    | np q where "np < length (ptable s)" "pstate (ptable s ! np) = UNUSED" "penv t = penv (s\<lparr>nextpid := nextpid s + 1\<rparr>)"
      "ptable t = (ptable s)[np := q]" "pstate q = UNUSED \<and> parent q = parent (ptable s ! np) \<and> priority q = 60 \<or> fork_child s i q"
    unfolding fork_post_def by blast
  then show ?thesis
  proof cases
    case 1
    then show ?thesis using q by (intro kinv_quietI[OF assms(2)])
  next
    case 2
    have T: "tab_inv (ncpu s) (\<lambda>d. cproc (cpus s d)) (nextpid s) (initproc s) (ptable s)" "\<not> forkret_first s"
      using assms(2) by (auto simp: ptab_inv_def)
    have np: "0 < nextpid s" "parent (ptable s ! np) = None"
      using T(1) 2(1,2) by (auto simp: tab_inv_def slot_inv_def fam_inv_def)
    have "tab_inv (ncpu s) (\<lambda>d. cproc (cpus s d)) (nextpid s + 1) (initproc s) ((ptable s)[np := q])"
      using 2(5)
    proof
      assume "pstate q = UNUSED \<and> parent q = parent (ptable s ! np) \<and> priority q = 60"
      with 2(1,2) np show ?thesis by (intro tab_inv_clear[OF T(1)]) auto
    next
      assume f: "fork_child s i q"
      have "live (ptable s ! i)" using R(3) by (simp add: live_def)
      with f np 2(1,2) R(1) show ?thesis
        by (intro tab_inv_new[OF T(1), where j = i]) (auto simp: fork_child_def slot_ok_def)
    qed
    with T(2) penvD[OF 2(3)] 2(4) q show ?thesis by (simp add: kinv_def ptab_inv_def)
  qed
qed

lemma switchuvm_quiet:
  fixes s :: "'a procst_scheme"
  assumes "quiet s" "switchuvm c (Some i) s = Inr t"
  shows "quiet t" "penv t = penv s" "ptable t = ptable s"
proof -
  let ?f = "\<lambda>u. u\<lparr>ts_ss0 := push_bit 3 SEG_KDATA, ts_esp0 := kstack (ptable s ! i) + KSTACKSIZE, ts_iomb := 0xFFFF,
    tr := push_bit 3 SEG_TSS\<rparr>"
  let ?u = "lcr3 c (V2P (pgdir (ptable s ! i))) (set_cpu c ?f (pushcli c s))"
  have t: "popcli c ?u = Inr t" using assms(2) by (simp add: switchuvm_def Let_def split: if_splits)
  then have m: "lockst.more t = lockst.more s" "ncpu t = ncpu s" "quiet t" "\<And>d. cproc (cpus t d) = cproc (cpus s d)"
    using assms(1) by (auto simp: popcli_def Let_def quiet_def lock_free_def lcr3_def sti_def split: if_splits)
  note p = procst_lock_more[OF m(1)]
  from m p show "quiet t" "penv t = penv s" "ptable t = ptable s" by (auto simp: penv_def)
qed

lemma growproc_inv:
  fixes s :: "'a procst_scheme"
  assumes "quiet s" "ptab_inv s" "cproc (cpus s c) = Some i" "growproc c n s = Inr (r, t)"
  shows "kinv t"
proof -
  note R = running_slot_ok[OF assms(2,3)]
  have cur: "curproc c s = Inr (i, touch c s)" using assms(1,3) by (intro curproc_eq) (auto simp: quiet_cpu_ok)
  let ?p = "ptable s ! i"
  from assms(4) obtain z u where z: "(if n > 0 then allocuvm c (pgdir ?p) (sz ?p) (sz ?p + of_int n) (touch c s)
      else if n < 0 then deallocuvm c (pgdir ?p) (sz ?p) (sz ?p + of_int n) (touch c s)
      else Inr (sz ?p, touch c s)) = Inr (z, u)"
    and t: "if n \<noteq> 0 \<and> z = 0 then t = u else switchuvm c (Some i) (set_proc i (sz_update (\<lambda>_. z)) u) = Inr t"
    by (auto simp: growproc_def cur Let_def elim!: bindE_InrE split: if_splits)
  have q0: "quiet (touch c s)" using assms(1) by simp
  have m: "mframe c (touch c s) u"
    using z allocuvm_mframe[OF quiet_kready[OF q0]] deallocuvm_mframe[OF quiet_kready[OF q0]]
    by (auto split: if_splits)
  note mp = mframe_procst[OF m] quiet_mframe[OF q0 m]
  have iu: "ptab_inv u" using assms(2) mp by (subst ptab_inv_cong[of _ s]) simp_all
  show ?thesis
  proof (cases "n \<noteq> 0 \<and> z = 0")
    case True
    with t mp iu show ?thesis by (simp add: kinv_def)
  next
    case False
    let ?v = "set_proc i (sz_update (\<lambda>_. z)) u"
    have "tab_inv (ncpu ?v) (\<lambda>d. cproc (cpus ?v d)) (nextpid ?v) (initproc ?v) (ptable ?v)"
      using iu R mp unfolding set_proc_sel
      by (intro tab_inv_keep) (auto simp: ptab_inv_def slot_ok_def)
    then have iv: "ptab_inv ?v" using iu by (simp add: ptab_inv_def)
    have qv: "quiet ?v" using mp by simp
    from False t have "switchuvm c (Some i) ?v = Inr t" by (simp split: if_splits)
    from switchuvm_quiet[OF qv this] show ?thesis by (intro kinv_quietI[OF iv])
  qed
qed

text \<open>
  While a process holds the table inside wait, the operations that need the table's lock wait
  for it; setpriority without a yield and growproc do not need it and keep the invariant.
\<close>

lemma plocked_stuck:
  assumes "plocked d s"
  shows "acquire c L_ptable s \<noteq> Inr t" "acquire c L_ptable (touch c' s) \<noteq> Inr t"
    "c \<noteq> d \<Longrightarrow> acquire c L_ptable (sti c s) \<noteq> Inr t"
proof -
  show "acquire c L_ptable s \<noteq> Inr t" using acquire_plocked[OF assms, of c] by simp
  have "plocked d (touch c' s)" using assms by simp
  then show "acquire c L_ptable (touch c' s) \<noteq> Inr t" using acquire_plocked[of d "touch c' s" c] by simp
  assume "c \<noteq> d"
  then have "plocked d (sti c s)" using assms by (auto simp: plocked_def sti_def lock_free_def held_by_def)
  then show "acquire c L_ptable (sti c s) \<noteq> Inr t" using acquire_plocked[of d "sti c s" c] by simp
qed

lemma plocked_sleep_stuck:
  fixes s :: "'a procst_scheme"
  assumes "plocked d s" "l \<noteq> L_ptable"
  shows "bindE (acquire c l s) (sleep c ch (Some l)) \<noteq> Inr t"
proof
  assume "bindE (acquire c l s) (sleep c ch (Some l)) = Inr t"
  then obtain a po u v where a: "acquire c l s = Inr a" "myproc c a = Inr (po, u)" "acquire c L_ptable u = Inr v"
    using assms(2) by (auto simp: sleep_def elim!: bindE_InrE split: option.splits)
  have ok: "cpu_ok (cpus s c)" using assms(1) by (rule plocked_cpu_ok)
  then have ad: "a = acquired c l s" using acquire_InrD[OF ok a(1)] by simp
  have oka: "cpu_ok (cpus a c)" using ok unfolding ad by (auto simp: cpu_ok_def)
  then have ud: "u = touch c a" using a(2) by (simp add: myproc_def Let_def popcli_pushcli)
  have "locked (locks u L_ptable) = 0" using acquire_InrD[OF _ a(3)] oka ud by simp
  moreover have "locked (locks u L_ptable) = locked (locks s L_ptable)" using ud ad assms(2) by simp
  ultimately show False using assms(1) by (simp add: plocked_def held_by_def)
qed

lemma switchuvm_plocked_any:
  fixes s :: "'a procst_scheme"
  assumes "plocked d s" "switchuvm c (Some i) s = Inr t"
  shows "plocked d t" "penv t = penv s" "ptable t = ptable s"
proof -
  let ?f = "\<lambda>u. u\<lparr>ts_ss0 := push_bit 3 SEG_KDATA, ts_esp0 := kstack (ptable s ! i) + KSTACKSIZE, ts_iomb := 0xFFFF,
    tr := push_bit 3 SEG_TSS\<rparr>"
  let ?u = "lcr3 c (V2P (pgdir (ptable s ! i))) (set_cpu c ?f (pushcli c s))"
  have t: "popcli c ?u = Inr t" using assms(2) by (simp add: switchuvm_def Let_def split: if_splits)
  then have m: "lockst.more t = lockst.more s" "ncpu t = ncpu s" "plocked d t" "\<And>d. cproc (cpus t d) = cproc (cpus s d)"
    using assms(1) by (cases "c = d";
      auto simp: popcli_def Let_def plocked_def held_by_def lock_free_def lcr3_def sti_def split: if_splits)+
  note p = procst_lock_more[OF m(1)]
  from m p show "plocked d t" "penv t = penv s" "ptable t = ptable s" by (auto simp: penv_def)
qed

lemma kinv_plockedI:
  "ptab_inv s \<Longrightarrow> plocked d t \<Longrightarrow> cproc (cpus s d) = Some j \<Longrightarrow> penv t = penv s \<Longrightarrow> ptable t = ptable s \<Longrightarrow> kinv t"
  using ptab_inv_cong[of t s] penvD(6)[of t s d] by (auto simp: kinv_def)

lemma plocked_mframe_any: "plocked d s \<Longrightarrow> mframe c s t \<Longrightarrow> plocked d t"
  using plocked_cong[of t s d] plocked_cong[of t "touch c s" d] by (auto simp: mframe_def)

lemma growproc_locked_inv:
  fixes s :: "'a procst_scheme"
  assumes "plocked d s" "ptab_inv s" "cproc (cpus s d) = Some j" "cproc (cpus s c) = Some i" "growproc c n s = Inr (r, t)"
  shows "kinv t"
proof -
  note R = running_slot_ok[OF assms(2,4)]
  have cur: "curproc c s = Inr (i, touch c s)" using assms(1,4) by (intro curproc_eq) (auto simp: plocked_cpu_ok)
  let ?p = "ptable s ! i"
  from assms(5) obtain z u where z: "(if n > 0 then allocuvm c (pgdir ?p) (sz ?p) (sz ?p + of_int n) (touch c s)
      else if n < 0 then deallocuvm c (pgdir ?p) (sz ?p) (sz ?p + of_int n) (touch c s)
      else Inr (sz ?p, touch c s)) = Inr (z, u)"
    and t: "if n \<noteq> 0 \<and> z = 0 then t = u else switchuvm c (Some i) (set_proc i (sz_update (\<lambda>_. z)) u) = Inr t"
    by (auto simp: growproc_def cur Let_def elim!: bindE_InrE split: if_splits)
  have q0: "plocked d (touch c s)" using assms(1) by simp
  have m: "mframe c (touch c s) u"
    using z allocuvm_mframe[OF plocked_kready[OF q0]] deallocuvm_mframe[OF plocked_kready[OF q0]]
    by (auto split: if_splits)
  note mp = mframe_procst[OF m] plocked_mframe_any[OF q0 m]
  have iu: "ptab_inv u" "penv u = penv s" using assms(2) mp by (simp_all add: ptab_inv_cong[of u s])
  show ?thesis
  proof (cases "n \<noteq> 0 \<and> z = 0")
    case True
    with t mp iu assms(3) show ?thesis using penvD(6)[OF iu(2), of d] by (auto simp: kinv_def)
  next
    case False
    let ?v = "set_proc i (sz_update (\<lambda>_. z)) u"
    have "tab_inv (ncpu ?v) (\<lambda>d. cproc (cpus ?v d)) (nextpid ?v) (initproc ?v) (ptable ?v)"
      using iu R mp unfolding set_proc_sel
      by (intro tab_inv_keep) (auto simp: ptab_inv_def slot_ok_def)
    then have iv: "ptab_inv ?v" using iu by (simp add: ptab_inv_def)
    have qv: "plocked d ?v" "cproc (cpus ?v d) = Some j" using mp assms(3) penvD(6)[OF iu(2), of d] by simp_all
    from False t have "switchuvm c (Some i) ?v = Inr t" by (simp split: if_splits)
    from switchuvm_plocked_any[OF qv(1) this] show ?thesis using qv(2) by (intro kinv_plockedI[OF iv])
  qed
qed

lemma setpriority_locked_inv:
  fixes s :: "'a procst_scheme"
  assumes "plocked d s" "ptab_inv s" "cproc (cpus s d) = Some j" "cproc (cpus s c) = Some i"
    and "setpriority c n s = Inr (r, y, u)"
  shows "kinv u \<and> \<not> y"
proof -
  let ?p = "set_proc i (priority_update (\<lambda>_. n)) (touch c s)"
  have cur: "curproc c s = Inr (i, touch c s)" using assms(1,4) by (intro curproc_eq) (auto simp: plocked_cpu_ok)
  have t: "ptab_inv (touch c s)" "plocked d (touch c s)" "plocked d ?p"
    using assms by (auto simp: ptab_inv_cong[of "touch c s" s])
  have p: "ptab_inv ?p" if "0 \<le> n" "n \<le> 100" using setpriority_state[OF assms(2,4) that] .
  have "yield c ?p \<noteq> Inr v" for v using plocked_stuck(1)[OF t(3), of c] by (auto simp: yield_def elim!: bindE_InrE)
  then have y: "\<not> y" using assms(5) cur
    by (auto simp: setpriority_def Let_def split: if_splits elim!: bindE_InrE)
  have "u = touch c s \<or> u = ?p \<and> 0 \<le> n \<and> n \<le> 100"
    using assms(5) cur y by (auto simp: setpriority_def Let_def split: if_splits elim!: bindE_InrE)
  moreover have "cproc (cpus (touch c s) d) = Some j" "cproc (cpus ?p d) = Some j" using assms(3) by simp_all
  ultimately show ?thesis using t p y unfolding kinv_def by blast
qed

subsection \<open>The invariant holds in every reachable state\<close>

lemma kinv_cases:
  assumes "kinv s"
  obtains "quiet s" "ptab_inv s"
  | d j where "plocked d s" "cproc (cpus s d) = Some j" "ptab_inv s"
  using assms by (auto simp: kinv_def)

lemma kstep_quiet:
  fixes s :: "'a procst_scheme"
  assumes "kstep strat s t" "quiet s" "ptab_inv s"
  shows "kinv t"
  using assms
proof (induction rule: kstep.induct)
  case (k_tick s)
  then show ?case by (simp add: kinv_def ptab_inv_def quiet_def lock_free_def)
next
  case (k_round c s t)
  then show ?case using round_ok[of s c strat] by auto
next
  case (k_yield s c i t)
  then show ?case using yield_ok[of s c i] by auto
next
  case (k_sleep s c i l ch t)
  then show ?case using sleep_ok[of s c i l ch] by auto
next
  case (k_wakeup c ch s t)
  then show ?case using wakeup_ok[of s c ch] by auto
next
  case (k_kill c n s r t)
  then show ?case using kill_ok[of s c n] by auto
next
  case (k_fork s c i dup r t)
  then show ?case by (intro fork_inv)
next
  case (k_exit s c i t)
  then show ?case using exit_ok[of s c i] by auto
next
  case (k_wait s c i t)
  then show ?case by (intro wait_inv_step[of s c i]) (auto simp: wait_def wait_turn_child[abs_def])
next
  case (k_waitx s c i t)
  then show ?case by (intro wait_inv_step[of s c i]) (auto simp: waitx_def waitx_turn_child[abs_def])
next
  case (k_setpriority s c i n r t)
  then show ?case using setpriority_inv(1)[of s c i n r False t] by simp
next
  case (k_setpriority_yield s c i n r u t)
  then show ?case using setpriority_inv(2)[of s c i n r True u t] by simp
next
  case (k_growproc s c i n r t)
  then show ?case by (intro growproc_inv)
qed (auto simp: quiet_def lock_free_def held_by_def)

lemma plocked_again:
  assumes "plocked d s" "held_by c L_ptable s"
  shows "c = d"
  using assms by (simp add: plocked_def held_by_def)

lemma kstep_locked:
  fixes s :: "'a procst_scheme"
  assumes "kstep strat s t" "plocked d s" "cproc (cpus s d) = Some j" "ptab_inv s"
  shows "kinv t"
  using assms
proof (induction rule: kstep.induct)
  case (k_tick s)
  then show ?case
    by (auto simp: kinv_def ptab_inv_def plocked_def lock_free_def held_by_def)
next
  case (k_round c s t)
  then have "c \<noteq> d" by auto
  with k_round plocked_stuck(3)[of d s c] show ?case by (auto simp: sched_round_def elim!: bindE_InrE)
next
  case (k_yield s c i t)
  then show ?case using plocked_stuck(1)[of d s c] by (auto simp: yield_def elim!: bindE_InrE)
next
  case (k_sleep s c i l ch t)
  from k_sleep.hyps(4) obtain u where "bindE (acquire c l s) (sleep c ch (Some l)) = Inr u"
    by (rule bindE_InrE)
  with plocked_sleep_stuck[OF k_sleep.prems(1) k_sleep.hyps(2)] show ?case by blast
next
  case (k_wakeup c ch s t)
  then show ?case using plocked_stuck(1)[of d s c] by (auto simp: wakeup_def elim!: bindE_InrE)
next
  case (k_kill c n s r t)
  then show ?case using plocked_stuck(1)[of d s c] by (auto simp: kill_def elim!: bindE_InrE)
next
  case (k_fork s c i dup r t)
  have "curproc c s = Inr (i, touch c s)"
    using k_fork by (intro curproc_eq) (auto simp: plocked_cpu_ok)
  with k_fork plocked_stuck(2)[of d s c c] show ?case by (auto simp: fork_def allocproc_def elim!: bindE_InrE)
next
  case (k_exit s c i t)
  then show ?case using plocked_stuck(1)[of d s c] by (auto simp: exit_locked_def elim!: bindE_InrE)
next
  case (k_wait s c i t)
  have "curproc c s = Inr (i, touch c s)"
    using k_wait by (intro curproc_eq) (auto simp: plocked_cpu_ok)
  with k_wait plocked_stuck(2)[of d s c c] show ?case by (auto simp: wait_def elim!: bindE_InrE)
next
  case (k_wait_again s c i t)
  then have "c = d" by (blast dest: plocked_again)
  with k_wait_again show ?case by (intro child_turn_inv[of c s i]) (simp_all add: wait_turn_child)
next
  case (k_waitx s c i t)
  have "curproc c s = Inr (i, touch c s)"
    using k_waitx by (intro curproc_eq) (auto simp: plocked_cpu_ok)
  with k_waitx plocked_stuck(2)[of d s c c] show ?case by (auto simp: waitx_def elim!: bindE_InrE)
next
  case (k_waitx_again s c i t)
  then have "c = d" by (blast dest: plocked_again)
  with k_waitx_again show ?case by (intro child_turn_inv[of c s i]) (simp_all add: waitx_turn_child)
next
  case (k_setpriority s c i n r t)
  then show ?case using setpriority_locked_inv[of d s j c i n r False t] by simp
next
  case (k_setpriority_yield s c i n r u t)
  then show ?case using setpriority_locked_inv[of d s j c i n r True u] by simp
next
  case (k_growproc s c i n r t)
  then show ?case by (intro growproc_locked_inv[of d s j c i n r t])
qed

lemma kstep_kinv: "kinv s \<Longrightarrow> kstep strat s t \<Longrightarrow> kinv t"
  by (erule kinv_cases) (auto intro: kstep_quiet kstep_locked)

interpretation ksys: inv_system kstart "kstep strat" kinv for strat
  by unfold_locales (auto intro: kstart_kinv kstep_kinv)

lemma reach_tab_inv:
  "reach kstart (kstep strat) s \<Longrightarrow>
   tab_inv (ncpu s) (\<lambda>d. cproc (cpus s d)) (nextpid s) (initproc s) (ptable s)"
  using ksys.reach_inv[of strat s] by (auto simp: kinv_def ptab_inv_def)

lemma reach_quiet:
  assumes "reach kstart (kstep strat) s" "lock_free L_ptable s"
  shows "quiet s" "ptab_inv s"
  using ksys.reach_inv[OF assms(1)] assms(2)
  by (auto elim!: kinv_cases simp: plocked_def held_by_def lock_free_def)

subsection \<open>Properties of the running kernel\<close>

definition demo_kst :: procst where
  "demo_kst = \<lparr>ncpu = 2, cpus = cpus demo_locks, locks = locks demo_locks, mem = (\<lambda>_. 0), kfreelist = 0,
     use_lock = True, kend = 0x80123450, kpgdir = 0x80300000, kdata = 0x80110000,
     ptable = demo_proc # replicate 63 (demo_proc\<lparr>pstate := UNUSED, pid := 0\<rparr>), nextpid = 2,
     initproc = Some 0, ticks = 0, forkret_first = False\<rparr>"

lemma demo_kst_sel:
  "ncpu demo_kst = 2" "cpus demo_kst = cpus demo_locks" "locks demo_kst = locks demo_locks" "nextpid demo_kst = 2"
  "initproc demo_kst = Some 0" "ticks demo_kst = 0" "\<not> forkret_first demo_kst"
  "ptable demo_kst = demo_proc # replicate 63 (demo_proc\<lparr>pstate := UNUSED, pid := 0\<rparr>)"
  by (simp_all add: demo_kst_def)

lemma demo_kst_start: "kstart demo_kst"
  by (auto simp: kstart_def demo_kst_sel demo_proc_def NPROC_def quiet_def lock_free_def demo_locks_def demo_cpu_def
      nth_Cons')

text \<open>A reachable state in which CPU 0 runs init and CPU 1 is idle.\<close>

lemma demo_kst_runs:
  obtains t :: procst where "reach kstart (kstep 4) t" "cproc (cpus t 0) = Some 0" "kinv t"
proof -
  have r: "reach kstart (kstep 4) demo_kst" using demo_kst_start by (rule reach_start)
  have q: "quiet demo_kst" "ptab_inv demo_kst" using kstart_kinv[OF demo_kst_start] demo_kst_start
    by (auto simp: kstart_def kinv_def)
  have n: "switch_start 4 (ticks demo_kst) (ptable (account demo_kst)) = Some (0, In_rr 0)"
    by (simp add: switch_start_def rr_next_def next_from_def account_def demo_kst_sel demo_proc_def Let_def)
  have c: "0 < ncpu demo_kst" "cproc (cpus demo_kst 0) = None" by (simp_all add: demo_kst_sel demo_locks_def demo_cpu_def)
  obtain t where t: "bindE (sched_round 4 0 demo_kst) (settle 0) = Inr t" "kinv t" "cproc (cpus t 0) = Some 0"
    using round_ok[OF q c, of 4] n by auto
  from reach_step[OF r k_round[OF c t(1)]] t(2,3) show thesis by (intro that[of t])
qed

text \<open>C3: In every reachable state of the kernel, with any number of CPUs and any scheduling policy, a
process is in the state RUNNING exactly when one and only one CPU has it as its current process.\<close>

theorem running_iff_one_cpu:
  assumes "reach kstart (kstep strat) s" "i < length (ptable s)"
  shows "pstate (ptable s ! i) = RUNNING \<longleftrightarrow> (\<exists>!c. cproc (cpus s c) = Some i)"
  using reach_tab_inv[OF assms(1)] assms(2) unfolding tab_inv_def run_inv_def by blast

theorem running_iff_one_cpu_witness:
  "\<exists>t :: procst. pstate (ptable t ! 0) = RUNNING \<and> (\<exists>!c. cproc (cpus t c) = Some 0)"
proof -
  obtain t :: procst where t: "reach kstart (kstep 4) t" "cproc (cpus t 0) = Some 0" "kinv t"
    by (rule demo_kst_runs)
  then have "ptab_inv t" by (simp add: kinv_def)
  from ptab_inv_cpu[OF this t(2)] have "0 < length (ptable t)" "pstate (ptable t ! 0) = RUNNING" by auto
  with running_iff_one_cpu[OF t(1)] show ?thesis by blast
qed







text \<open>C7: The switching code never panics: in every reachable state in which the process table is
unlocked, an idle CPU's scheduling round completes and leaves the CPU running the process the policy
chooses (or idle if there is none), and a running process's yield, its sleep on any channel with any
other lock, and (unless it is init) its exit complete, each with the CPU handed to the next process
or back to the scheduler; in particular none of the checks in sched, switchuvm, acquire and release
fails.\<close>

theorem switching_never_panics:
  assumes "reach kstart (kstep strat) s" "lock_free L_ptable s" "c < ncpu s"
  shows "case cproc (cpus s c) of
      None \<Rightarrow> \<exists>t. bindE (sched_round strat c s) (settle c) = Inr t \<and>
        cproc (cpus t c) = map_option fst (switch_start strat (ticks s) (ptable (account s)))
    | Some i \<Rightarrow>
        (\<exists>t. bindE (yield c s) (switch_out c) = Inr t) \<and>
        (\<forall>l ch. l \<noteq> L_ptable \<longrightarrow> ch \<notin> range Ch_proc \<longrightarrow>
          (\<exists>t. bindE (bindE (acquire c l s) (sleep c ch (Some l))) (switch_out c) = Inr t)) \<and>
        (initproc s \<noteq> Some i \<longrightarrow> (\<exists>t. bindE (exit_locked c i s) (switch_out c) = Inr t))"
proof -
  note q = reach_quiet[OF assms(1,2)]
  show ?thesis
  proof (cases "cproc (cpus s c)")
    case None
    with round_ok[OF q assms(3), of strat] show ?thesis by auto
  next
    case (Some i)
    have "\<exists>t. bindE (yield c s) (switch_out c) = Inr t" using yield_ok[OF q Some] by blast
    moreover have "\<exists>t. bindE (bindE (acquire c l s) (sleep c ch (Some l))) (switch_out c) = Inr t"
      if "l \<noteq> L_ptable" "ch \<notin> range Ch_proc" for l ch using sleep_ok[OF q Some that] by blast
    moreover have "\<exists>t. bindE (exit_locked c i s) (switch_out c) = Inr t" if "initproc s \<noteq> Some i"
      using exit_ok[OF q Some that] by blast
    ultimately show ?thesis using Some by simp
  qed
qed

theorem switching_never_panics_witness:
  "\<exists>t. bindE (sched_round 4 1 demo_kst) (settle 1) = Inr t \<and> cproc (cpus t 1) = Some 0"
proof -
  have r: "reach kstart (kstep 4) demo_kst" using demo_kst_start by (rule reach_start)
  have "lock_free L_ptable demo_kst" using demo_kst_start by (simp add: kstart_def quiet_def)
  from switching_never_panics[OF r this, of 1] show ?thesis
    by (simp add: demo_kst_sel demo_locks_def demo_cpu_def switch_start_def rr_next_def next_from_def account_def
        demo_proc_def Let_def)
qed

end
