(* ===== verification/Console.thy ===== *)
theory Console
  imports Procinv
begin

text \<open>
  console.c and the character path of uart.c: the screen and serial output of the kernel,
  its formatted printing, and the line editing of the console input buffer.  The devices are
  state: the CGA text memory \<open>crt\<close>, its cursor register \<open>crtpos\<close>, and the list \<open>uartout\<close> of bytes
  sent to the serial port.  A panicked console freezes every CPU that prints, which is \<open>Spin\<close>.
  consoleread and consolewrite need the inode layer and follow in Fs.
\<close>

subsection \<open>State\<close>

definition INPUT_BUF :: uint where "INPUT_BUF = 128"
definition BACKSPACE :: int where "BACKSPACE = 256"

record consst = procst +
  panicked :: bool
  cons_locking :: bool
  uart :: bool
  uartout :: "uchar list"
  crt :: "nat \<Rightarrow> ushort"
  crtpos :: int
  inbuf :: "nat \<Rightarrow> uchar"
  inr :: uint
  inw :: uint
  ine :: uint
  kbdshift :: uint

subsection \<open>Output\<close>

definition uartputc :: "int \<Rightarrow> 'a consst_scheme \<Rightarrow> 'a consst_scheme" where
  "uartputc ch s = (if \<not> uart s then s else s\<lparr>uartout := uartout s @ [word_of_int ch]\<rparr>)"

definition uartgetc :: "bool \<Rightarrow> uchar \<Rightarrow> 'a consst_scheme \<Rightarrow> int" where
  "uartgetc ready data s = (if \<not> uart s then -1 else if \<not> ready then -1 else uint data)"

definition cgaputc :: "int \<Rightarrow> 'a consst_scheme \<Rightarrow> fault + 'a consst_scheme" where
  "cgaputc ch s =
     (let pos = crtpos s;
          (pos, s) =
            (if ch = 10 then (pos + (80 - pos mod 80), s)
             else if ch = BACKSPACE then (if pos > 0 then pos - 1 else pos, s)
             else (pos + 1, s\<lparr>crt := (crt s)(nat pos := (word_of_int ch AND 0xff) OR 0x0700)\<rparr>))
      in if pos < 0 \<or> pos > 25 * 80 then Inl (Panic ''pos under/overflow'')
         else let (pos, s) =
                (if pos div 80 \<ge> 24
                 then let m = (\<lambda>i. if i < 23 * 80 then crt s (i + 80) else crt s i);
                          pos = pos - 80
                      in (pos, s\<lparr>crt := (\<lambda>i. if nat pos \<le> i \<and> i < 24 * 80 then 0 else m i)\<rparr>)
                 else (pos, s))
              in Inr (s\<lparr>crtpos := pos mod 65536, crt := (crt s)(nat pos := 0x0720)\<rparr>))"

definition consputc :: "int \<Rightarrow> 'a consst_scheme \<Rightarrow> fault + 'a consst_scheme" where
  "consputc ch s =
     (if panicked s then Inl Spin
      else let s = (if ch = BACKSPACE then uartputc 8 (uartputc 32 (uartputc 8 s)) else uartputc ch s)
           in cgaputc ch s)"

fun consputs :: "int list \<Rightarrow> 'a consst_scheme \<Rightarrow> fault + 'a consst_scheme" where
  "consputs [] s = Inr s"
| "consputs (ch # cs) s = bindE (consputc ch s) (consputs cs)"

text \<open>
  The digits of a number, last one first, as printint collects them in its buffer of sixteen
  characters; \<open>n\<close> is the room left in it.
\<close>

definition digit :: "uint \<Rightarrow> char" where
  "digit d = ''0123456789abcdef'' ! unat d"

fun int_digits :: "nat \<Rightarrow> uint \<Rightarrow> uint \<Rightarrow> string" where
  "int_digits 0 base x = []"
| "int_digits (Suc n) base x =
     digit (x mod base) # (if x div base \<noteq> 0 then int_digits n base (x div base) else [])"

definition int_chars :: "uint \<Rightarrow> uint \<Rightarrow> bool \<Rightarrow> string" where
  "int_chars xx base sign =
     (let neg = (sign \<and> xx <s 0);
          x = (if neg then - xx else xx);
          b = int_digits 16 base x @ (if neg then ''-'' else [])
      in rev b)"

definition codes :: "string \<Rightarrow> int list" where
  "codes cs = map of_char cs"

definition printint :: "uint \<Rightarrow> uint \<Rightarrow> bool \<Rightarrow> 'a consst_scheme \<Rightarrow> fault + 'a consst_scheme" where
  "printint xx base sign s = consputs (codes (int_chars xx base sign)) s"

text \<open>An argument of cprintf: a word, or a pointer to a string that may be null.\<close>

datatype carg = A_word uint | A_str "string option"

text \<open>What cprintf prints for a format and its arguments.\<close>

fun cformat :: "string \<Rightarrow> carg list \<Rightarrow> string" where
  "cformat [] as = []"
| "cformat (ch # fmt) as =
     (if ch \<noteq> CHR ''%'' then ch # cformat fmt as
      else case fmt of [] \<Rightarrow> []
      | k # rest \<Rightarrow>
        if k = CHR ''d'' then (case as of A_word x # as \<Rightarrow> int_chars x 10 True @ cformat rest as | _ \<Rightarrow> cformat rest as)
        else if k = CHR ''x'' \<or> k = CHR ''p''
        then (case as of A_word x # as \<Rightarrow> int_chars x 16 False @ cformat rest as | _ \<Rightarrow> cformat rest as)
        else if k = CHR ''s''
        then (case as of A_str (Some t) # as \<Rightarrow> t @ cformat rest as
              | A_str None # as \<Rightarrow> ''(null)'' @ cformat rest as
              | _ \<Rightarrow> cformat rest as)
        else if k = CHR ''%'' then CHR ''%'' # cformat rest as
        else CHR ''%'' # k # cformat rest as)"

definition cprintf :: "nat \<Rightarrow> string option \<Rightarrow> carg list \<Rightarrow> 'a consst_scheme \<Rightarrow> fault + 'a consst_scheme" where
  "cprintf c fmt args s =
     (let locking = cons_locking s
      in bindE (if locking then acquire c L_cons s else Inr s) (\<lambda>s.
           case fmt of None \<Rightarrow> Inl (Panic ''null fmt'')
           | Some f \<Rightarrow> bindE (consputs (codes (cformat f args)) s) (\<lambda>s.
               if locking then release c L_cons s else Inr s)))"

text \<open>
  panic prints its message with locking off and then freezes the other CPUs; the words are the
  saved return addresses of its callers.
\<close>

fun print_pcs :: "nat \<Rightarrow> uint list \<Rightarrow> 'a consst_scheme \<Rightarrow> fault + 'a consst_scheme" where
  "print_pcs c [] s = Inr s"
| "print_pcs c (pc # pcs) s = bindE (cprintf c (Some '' %p'') [A_word pc] s) (print_pcs c pcs)"

definition panic :: "nat \<Rightarrow> uint list \<Rightarrow> string \<Rightarrow> 'a consst_scheme \<Rightarrow> fault + 'a consst_scheme" where
  "panic c pcs msg s =
     (let s = set_cpu c (eflags_if_update (\<lambda>_. False)) s;
          s = s\<lparr>cons_locking := False\<rparr>
      in bindE (cprintf c (Some ''lapicid %d: panic: '') [A_word (ucast (apicid (cpus s c)))] s) (\<lambda>s.
         bindE (cprintf c (Some msg) [] s) (\<lambda>s.
         bindE (cprintf c (Some [CHR 0x0A]) [] s) (\<lambda>s.
         bindE (print_pcs c (take 10 pcs) s) (\<lambda>s. Inr (s\<lparr>panicked := True\<rparr>))))))"

text \<open>
  The process listing.  \<open>callers\<close> gives the return addresses on the kernel stack of a sleeping
  process, which is not part of the model.
\<close>

fun state_name :: "procstate \<Rightarrow> string" where
  "state_name UNUSED = ''unused''"
| "state_name EMBRYO = ''embryo''"
| "state_name SLEEPING = ''sleep ''"
| "state_name RUNNABLE = ''runble''"
| "state_name RUNNING = ''run   ''"
| "state_name ZOMBIE = ''zombie''"

fun procdump_loop :: "(nat \<Rightarrow> uint list) \<Rightarrow> nat \<Rightarrow> nat list \<Rightarrow> 'a consst_scheme \<Rightarrow> fault + 'a consst_scheme" where
  "procdump_loop callers c [] s = Inr s"
| "procdump_loop callers c (i # is) s =
     (let p = ptable s ! i
      in if pstate p = UNUSED then procdump_loop callers c is s
         else bindE (cprintf c (Some ''%d %s %s'')
                [A_word (word_of_int (pid p)), A_str (Some (state_name (pstate p))), A_str (Some (pname p))] s) (\<lambda>s.
              bindE (if pstate p = SLEEPING then print_pcs c (takeWhile (\<lambda>x. x \<noteq> 0) (take 10 (callers i))) s
                     else Inr s) (\<lambda>s.
              bindE (cprintf c (Some [CHR 0x0A]) [] s) (procdump_loop callers c is))))"

definition procdump :: "(nat \<Rightarrow> uint list) \<Rightarrow> nat \<Rightarrow> 'a consst_scheme \<Rightarrow> fault + 'a consst_scheme" where
  "procdump callers c s = procdump_loop callers c [0..<length (ptable s)] s"

subsection \<open>Input\<close>

definition inslot :: "uint \<Rightarrow> nat" where
  "inslot i = unat (i mod INPUT_BUF)"

text \<open>Kill line; \<open>n\<close> bounds the characters to erase, and no line is longer than the buffer.\<close>

fun kill_line :: "nat \<Rightarrow> 'a consst_scheme \<Rightarrow> fault + 'a consst_scheme" where
  "kill_line n s =
     (if ine s \<noteq> inw s \<and> inbuf s (inslot (ine s - 1)) \<noteq> 10
      then (case n of 0 \<Rightarrow> Inl Spin
            | Suc k \<Rightarrow> bindE (consputc BACKSPACE (s\<lparr>ine := ine s - 1\<rparr>)) (kill_line k))
      else Inr s)"

declare kill_line.simps [simp del]

definition kill_fuel :: nat where "kill_fuel = 2 ^ 32"

definition console_char :: "nat \<Rightarrow> int \<Rightarrow> 'a consst_scheme \<Rightarrow> fault + 'a consst_scheme" where
  "console_char c ch s =
     (if ch = 21 then kill_line kill_fuel s
      else if ch = 8 \<or> ch = 127
      then (if ine s \<noteq> inw s then consputc BACKSPACE (s\<lparr>ine := ine s - 1\<rparr>) else Inr s)
      else if ch \<noteq> 0 \<and> ine s - inr s < INPUT_BUF
      then let ch = (if ch = 13 then 10 else ch);
               s = s\<lparr>inbuf := (inbuf s)(inslot (ine s) := word_of_int ch), ine := ine s + 1\<rparr>
           in bindE (consputc ch s) (\<lambda>s.
              if ch = 10 \<or> ch = 4 \<or> ine s = inr s + INPUT_BUF
              then wakeup c Ch_input (s\<lparr>inw := ine s\<rparr>)
              else Inr s)
      else Inr s)"

text \<open>
  The characters are the values getc returns before its first negative one; Control-P asks for
  a process listing after the lock is released.
\<close>

fun console_chars :: "nat \<Rightarrow> int list \<Rightarrow> bool \<Rightarrow> 'a consst_scheme \<Rightarrow> fault + (bool \<times> 'a consst_scheme)" where
  "console_chars c [] doprocdump s = Inr (doprocdump, s)"
| "console_chars c (ch # cs) doprocdump s =
     (if ch < 0 then Inr (doprocdump, s)
      else if ch = 16 then console_chars c cs True s
      else bindE (console_char c ch s) (console_chars c cs doprocdump))"

definition consoleintr :: "(nat \<Rightarrow> uint list) \<Rightarrow> nat \<Rightarrow> int list \<Rightarrow> 'a consst_scheme \<Rightarrow> fault + 'a consst_scheme" where
  "consoleintr callers c cs s =
     bindE (acquire c L_cons s) (\<lambda>s.
     bindE (console_chars c cs False s) (\<lambda>(doprocdump, s).
     bindE (release c L_cons s) (\<lambda>s. if doprocdump then procdump callers c s else Inr s)))"

end
