(* ===== verification/Bio.thy ===== *)
theory Bio
  imports Console
begin

text \<open>
  sleeplock.c, bio.c and memide.c: sleep locks, the buffer cache and the memory disk driver.  A
  sleep lock is named by the spin lock it contains.  The buffers form a doubly linked list
  through \<open>bprev\<close> and \<open>bnext\<close>; a buffer pointer is an index into the cache, and the index \<open>NBUF\<close>
  is the list head.  A block's data is a function from offsets below \<open>BSIZE\<close> to bytes.  An
  operation that finds a sleep lock taken would go to sleep; it returns \<open>Blocked\<close>.  The field
  \<open>dwrites\<close> records every write to the disk in order, so that a crash between two writes can be
  spoken about.
\<close>

subsection \<open>State\<close>

record sleeplock =
  slk_locked :: bool
  slk_name :: string
  slk_pid :: int

record buf =
  flags :: uint
  dev :: uint
  blockno :: uint
  refcnt :: uint
  bprev :: nat
  bnext :: nat
  bdata :: memory

record bufst = consst +
  slocks :: "lockid \<Rightarrow> sleeplock"
  bufs :: "nat \<Rightarrow> buf"
  disk :: "nat \<Rightarrow> memory"
  disksize :: uint
  dwrites :: "(nat \<times> memory) list"

definition NBUF :: nat where "NBUF = 30"
definition B_VALID :: uint where "B_VALID = 2"
definition B_DIRTY :: uint where "B_DIRTY = 4"
definition BSIZE :: uint where "BSIZE = 512"

definition set_buf :: "nat \<Rightarrow> (buf \<Rightarrow> buf) \<Rightarrow> 'a bufst_scheme \<Rightarrow> 'a bufst_scheme" where
  "set_buf b f s = s\<lparr>bufs := (bufs s)(b := f (bufs s b))\<rparr>"

definition set_slock :: "lockid \<Rightarrow> (sleeplock \<Rightarrow> sleeplock) \<Rightarrow> 'a bufst_scheme \<Rightarrow> 'a bufst_scheme" where
  "set_slock l f s = s\<lparr>slocks := (slocks s)(l := f (slocks s l))\<rparr>"

subsection \<open>Sleep locks\<close>

definition initsleeplock :: "lockid \<Rightarrow> string \<Rightarrow> 'a bufst_scheme \<Rightarrow> 'a bufst_scheme" where
  "initsleeplock l name s =
     (let s = initlock l ''sleep lock'' s
      in set_slock l (\<lambda>k. k\<lparr>slk_name := name, slk_locked := False, slk_pid := 0\<rparr>) s)"

definition acquiresleep :: "nat \<Rightarrow> lockid \<Rightarrow> 'a bufst_scheme \<Rightarrow> fault + 'a bufst_scheme" where
  "acquiresleep c l s =
     bindE (acquire c l s) (\<lambda>s.
       if slk_locked (slocks s l) then Inl Blocked
       else let s = set_slock l (slk_locked_update (\<lambda>_. True)) s
            in bindE (curproc c s) (\<lambda>(i, s).
               release c l (set_slock l (slk_pid_update (\<lambda>_. pid (ptable s ! i))) s)))"

definition releasesleep :: "nat \<Rightarrow> lockid \<Rightarrow> 'a bufst_scheme \<Rightarrow> fault + 'a bufst_scheme" where
  "releasesleep c l s =
     bindE (acquire c l s) (\<lambda>s.
       let s = set_slock l (\<lambda>k. k\<lparr>slk_locked := False, slk_pid := 0\<rparr>) s
       in bindE (wakeup c (Ch_sleeplock l) s) (release c l))"

definition holdingsleep :: "nat \<Rightarrow> lockid \<Rightarrow> 'a bufst_scheme \<Rightarrow> fault + (bool \<times> 'a bufst_scheme)" where
  "holdingsleep c l s =
     bindE (acquire c l s) (\<lambda>s.
     bindE (curproc c s) (\<lambda>(i, s).
       let r = (slk_locked (slocks s l) \<and> slk_pid (slocks s l) = pid (ptable s ! i))
       in bindE (release c l s) (\<lambda>s. Inr (r, s))))"

subsection \<open>The memory disk\<close>

definition ideinit :: "(nat \<Rightarrow> memory) \<Rightarrow> uint \<Rightarrow> 'a bufst_scheme \<Rightarrow> 'a bufst_scheme" where
  "ideinit img img_size s = s\<lparr>disk := img, disksize := img_size div BSIZE\<rparr>"

definition iderw :: "nat \<Rightarrow> nat \<Rightarrow> 'a bufst_scheme \<Rightarrow> fault + 'a bufst_scheme" where
  "iderw c b s =
     bindE (holdingsleep c (L_buf b) s) (\<lambda>(h, s).
       if \<not> h then Inl (Panic ''iderw: buf not locked'')
       else if flags (bufs s b) AND (B_VALID OR B_DIRTY) = B_VALID then Inl (Panic ''iderw: nothing to do'')
       else if dev (bufs s b) \<noteq> 1 then Inl (Panic ''iderw: request not for disk 1'')
       else if blockno (bufs s b) \<ge> disksize s then Inl (Panic ''iderw: block out of range'')
       else let p = unat (blockno (bufs s b));
                s = (if flags (bufs s b) AND B_DIRTY \<noteq> 0
                     then let s = set_buf b (flags_update (\<lambda>f. f AND NOT B_DIRTY)) s
                          in s\<lparr>disk := (disk s)(p := bdata (bufs s b)),
                               dwrites := dwrites s @ [(p, bdata (bufs s b))]\<rparr>
                     else set_buf b (bdata_update (\<lambda>_. disk s p)) s)
            in Inr (set_buf b (flags_update (\<lambda>f. f OR B_VALID)) s))"

subsection \<open>The buffer cache\<close>

definition link_front :: "nat \<Rightarrow> 'a bufst_scheme \<Rightarrow> 'a bufst_scheme" where
  "link_front b s =
     (let s = set_buf b (\<lambda>x. x\<lparr>bnext := bnext (bufs s NBUF), bprev := NBUF\<rparr>) s;
          s = set_buf (bnext (bufs s NBUF)) (bprev_update (\<lambda>_. b)) s
      in set_buf NBUF (bnext_update (\<lambda>_. b)) s)"

fun binit_loop :: "nat list \<Rightarrow> 'a bufst_scheme \<Rightarrow> 'a bufst_scheme" where
  "binit_loop [] s = s"
| "binit_loop (b # bs) s =
     (let s = set_buf b (\<lambda>x. x\<lparr>bnext := bnext (bufs s NBUF), bprev := NBUF\<rparr>) s;
          s = initsleeplock (L_buf b) ''buffer'' s;
          s = set_buf (bnext (bufs s NBUF)) (bprev_update (\<lambda>_. b)) s
      in binit_loop bs (set_buf NBUF (bnext_update (\<lambda>_. b)) s))"

definition binit :: "'a bufst_scheme \<Rightarrow> 'a bufst_scheme" where
  "binit s =
     (let s = initlock L_bcache ''bcache'' s;
          s = set_buf NBUF (\<lambda>x. x\<lparr>bprev := NBUF, bnext := NBUF\<rparr>) s
      in binit_loop [0..<NBUF] s)"

text \<open>
  A loop along the list in one direction that stops at the head or at the first buffer that
  satisfies the test; \<open>n\<close> bounds its steps, and a list with a cycle that misses the head would
  make the loop run forever.
\<close>

fun bscan :: "(buf \<Rightarrow> nat) \<Rightarrow> (buf \<Rightarrow> bool) \<Rightarrow> nat \<Rightarrow> (nat \<Rightarrow> buf) \<Rightarrow> nat \<Rightarrow> fault + nat option" where
  "bscan adv P n bs b =
     (if b = NBUF then Inr None
      else if P (bs b) then Inr (Some b)
      else case n of 0 \<Rightarrow> Inl Spin | Suc k \<Rightarrow> bscan adv P k bs (adv (bs b)))"

declare bscan.simps [simp del]

definition bget :: "nat \<Rightarrow> uint \<Rightarrow> uint \<Rightarrow> 'a bufst_scheme \<Rightarrow> fault + (nat \<times> 'a bufst_scheme)" where
  "bget c d n s =
     bindE (acquire c L_bcache s) (\<lambda>s.
     bindE (bscan bnext (\<lambda>x. dev x = d \<and> blockno x = n) NBUF (bufs s) (bnext (bufs s NBUF))) (\<lambda>r.
       case r of Some b \<Rightarrow>
         let s = set_buf b (refcnt_update (\<lambda>k. k + 1)) s
         in bindE (release c L_bcache s) (\<lambda>s. bindE (acquiresleep c (L_buf b) s) (\<lambda>s. Inr (b, s)))
       | None \<Rightarrow>
         bindE (bscan bprev (\<lambda>x. refcnt x = 0 \<and> flags x AND B_DIRTY = 0) NBUF (bufs s) (bprev (bufs s NBUF))) (\<lambda>r.
           case r of Some b \<Rightarrow>
             let s = set_buf b (\<lambda>x. x\<lparr>dev := d, blockno := n, flags := 0, refcnt := 1\<rparr>) s
             in bindE (release c L_bcache s) (\<lambda>s. bindE (acquiresleep c (L_buf b) s) (\<lambda>s. Inr (b, s)))
           | None \<Rightarrow> Inl (Panic ''bget: no buffers''))))"

definition bread :: "nat \<Rightarrow> uint \<Rightarrow> uint \<Rightarrow> 'a bufst_scheme \<Rightarrow> fault + (nat \<times> 'a bufst_scheme)" where
  "bread c d n s =
     bindE (bget c d n s) (\<lambda>(b, s).
       if flags (bufs s b) AND B_VALID = 0 then bindE (iderw c b s) (\<lambda>s. Inr (b, s)) else Inr (b, s))"

definition bwrite :: "nat \<Rightarrow> nat \<Rightarrow> 'a bufst_scheme \<Rightarrow> fault + 'a bufst_scheme" where
  "bwrite c b s =
     bindE (holdingsleep c (L_buf b) s) (\<lambda>(h, s).
       if \<not> h then Inl (Panic ''bwrite'')
       else iderw c b (set_buf b (flags_update (\<lambda>f. f OR B_DIRTY)) s))"

definition brelse :: "nat \<Rightarrow> nat \<Rightarrow> 'a bufst_scheme \<Rightarrow> fault + 'a bufst_scheme" where
  "brelse c b s =
     bindE (holdingsleep c (L_buf b) s) (\<lambda>(h, s).
       if \<not> h then Inl (Panic ''brelse'')
       else bindE (releasesleep c (L_buf b) s) (\<lambda>s.
            bindE (acquire c L_bcache s) (\<lambda>s.
              let s = set_buf b (refcnt_update (\<lambda>k. k - 1)) s;
                  s = (if refcnt (bufs s b) = 0
                       then let s = set_buf (bnext (bufs s b)) (bprev_update (\<lambda>_. bprev (bufs s b))) s;
                                s = set_buf (bprev (bufs s b)) (bnext_update (\<lambda>_. bnext (bufs s b))) s
                            in link_front b s
                       else s)
              in release c L_bcache s)))"

end
