(* ===== verification/Log.thy ===== *)
theory Log
  imports Bio
begin

text \<open>
  log.c: the write-ahead log, with readsb of fs.c, which initlog calls.  The on-disk header is
  read and written through the 32-bit words of its block: word 0 is the count, word i + 1 the
  i-th block number.  The int fields of struct log are kept as integers; they are converted to
  unsigned where the code passes them to bread or compares them with an unsigned value.  An
  operation that would sleep on the log returns \<open>Blocked\<close>.
\<close>

subsection \<open>The superblock\<close>

record superblock =
  sb_size :: uint
  sb_nblocks :: uint
  sb_ninodes :: uint
  sb_nlog :: uint
  sb_logstart :: uint
  sb_inodestart :: uint
  sb_bmapstart :: uint

definition sb_of :: "memory \<Rightarrow> superblock" where
  "sb_of m = \<lparr>sb_size = load32 m 0, sb_nblocks = load32 m 4, sb_ninodes = load32 m 8, sb_nlog = load32 m 12,
     sb_logstart = load32 m 16, sb_inodestart = load32 m 20, sb_bmapstart = load32 m 24\<rparr>"

definition readsb :: "nat \<Rightarrow> int \<Rightarrow> 'a bufst_scheme \<Rightarrow> fault + (superblock \<times> 'a bufst_scheme)" where
  "readsb c d s =
     bindE (bread c (word_of_int d) 1 s) (\<lambda>(bp, s).
       let sb = sb_of (bdata (bufs s bp))
       in bindE (brelse c bp s) (\<lambda>s. Inr (sb, s)))"

subsection \<open>State\<close>

definition LOGSIZE :: int where "LOGSIZE = 30"
definition MAXOPBLOCKS :: int where "MAXOPBLOCKS = 10"

text \<open>
  \<open>lh_block\<close> is the array log.lh.block; indices from \<open>LOGSIZE\<close> on stand for the memory behind it.
\<close>

record logst = bufst +
  log_start :: int
  log_size :: int
  outstanding :: int
  committing :: bool
  log_dev :: int
  lh_n :: int
  lh_block :: "nat \<Rightarrow> int"

subsection \<open>Operations\<close>

definition bdev :: "'a logst_scheme \<Rightarrow> uint" where
  "bdev s = word_of_int (log_dev s)"

fun install_trans_loop :: "nat \<Rightarrow> nat list \<Rightarrow> 'a logst_scheme \<Rightarrow> fault + 'a logst_scheme" where
  "install_trans_loop c [] s = Inr s"
| "install_trans_loop c (tail # ts) s =
     bindE (bread c (bdev s) (word_of_int (log_start s + int tail + 1)) s) (\<lambda>(lbuf, s).
     bindE (bread c (bdev s) (word_of_int (lh_block s tail)) s) (\<lambda>(dbuf, s).
       let s = set_buf dbuf (bdata_update (\<lambda>_. bdata (bufs s lbuf))) s
       in bindE (bwrite c dbuf s) (\<lambda>s.
          bindE (brelse c lbuf s) (\<lambda>s.
          bindE (brelse c dbuf s) (\<lambda>s. install_trans_loop c ts s)))))"

definition install_trans :: "nat \<Rightarrow> 'a logst_scheme \<Rightarrow> fault + 'a logst_scheme" where
  "install_trans c s = install_trans_loop c [0..<nat (lh_n s)] s"

definition read_head :: "nat \<Rightarrow> 'a logst_scheme \<Rightarrow> fault + 'a logst_scheme" where
  "read_head c s =
     bindE (bread c (bdev s) (word_of_int (log_start s)) s) (\<lambda>(b, s).
       let lh = bdata (bufs s b);
           s = s\<lparr>lh_n := sint (load32 lh 0)\<rparr>;
           s = s\<lparr>lh_block := (\<lambda>i. if int i < lh_n s then sint (load32 lh (4 + 4 * i)) else lh_block s i)\<rparr>
       in brelse c b s)"

fun put_blocks :: "(nat \<Rightarrow> int) \<Rightarrow> nat list \<Rightarrow> memory \<Rightarrow> memory" where
  "put_blocks f [] m = m"
| "put_blocks f (i # is) m = put_blocks f is (store32 m (4 + 4 * i) (word_of_int (f i)))"

definition write_head :: "nat \<Rightarrow> 'a logst_scheme \<Rightarrow> fault + 'a logst_scheme" where
  "write_head c s =
     bindE (bread c (bdev s) (word_of_int (log_start s)) s) (\<lambda>(b, s).
       let s = set_buf b (bdata_update (\<lambda>m. put_blocks (lh_block s) [0..<nat (lh_n s)]
                 (store32 m 0 (word_of_int (lh_n s))))) s
       in bindE (bwrite c b s) (brelse c b))"

definition recover_from_log :: "nat \<Rightarrow> 'a logst_scheme \<Rightarrow> fault + 'a logst_scheme" where
  "recover_from_log c s =
     bindE (read_head c s) (\<lambda>s.
     bindE (install_trans c s) (\<lambda>s. write_head c (s\<lparr>lh_n := 0\<rparr>)))"

definition initlog :: "nat \<Rightarrow> int \<Rightarrow> 'a logst_scheme \<Rightarrow> fault + 'a logst_scheme" where
  "initlog c d s =
     (if 4 + 4 * LOGSIZE \<ge> uint BSIZE then Inl (Panic ''initlog: too big logheader'')
      else bindE (readsb c d (initlock L_log ''log'' s)) (\<lambda>(sb, s).
        recover_from_log c (s\<lparr>log_start := sint (sb_logstart sb), log_size := sint (sb_nlog sb), log_dev := d\<rparr>)))"

definition begin_op :: "nat \<Rightarrow> 'a logst_scheme \<Rightarrow> fault + 'a logst_scheme" where
  "begin_op c s =
     bindE (acquire c L_log s) (\<lambda>s.
       if committing s then Inl Blocked
       else if lh_n s + (outstanding s + 1) * MAXOPBLOCKS > LOGSIZE then Inl Blocked
       else release c L_log (s\<lparr>outstanding := outstanding s + 1\<rparr>))"

fun write_log_loop :: "nat \<Rightarrow> nat list \<Rightarrow> 'a logst_scheme \<Rightarrow> fault + 'a logst_scheme" where
  "write_log_loop c [] s = Inr s"
| "write_log_loop c (tail # ts) s =
     bindE (bread c (bdev s) (word_of_int (log_start s + int tail + 1)) s) (\<lambda>(to, s).
     bindE (bread c (bdev s) (word_of_int (lh_block s tail)) s) (\<lambda>(from, s).
       let s = set_buf to (bdata_update (\<lambda>_. bdata (bufs s from))) s
       in bindE (bwrite c to s) (\<lambda>s.
          bindE (brelse c from s) (\<lambda>s.
          bindE (brelse c to s) (\<lambda>s. write_log_loop c ts s)))))"

definition write_log :: "nat \<Rightarrow> 'a logst_scheme \<Rightarrow> fault + 'a logst_scheme" where
  "write_log c s = write_log_loop c [0..<nat (lh_n s)] s"

definition commit :: "nat \<Rightarrow> 'a logst_scheme \<Rightarrow> fault + 'a logst_scheme" where
  "commit c s =
     (if lh_n s > 0
      then bindE (write_log c s) (\<lambda>s.
           bindE (write_head c s) (\<lambda>s.
           bindE (install_trans c s) (\<lambda>s. write_head c (s\<lparr>lh_n := 0\<rparr>))))
      else Inr s)"

definition end_op :: "nat \<Rightarrow> 'a logst_scheme \<Rightarrow> fault + 'a logst_scheme" where
  "end_op c s =
     bindE (acquire c L_log s) (\<lambda>s.
       let s = s\<lparr>outstanding := outstanding s - 1\<rparr>
       in if committing s then Inl (Panic ''log.committing'')
          else if outstanding s = 0
          then bindE (release c L_log (s\<lparr>committing := True\<rparr>)) (\<lambda>s.
               bindE (commit c s) (\<lambda>s.
               bindE (acquire c L_log s) (\<lambda>s.
               bindE (wakeup c Ch_log (s\<lparr>committing := False\<rparr>)) (release c L_log))))
          else bindE (wakeup c Ch_log s) (release c L_log))"

fun log_find :: "(nat \<Rightarrow> int) \<Rightarrow> uint \<Rightarrow> nat list \<Rightarrow> nat \<Rightarrow> nat" where
  "log_find f bno [] n = n"
| "log_find f bno (i # is) n = (if word_of_int (f i) = bno then i else log_find f bno is n)"

definition log_write :: "nat \<Rightarrow> nat \<Rightarrow> 'a logst_scheme \<Rightarrow> fault + 'a logst_scheme" where
  "log_write c b s =
     (if lh_n s \<ge> LOGSIZE \<or> lh_n s \<ge> log_size s - 1 then Inl (Panic ''too big a transaction'')
      else if outstanding s < 1 then Inl (Panic ''log_write outside of trans'')
      else bindE (acquire c L_log s) (\<lambda>s.
        let i = log_find (lh_block s) (blockno (bufs s b)) [0..<nat (lh_n s)] (nat (lh_n s));
            s = s\<lparr>lh_block := (lh_block s)(i := sint (blockno (bufs s b)))\<rparr>;
            s = (if int i = lh_n s then s\<lparr>lh_n := lh_n s + 1\<rparr> else s);
            s = set_buf b (flags_update (\<lambda>f. f OR B_DIRTY)) s
        in release c L_log s))"

end
