(* ===== verification/Bioinv.thy ===== *)
theory Bioinv
  imports Bio
begin

text \<open>
  Correctness of the buffer cache.  A process that runs on a CPU while no spin lock is held sees
  every critical section as one exact update of the state; over these updates the cache keeps its
  linked list, never holds two buffers for one block, and keeps clean buffers equal to the disk.
\<close>

subsection \<open>Critical sections of a running process\<close>

definition steady :: "nat \<Rightarrow> 'a lockst_scheme \<Rightarrow> bool" where
  "steady c s \<longleftrightarrow> cpu_ok (cpus s c) \<and> touch c s = s"

definition ready :: "nat \<Rightarrow> int \<Rightarrow> 'a procst_scheme \<Rightarrow> bool" where
  "ready c pd s \<longleftrightarrow> quiet s \<and> touch c s = s \<and>
     (\<exists>i. cproc (cpus s c) = Some i \<and> i < length (ptable s) \<and> pid (ptable s ! i) = pd)"

lemma ready_steady: "ready c pd s \<Longrightarrow> steady c s"
  by (simp add: ready_def steady_def quiet_cpu_ok)

lemma ready_free: "ready c pd s \<Longrightarrow> lock_free l s"
  by (simp add: ready_def quiet_def)

lemma ready_ok: "ready c pd s \<Longrightarrow> cpu_ok (cpus s c)"
  using ready_steady steady_def by blast

lemma steady_acquired: "cpu_ok (cpus s c) \<Longrightarrow> steady c (acquired c l s)"
  by (auto simp: steady_def pushcli_cpu_ok touch_def cpu_ok_def)

lemma steady_curproc: "steady c s \<Longrightarrow> cproc (cpus s c) = Some i \<Longrightarrow> curproc c s = Inr (i, s)"
  using curproc_eq[of s c i] by (simp add: steady_def)

lemma steady_cong: "cpus t = cpus s \<Longrightarrow> locks t = locks s \<Longrightarrow> steady c s \<Longrightarrow> steady c t"
  by (auto simp: steady_def touch_def intro!: lockst_eqI split: if_splits) (metis lockst.select_convs(2) set_cpu_sel(1))

lemma release_section:
  assumes "steady c s" "lock_free l s"
    and "cpus t = cpus (acquired c l s)" "locks t = locks (acquired c l s)"
  shows "release c l t = Inr (t\<lparr>cpus := cpus s, locks := locks s\<rparr>)"
  using release_acquired[of s c l t] assms by (simp add: steady_def)

lemma acquire_section: "steady c s \<Longrightarrow> lock_free l s \<Longrightarrow> acquire c l s = Inr (acquired c l s)"
  by (rule acquire_free) (auto simp: steady_def)

lemma acquired_upd:
  "acquired c l s = s\<lparr>cpus := cpus (pushcli c s), locks := (locks s)(l := (locks s l)\<lparr>locked := 1, lcpu := Some c\<rparr>)\<rparr>"
  by (rule lockst_eqI) simp_all

text \<open>An update that neither reads nor writes CPUs and locks passes through a critical section.\<close>

definition lockfree :: "('a lockst_scheme \<Rightarrow> 'a lockst_scheme) \<Rightarrow> bool" where
  "lockfree f \<longleftrightarrow> (\<forall>s a b. f (s\<lparr>cpus := a, locks := b\<rparr>) = (f s)\<lparr>cpus := a, locks := b\<rparr>)"

lemma lockfreeD: "lockfree f \<Longrightarrow> f (acquired c l s) = (f s)\<lparr>cpus := cpus (acquired c l s), locks := locks (acquired c l s)\<rparr>"
  unfolding acquired_upd by (simp add: lockfree_def)

lemma lockfree_sel: "lockfree f \<Longrightarrow> cpus (f s) = cpus s \<and> locks (f s) = locks s"
proof -
  assume "lockfree f"
  then have "f (s\<lparr>cpus := cpus s, locks := locks s\<rparr>) = (f s)\<lparr>cpus := cpus s, locks := locks s\<rparr>"
    unfolding lockfree_def by blast
  then have "f s = (f s)\<lparr>cpus := cpus s, locks := locks s\<rparr>" by simp
  then show ?thesis by (metis lockst.select_convs(2,3) lockst.surjective lockst.update_convs(2,3))
qed

lemma release_lockfree:
  assumes "steady c s" "lock_free l s" "lockfree f"
  shows "release c l (f (acquired c l s)) = Inr (f s)"
proof -
  have "release c l (f (acquired c l s)) = Inr ((f (acquired c l s))\<lparr>cpus := cpus s, locks := locks s\<rparr>)"
    using lockfree_sel[OF assms(3), of "acquired c l s"] by (intro release_section assms) simp_all
  also have "\<dots> = Inr (f s)" unfolding lockfreeD[OF assms(3)] using lockfree_sel[OF assms(3), of s] by simp
  finally show ?thesis .
qed

lemma lockfree_id: "lockfree (\<lambda>s. s)" by (simp add: lockfree_def)

lemma lockfree_comp: "lockfree f \<Longrightarrow> lockfree g \<Longrightarrow> lockfree (\<lambda>s. f (g s))"
  by (simp add: lockfree_def)

lemma lockfree_set_buf: "lockfree (set_buf b f)"
  by (simp add: lockfree_def set_buf_def)

lemma lockfree_set_slock: "lockfree (set_slock l f)"
  by (simp add: lockfree_def set_slock_def)

lemma lockfree_wakeup1: "lockfree (wakeup1 ch)"
  by (simp add: lockfree_def wakeup1_def)

lemmas lockfree_intros = lockfree_id lockfree_set_buf lockfree_set_slock lockfree_wakeup1

lemma wakeup_steady:
  assumes "steady c s" "lock_free L_ptable s"
  shows "wakeup c ch s = Inr (wakeup1 ch s)"
  using assms by (simp add: wakeup_def acquire_section release_lockfree lockfree_wakeup1)

subsection \<open>What a running process may assume to stay\<close>

lemma set_buf_sel [simp]:
  "cpus (set_buf b f s) = cpus s" "locks (set_buf b f s) = locks s" "ptable (set_buf b f s) = ptable s"
  "slocks (set_buf b f s) = slocks s" "bufs (set_buf b f s) = (bufs s)(b := f (bufs s b))"
  "disk (set_buf b f s) = disk s" "disksize (set_buf b f s) = disksize s" "dwrites (set_buf b f s) = dwrites s"
  "bufst.more (set_buf b f s) = bufst.more s"
  by (simp_all add: set_buf_def)

lemma set_slock_sel [simp]:
  "cpus (set_slock l f s) = cpus s" "locks (set_slock l f s) = locks s" "ptable (set_slock l f s) = ptable s"
  "slocks (set_slock l f s) = (slocks s)(l := f (slocks s l))" "bufs (set_slock l f s) = bufs s"
  "disk (set_slock l f s) = disk s" "disksize (set_slock l f s) = disksize s" "dwrites (set_slock l f s) = dwrites s"
  "bufst.more (set_slock l f s) = bufst.more s"
  by (simp_all add: set_slock_def)

lemma wakeup1_bufst [simp]:
  "slocks (wakeup1 ch s) = slocks s" "bufs (wakeup1 ch s) = bufs s" "disk (wakeup1 ch s) = disk s"
  "disksize (wakeup1 ch s) = disksize s" "dwrites (wakeup1 ch s) = dwrites s"
  "bufst.more (wakeup1 ch s) = bufst.more s" "cpus (wakeup1 ch s) = cpus s" "locks (wakeup1 ch s) = locks s"
  "map pid (ptable (wakeup1 ch s)) = map pid (ptable s)"
  by (simp_all add: wakeup1_def)

lemma touch_cong: "cpus t = cpus s \<Longrightarrow> touch c s = s \<Longrightarrow> touch c t = t"
proof -
  assume c: "cpus t = cpus s" and h: "touch c s = s"
  have "cpus (touch c t) = cpus (touch c s)" by (simp add: touch_def c)
  with c h show "touch c t = t" by (intro lockst_eqI) simp_all
qed

lemma ready_cong:
  assumes "ready c pd s" "cpus t = cpus s" "locks t = locks s" "map pid (ptable t) = map pid (ptable s)"
  shows "ready c pd t"
proof -
  from assms(1) obtain i where i: "cproc (cpus s c) = Some i" "i < length (ptable s)" "pid (ptable s ! i) = pd"
    by (auto simp: ready_def)
  have l: "length (ptable t) = length (ptable s)" using assms(4) by (metis length_map)
  have "pid (ptable t ! i) = pd" using i(2,3) l assms(4) by (metis nth_map)
  moreover have "quiet t" using assms(1-3) quiet_cong[of t s] by (simp add: ready_def)
  moreover have "touch c t = t" using assms(1,2) touch_cong by (auto simp: ready_def)
  ultimately show ?thesis using i l assms(2) by (auto simp: ready_def)
qed

lemma ready_updates [simp]:
  "ready c pd s \<Longrightarrow> ready c pd (set_buf b f s)"
  "ready c pd s \<Longrightarrow> ready c pd (set_slock l g s)"
  "ready c pd s \<Longrightarrow> ready c pd (wakeup1 ch s)"
  "ready c pd s \<Longrightarrow> ready c pd (s\<lparr>disk := d\<rparr>)"
  "ready c pd s \<Longrightarrow> ready c pd (s\<lparr>disk := d, dwrites := ws\<rparr>)"
  by (erule ready_cong; simp add: wakeup1_def; auto)+

subsection \<open>Sleep locks and the disk\<close>

lemma holdingsleep_ready:
  assumes "ready c pd s"
  shows "holdingsleep c l s = Inr (slk_locked (slocks s l) \<and> slk_pid (slocks s l) = pd, s)"
proof -
  let ?a = "acquired c l s"
  from assms obtain i where i: "cproc (cpus s c) = Some i" "pid (ptable s ! i) = pd" by (auto simp: ready_def)
  have st: "steady c ?a" by (rule steady_acquired) (rule ready_ok[OF assms])
  have "curproc c ?a = Inr (i, ?a)" by (rule steady_curproc[OF st]) (simp add: i)
  moreover have "slocks ?a = slocks s" by (simp add: acquired_upd)
  ultimately show ?thesis
    using release_lockfree[OF ready_steady[OF assms] ready_free[OF assms, of l] lockfree_id] i
    by (simp add: holdingsleep_def acquire_section[OF ready_steady[OF assms] ready_free[OF assms]])
qed

lemma acquiresleep_ready:
  assumes "ready c pd s" "\<not> slk_locked (slocks s l)"
  shows "acquiresleep c l s = Inr (set_slock l (\<lambda>k. k\<lparr>slk_locked := True, slk_pid := pd\<rparr>) s)"
proof -
  let ?a = "acquired c l s"
  let ?b = "set_slock l (slk_locked_update (\<lambda>_. True)) ?a"
  from assms(1) obtain i where i: "cproc (cpus s c) = Some i" "pid (ptable s ! i) = pd" by (auto simp: ready_def)
  have "steady c ?a" by (rule steady_acquired) (rule ready_ok[OF assms(1)])
  then have "steady c ?b" by (rule steady_cong[rotated 2]) simp_all
  then have "curproc c ?b = Inr (i, ?b)" by (rule steady_curproc) (simp add: i)
  moreover have "slocks ?a = slocks s" by (simp add: acquired_upd)
  moreover have "set_slock l (slk_pid_update (\<lambda>_. pd)) ?b = set_slock l (\<lambda>k. k\<lparr>slk_locked := True, slk_pid := pd\<rparr>) ?a"
    by (simp add: set_slock_def)
  moreover have "release c l (set_slock l (\<lambda>k. k\<lparr>slk_locked := True, slk_pid := pd\<rparr>) ?a) =
      Inr (set_slock l (\<lambda>k. k\<lparr>slk_locked := True, slk_pid := pd\<rparr>) s)"
    by (rule release_lockfree[OF ready_steady[OF assms(1)] ready_free[OF assms(1)] lockfree_set_slock])
  ultimately show ?thesis
    using assms(2) i
    by (simp add: acquiresleep_def acquire_section[OF ready_steady[OF assms(1)] ready_free[OF assms(1)]])
qed

lemma releasesleep_ready:
  assumes "ready c pd s" "l \<noteq> L_ptable"
  shows "releasesleep c l s =
    Inr (wakeup1 (Ch_sleeplock l) (set_slock l (\<lambda>k. k\<lparr>slk_locked := False, slk_pid := 0\<rparr>) s))"
proof -
  let ?a = "acquired c l s" and ?f = "\<lambda>k. k\<lparr>slk_locked := False, slk_pid := 0\<rparr>"
  have "steady c ?a" by (rule steady_acquired) (rule ready_ok[OF assms(1)])
  then have st: "steady c (set_slock l ?f ?a)" by (rule steady_cong[rotated 2]) simp_all
  have "lock_free L_ptable (set_slock l ?f ?a)"
    using assms(2) ready_free[OF assms(1), of L_ptable] by (simp add: lock_free_def)
  with st have "wakeup c (Ch_sleeplock l) (set_slock l ?f ?a) = Inr (wakeup1 (Ch_sleeplock l) (set_slock l ?f ?a))"
    by (rule wakeup_steady)
  moreover have "release c l (wakeup1 (Ch_sleeplock l) (set_slock l ?f ?a)) =
      Inr (wakeup1 (Ch_sleeplock l) (set_slock l ?f s))"
    by (rule release_lockfree[OF ready_steady[OF assms(1)] ready_free[OF assms(1)],
          where f = "\<lambda>s. wakeup1 (Ch_sleeplock l) (set_slock l ?f s)"])
      (rule lockfree_comp[OF lockfree_wakeup1 lockfree_set_slock])
  ultimately show ?thesis
    by (simp add: releasesleep_def acquire_section[OF ready_steady[OF assms(1)] ready_free[OF assms(1)]])
qed

subsection \<open>The linked list\<close>

text \<open>The buffers \<open>xs\<close> are linked in both directions between \<open>a\<close> and \<open>z\<close>.\<close>

fun seg :: "(nat \<Rightarrow> buf) \<Rightarrow> nat \<Rightarrow> nat list \<Rightarrow> nat \<Rightarrow> bool" where
  "seg bs a [] z \<longleftrightarrow> bnext (bs a) = z \<and> bprev (bs z) = a"
| "seg bs a (x # xs) z \<longleftrightarrow> bnext (bs a) = x \<and> bprev (bs x) = a \<and> seg bs x xs z"

lemma seg_append: "seg bs a (us @ x # vs) z \<longleftrightarrow> seg bs a us x \<and> seg bs x vs z"
  by (induction us arbitrary: a) auto

lemma seg_cong:
  assumes "\<And>x. x \<in> set (a # xs) \<Longrightarrow> bnext (bs' x) = bnext (bs x)"
    and "\<And>x. x \<in> set (xs @ [z]) \<Longrightarrow> bprev (bs' x) = bprev (bs x)"
  shows "seg bs' a xs z = seg bs a xs z"
  using assms by (induction xs arbitrary: a) auto

definition lru :: "(nat \<Rightarrow> buf) \<Rightarrow> nat list \<Rightarrow> bool" where
  "lru bs xs \<longleftrightarrow> seg bs NBUF xs NBUF \<and> distinct xs \<and> set xs = {..<NBUF}"

lemma lru_length: "lru bs xs \<Longrightarrow> length xs = NBUF"
  unfolding lru_def by (metis card_lessThan distinct_card)

lemma bscan_next:
  "seg bs a xs NBUF \<Longrightarrow> NBUF \<notin> set xs \<Longrightarrow> length xs \<le> n \<Longrightarrow>
   bscan bnext P n bs (bnext (bs a)) = Inr (find (\<lambda>i. P (bs i)) xs)"
proof (induction xs arbitrary: a n)
  case (Cons x xs)
  then show ?case by (cases n) (simp_all add: bscan.simps[of bnext])
qed (simp add: bscan.simps)

lemma bscan_prev:
  "seg bs NBUF xs z \<Longrightarrow> NBUF \<notin> set xs \<Longrightarrow> length xs \<le> n \<Longrightarrow>
   bscan bprev P n bs (bprev (bs z)) = Inr (find (\<lambda>i. P (bs i)) (rev xs))"
proof (induction xs arbitrary: z n rule: rev_induct)
  case (snoc x xs)
  then have "bprev (bs z) = x" "seg bs NBUF xs x" by (simp_all add: seg_append)
  with snoc show ?case by (cases n) (simp_all add: bscan.simps[of bprev])
qed (simp add: bscan.simps)

lemma lru_scans:
  assumes "lru bs xs"
  shows "bscan bnext P NBUF bs (bnext (bs NBUF)) = Inr (find (\<lambda>i. P (bs i)) xs)"
    "bscan bprev P NBUF bs (bprev (bs NBUF)) = Inr (find (\<lambda>i. P (bs i)) (rev xs))"
proof -
  have h: "seg bs NBUF xs NBUF" "NBUF \<notin> set xs" "length xs \<le> NBUF"
    using assms lru_length[OF assms] by (simp_all add: lru_def)
  show "bscan bnext P NBUF bs (bnext (bs NBUF)) = Inr (find (\<lambda>i. P (bs i)) xs)" by (rule bscan_next[OF h])
  show "bscan bprev P NBUF bs (bprev (bs NBUF)) = Inr (find (\<lambda>i. P (bs i)) (rev xs))" by (rule bscan_prev[OF h])
qed

lemma lru_cong:
  "(\<And>b. bnext (bs' b) = bnext (bs b)) \<Longrightarrow> (\<And>b. bprev (bs' b) = bprev (bs b)) \<Longrightarrow> lru bs' xs = lru bs xs"
  by (simp add: lru_def seg_cong[of NBUF xs bs' bs])

lemma seg_unlink:
  assumes "seg bs a (us @ b # vs) a" "distinct (a # us @ b # vs)"
  defines "bs1 \<equiv> bs(bnext (bs b) := (bs (bnext (bs b)))\<lparr>bprev := bprev (bs b)\<rparr>)"
  defines "bs2 \<equiv> bs1(bprev (bs1 b) := (bs1 (bprev (bs1 b)))\<lparr>bnext := bnext (bs1 b)\<rparr>)"
  shows "seg bs2 a (us @ vs) a"
proof -
  have s: "seg bs a us b" "seg bs b vs a" using assms(1) by (simp_all add: seg_append)
  have nb: "bnext (bs b) \<noteq> b" using s(2) assms(2) by (cases vs) auto
  then have b1: "bs1 b = bs b" by (simp add: bs1_def)
  have n2: "bnext (bs2 x) = (if x = bprev (bs b) then bnext (bs b) else bnext (bs x))" for x
    by (simp add: bs2_def b1) (simp add: bs1_def)
  have p2: "bprev (bs2 x) = (if x = bnext (bs b) then bprev (bs b) else bprev (bs x))" for x
    by (simp add: bs2_def b1) (simp add: bs1_def)
  have split: "seg bs2 x us' y" if "seg bs x us' y" "bprev (bs b) \<notin> set (x # us')" "bnext (bs b) \<notin> set (us' @ [y])"
    for x y us'
  proof -
    have "seg bs2 x us' y = seg bs x us' y" using that(2,3) by (intro seg_cong) (auto simp: n2 p2)
    then show ?thesis using that(1) by simp
  qed
  show ?thesis
  proof (cases us rule: rev_cases)
    case Nil
    note us = this
    then have pb: "bprev (bs b) = a" using s(1) by simp
    show ?thesis
    proof (cases vs)
      case (Cons q vs')
      then have q: "bnext (bs b) = q" "seg bs q vs' a" using s(2) by simp_all
      have "seg bs2 q vs' a" using assms(2) us Cons by (intro split q) (auto simp: pb q)
      then show ?thesis using us Cons by (simp add: n2 p2 pb q)
    qed (use s us in \<open>simp add: n2 p2\<close>)
  next
    case (snoc us' p)
    have sp: "seg bs a us' p" "bprev (bs b) = p" using s(1) snoc by (simp_all add: seg_append)
    show ?thesis
    proof (cases vs)
      case Nil
      then have q: "bnext (bs b) = a" using s(2) by simp
      have "seg bs2 a us' p" using assms(2) snoc Nil by (intro split sp) (auto simp: sp q)
      then show ?thesis using snoc Nil by (simp add: seg_append n2 p2 sp q)
    next
      case (Cons q vs')
      then have q: "bnext (bs b) = q" "seg bs q vs' a" using s(2) by simp_all
      have "seg bs2 a us' p" using assms(2) snoc Cons by (intro split sp) (auto simp: sp q)
      moreover have "seg bs2 q vs' a" using assms(2) snoc Cons by (intro split q) (auto simp: sp q)
      ultimately show ?thesis using snoc Cons by (simp add: seg_append n2 p2 sp q)
    qed
  qed
qed

lemma seg_link_front:
  assumes "seg bs a ys a" "distinct (a # b # ys)"
  defines "bs1 \<equiv> bs(b := (bs b)\<lparr>bnext := bnext (bs a), bprev := a\<rparr>)"
  defines "bs2 \<equiv> bs1(bnext (bs1 a) := (bs1 (bnext (bs1 a)))\<lparr>bprev := b\<rparr>)"
  shows "seg (bs2(a := (bs2 a)\<lparr>bnext := b\<rparr>)) a (b # ys) a"
proof -
  define bs3 where "bs3 = bs2(a := (bs2 a)\<lparr>bnext := b\<rparr>)"
  have ab: "a \<noteq> b" using assms(2) by auto
  then have a1: "bs1 a = bs a" by (simp add: bs1_def)
  have n: "bnext (bs3 x) = (if x = a then b else if x = b then bnext (bs a) else bnext (bs x))" for x
    using ab by (simp add: bs3_def bs2_def a1) (simp add: bs1_def)
  have p: "bprev (bs3 x) = (if x = bnext (bs a) then b else if x = b then a else bprev (bs x))" for x
    using ab by (simp add: bs3_def bs2_def a1) (simp add: bs1_def)
  have "seg bs3 a (b # ys) a"
  proof (cases ys)
    case Nil
    with assms(1) ab show ?thesis by (simp add: n p)
  next
    case (Cons y ys')
    have "seg bs3 y ys' a = seg bs y ys' a"
      using assms(1,2) Cons by (intro seg_cong) (auto simp: n p)
    with assms(1,2) Cons show ?thesis by (simp add: n p)
  qed
  then show ?thesis by (simp add: bs3_def)
qed

subsection \<open>The cache invariant\<close>

definition bvalid :: "buf \<Rightarrow> bool" where "bvalid x \<longleftrightarrow> flags x AND B_VALID \<noteq> 0"
definition bdirty :: "buf \<Rightarrow> bool" where "bdirty x \<longleftrightarrow> flags x AND B_DIRTY \<noteq> 0"

lemma bvalid_bit: "bvalid x \<longleftrightarrow> bit (flags x) 1"
  using and_exp_eq_0_iff_not_bit[of "flags x" 1] by (simp add: bvalid_def B_VALID_def)

lemma bdirty_bit: "bdirty x \<longleftrightarrow> bit (flags x) 2"
  using and_exp_eq_0_iff_not_bit[of "flags x" 2] by (simp add: bdirty_def B_DIRTY_def)

lemma bit_B_VALID [simp]: "bit B_VALID n \<longleftrightarrow> n = 1" and bit_B_DIRTY [simp]: "bit B_DIRTY n \<longleftrightarrow> n = 2"
  using bit_2_iff[of n] bit_exp_iff[of 2 n, where 'a = "32 word"] by (auto simp: B_VALID_def B_DIRTY_def possible_bit_word)

lemma iderw_flags: "flags x AND (B_VALID OR B_DIRTY) = B_VALID \<longleftrightarrow> bvalid x \<and> \<not> bdirty x"
proof -
  have "bit (flags x) 1 \<and> \<not> bit (flags x) 2" if "flags x AND (B_VALID OR B_DIRTY) = B_VALID"
    using arg_cong[OF that, of "\<lambda>w. bit w 1"] arg_cong[OF that, of "\<lambda>w. bit w 2"] by (simp add: bit_simps)
  moreover have "flags x AND (B_VALID OR B_DIRTY) = B_VALID" if "bit (flags x) 1" "\<not> bit (flags x) 2"
    using that by (intro bit_word_eqI) (auto simp: bit_simps)
  ultimately show ?thesis by (auto simp: bvalid_bit bdirty_bit)
qed

text \<open>
  A process \<open>pd\<close> holds the buffers \<open>H\<close>, of which \<open>M\<close> may differ from the disk without being marked
  dirty; every other clean buffer of the disk equals its block.
\<close>

definition bc_ok :: "int \<Rightarrow> nat set \<Rightarrow> nat set \<Rightarrow> 'a bufst_scheme \<Rightarrow> bool" where
  "bc_ok pd H M s \<longleftrightarrow>
     (\<exists>xs. lru (bufs s) xs) \<and> M \<subseteq> H \<and> H \<subseteq> {..<NBUF} \<and>
     (\<forall>b < NBUF. slk_locked (slocks s (L_buf b)) = (b \<in> H) \<and> refcnt (bufs s b) = (if b \<in> H then 1 else 0)) \<and>
     (\<forall>b \<in> H. slk_pid (slocks s (L_buf b)) = pd \<and> dev (bufs s b) = 1) \<and>
     (\<forall>b < NBUF. dev (bufs s b) = 1 \<longrightarrow> bvalid (bufs s b)) \<and>
     (\<forall>b < NBUF. bdirty (bufs s b) \<longrightarrow> dev (bufs s b) = 1) \<and>
     (\<forall>b < NBUF. \<forall>b' < NBUF. dev (bufs s b) = 1 \<longrightarrow> dev (bufs s b') = 1 \<longrightarrow>
        blockno (bufs s b) = blockno (bufs s b') \<longrightarrow> b = b') \<and>
     (\<forall>b < NBUF. dev (bufs s b) = 1 \<longrightarrow> \<not> bdirty (bufs s b) \<longrightarrow> b \<notin> M \<longrightarrow>
        bdata (bufs s b) = disk s (unat (blockno (bufs s b))))"

lemma bc_okD:
  assumes "bc_ok pd H M s"
  shows "\<exists>xs. lru (bufs s) xs" "M \<subseteq> H" "H \<subseteq> {..<NBUF}"
    "b < NBUF \<Longrightarrow> slk_locked (slocks s (L_buf b)) = (b \<in> H)"
    "b < NBUF \<Longrightarrow> refcnt (bufs s b) = (if b \<in> H then 1 else 0)"
    "b \<in> H \<Longrightarrow> slk_pid (slocks s (L_buf b)) = pd" "b \<in> H \<Longrightarrow> dev (bufs s b) = 1"
    "b < NBUF \<Longrightarrow> dev (bufs s b) = 1 \<Longrightarrow> bvalid (bufs s b)"
    "b < NBUF \<Longrightarrow> bdirty (bufs s b) \<Longrightarrow> dev (bufs s b) = 1"
    "b < NBUF \<Longrightarrow> b' < NBUF \<Longrightarrow> dev (bufs s b) = 1 \<Longrightarrow> dev (bufs s b') = 1 \<Longrightarrow>
       blockno (bufs s b) = blockno (bufs s b') \<Longrightarrow> b = b'"
    "b < NBUF \<Longrightarrow> dev (bufs s b) = 1 \<Longrightarrow> \<not> bdirty (bufs s b) \<Longrightarrow> b \<notin> M \<Longrightarrow>
       bdata (bufs s b) = disk s (unat (blockno (bufs s b)))"
proof -
  note d = assms[unfolded bc_ok_def]
  note r = d[THEN conjunct2, THEN conjunct2, THEN conjunct2]
  show "\<exists>xs. lru (bufs s) xs" "M \<subseteq> H" "H \<subseteq> {..<NBUF}" 
    by (rule d[THEN conjunct1], rule d[THEN conjunct2, THEN conjunct1], rule d[THEN conjunct2, THEN conjunct2, THEN conjunct1])
  show "b < NBUF \<Longrightarrow> slk_locked (slocks s (L_buf b)) = (b \<in> H)"
    "b < NBUF \<Longrightarrow> refcnt (bufs s b) = (if b \<in> H then 1 else 0)" using r[THEN conjunct1] by auto
  note r = r[THEN conjunct2]
  show "b \<in> H \<Longrightarrow> slk_pid (slocks s (L_buf b)) = pd" "b \<in> H \<Longrightarrow> dev (bufs s b) = 1" using r[THEN conjunct1] by auto
  note r = r[THEN conjunct2]
  show "b < NBUF \<Longrightarrow> dev (bufs s b) = 1 \<Longrightarrow> bvalid (bufs s b)" using r[THEN conjunct1] by auto
  note r = r[THEN conjunct2]
  show "b < NBUF \<Longrightarrow> bdirty (bufs s b) \<Longrightarrow> dev (bufs s b) = 1" using r[THEN conjunct1] by auto
  note r = r[THEN conjunct2]
  show "b < NBUF \<Longrightarrow> b' < NBUF \<Longrightarrow> dev (bufs s b) = 1 \<Longrightarrow> dev (bufs s b') = 1 \<Longrightarrow>
       blockno (bufs s b) = blockno (bufs s b') \<Longrightarrow> b = b'" using r[THEN conjunct1] by blast
  show "b < NBUF \<Longrightarrow> dev (bufs s b) = 1 \<Longrightarrow> \<not> bdirty (bufs s b) \<Longrightarrow> b \<notin> M \<Longrightarrow>
       bdata (bufs s b) = disk s (unat (blockno (bufs s b)))" using r[THEN conjunct2] by blast
qed

lemma bc_okI:
  assumes "\<exists>xs. lru (bufs s) xs" "M \<subseteq> H" "H \<subseteq> {..<NBUF}"
    "\<And>b. b < NBUF \<Longrightarrow> slk_locked (slocks s (L_buf b)) = (b \<in> H)"
    "\<And>b. b < NBUF \<Longrightarrow> refcnt (bufs s b) = (if b \<in> H then 1 else 0)"
    "\<And>b. b \<in> H \<Longrightarrow> slk_pid (slocks s (L_buf b)) = pd" "\<And>b. b \<in> H \<Longrightarrow> dev (bufs s b) = 1"
    "\<And>b. b < NBUF \<Longrightarrow> dev (bufs s b) = 1 \<Longrightarrow> bvalid (bufs s b)"
    "\<And>b. b < NBUF \<Longrightarrow> bdirty (bufs s b) \<Longrightarrow> dev (bufs s b) = 1"
    "\<And>b b'. b < NBUF \<Longrightarrow> b' < NBUF \<Longrightarrow> dev (bufs s b) = 1 \<Longrightarrow> dev (bufs s b') = 1 \<Longrightarrow>
       blockno (bufs s b) = blockno (bufs s b') \<Longrightarrow> b = b'"
    "\<And>b. b < NBUF \<Longrightarrow> dev (bufs s b) = 1 \<Longrightarrow> \<not> bdirty (bufs s b) \<Longrightarrow> b \<notin> M \<Longrightarrow>
       bdata (bufs s b) = disk s (unat (blockno (bufs s b)))"
  shows "bc_ok pd H M s"
  unfolding bc_ok_def by (intro conjI allI impI ballI; (rule assms; assumption)?; (rule assms)?)

text \<open>The content of a block as the kernel sees it, and the blocks that wait to be written.\<close>

definition bview :: "'a bufst_scheme \<Rightarrow> uint \<Rightarrow> memory" where
  "bview s n = (case find (\<lambda>b. dev (bufs s b) = 1 \<and> blockno (bufs s b) = n) [0..<NBUF] of
     Some b \<Rightarrow> bdata (bufs s b) | None \<Rightarrow> disk s (unat n))"

definition dirtyset :: "'a bufst_scheme \<Rightarrow> uint set" where
  "dirtyset s = {blockno (bufs s b) | b. b < NBUF \<and> dev (bufs s b) = 1 \<and> bdirty (bufs s b)}"

lemma find_upt_None: "find P [0..<n] = None \<longleftrightarrow> (\<forall>b<n. \<not> P b)"
  by (auto simp: find_None_iff)

lemma find_SomeD: "find P xs = Some x \<Longrightarrow> x \<in> set xs \<and> P x"
  by (induction xs) (auto split: if_splits)

lemma find_upt_Some: "find P [0..<n] = Some b \<Longrightarrow> b < n \<and> P b"
  by (auto simp: find_Some_iff)

lemma bview_cached:
  assumes "bc_ok pd H M s" "b < NBUF" "dev (bufs s b) = 1" "blockno (bufs s b) = n"
  shows "bview s n = bdata (bufs s b)"
proof (cases "find (\<lambda>b. dev (bufs s b) = 1 \<and> blockno (bufs s b) = n) [0..<NBUF]")
  case None
  then show ?thesis using assms(2-4) by (auto simp: find_upt_None)
next
  case (Some b')
  then have "b' < NBUF" "dev (bufs s b') = 1" "blockno (bufs s b') = n"
    using find_upt_Some[OF Some] by auto
  then have "b' = b" using bc_okD(10)[OF assms(1)] assms(2-4) by metis
  then show ?thesis using Some by (simp add: bview_def)
qed

lemma bview_uncached:
  assumes "\<And>b. b < NBUF \<Longrightarrow> dev (bufs s b) = 1 \<Longrightarrow> blockno (bufs s b) \<noteq> n"
  shows "bview s n = disk s (unat n)"
proof -
  have "find (\<lambda>b. dev (bufs s b) = 1 \<and> blockno (bufs s b) = n) [0..<NBUF] = None"
    using assms by (auto simp: find_upt_None)
  then show ?thesis by (simp add: bview_def)
qed

subsection \<open>Getting a buffer\<close>

lemma bufs_acquired [simp]: "bufs (acquired c l s) = bufs s"
  by (simp add: acquired_upd)

definition take_slock :: "int \<Rightarrow> nat \<Rightarrow> 'a bufst_scheme \<Rightarrow> 'a bufst_scheme" where
  "take_slock pd b s = set_slock (L_buf b) (\<lambda>k. k\<lparr>slk_locked := True, slk_pid := pd\<rparr>) s"

lemma bget_finish:
  assumes "ready c pd s" "\<not> slk_locked (slocks s (L_buf b))"
  shows "bindE (release c L_bcache (set_buf b f (acquired c L_bcache s)))
     (\<lambda>s. bindE (acquiresleep c (L_buf b) s) (\<lambda>s. Inr (b, s))) = Inr (b, take_slock pd b (set_buf b f s))"
proof -
  have "release c L_bcache (set_buf b f (acquired c L_bcache s)) = Inr (set_buf b f s)"
    by (rule release_lockfree[OF ready_steady[OF assms(1)] ready_free[OF assms(1)] lockfree_set_buf])
  moreover have "acquiresleep c (L_buf b) (set_buf b f s) = Inr (take_slock pd b (set_buf b f s))"
    unfolding take_slock_def using assms by (intro acquiresleep_ready) simp_all
  ultimately show ?thesis by simp
qed

lemma bget_hit:
  assumes "ready c pd s" "lru (bufs s) xs" "find (\<lambda>b. dev (bufs s b) = d \<and> blockno (bufs s b) = n) xs = Some b"
    "\<not> slk_locked (slocks s (L_buf b))"
  shows "bget c d n s = Inr (b, take_slock pd b (set_buf b (refcnt_update (\<lambda>k. k + 1)) s))"
  using bget_finish[OF assms(1,4)] assms(3)
  by (simp add: bget_def acquire_section[OF ready_steady[OF assms(1)] ready_free[OF assms(1)]] lru_scans[OF assms(2)])

lemma bget_miss:
  assumes "ready c pd s" "lru (bufs s) xs" "find (\<lambda>b. dev (bufs s b) = d \<and> blockno (bufs s b) = n) xs = None"
    "find (\<lambda>b. refcnt (bufs s b) = 0 \<and> flags (bufs s b) AND B_DIRTY = 0) (rev xs) = Some b"
    "\<not> slk_locked (slocks s (L_buf b))"
  shows "bget c d n s = Inr (b, take_slock pd b (set_buf b (\<lambda>x. x\<lparr>dev := d, blockno := n, flags := 0, refcnt := 1\<rparr>) s))"
  using bget_finish[OF assms(1,5)] assms(3,4)
  by (simp add: bget_def acquire_section[OF ready_steady[OF assms(1)] ready_free[OF assms(1)]] lru_scans[OF assms(2)])

lemma bget_full:
  assumes "ready c pd s" "lru (bufs s) xs" "find (\<lambda>b. dev (bufs s b) = d \<and> blockno (bufs s b) = n) xs = None"
    "find (\<lambda>b. refcnt (bufs s b) = 0 \<and> flags (bufs s b) AND B_DIRTY = 0) (rev xs) = None"
  shows "bget c d n s = Inl (Panic ''bget: no buffers'')"
  using assms(3,4)
  by (simp add: bget_def acquire_section[OF ready_steady[OF assms(1)] ready_free[OF assms(1)]] lru_scans[OF assms(2)])

subsection \<open>Disk transfers\<close>

lemma iderw_read:
  assumes "ready c pd s" "slk_locked (slocks s (L_buf b))" "slk_pid (slocks s (L_buf b)) = pd"
    "\<not> bvalid (bufs s b)" "\<not> bdirty (bufs s b)" "dev (bufs s b) = 1" "blockno (bufs s b) < disksize s"
  shows "iderw c b s = Inr (set_buf b (\<lambda>x. flags_update (\<lambda>f. f OR B_VALID) (x\<lparr>bdata := disk s (unat (blockno x))\<rparr>)) s)"
  using assms(2-)
  by (simp add: iderw_def holdingsleep_ready[OF assms(1)] iderw_flags not_le bdirty_def)
    (simp add: set_buf_def)

lemma iderw_write:
  assumes "ready c pd s" "slk_locked (slocks s (L_buf b))" "slk_pid (slocks s (L_buf b)) = pd"
    "bdirty (bufs s b)" "dev (bufs s b) = 1" "blockno (bufs s b) < disksize s"
  defines "n \<equiv> unat (blockno (bufs s b))"
  shows "iderw c b s = Inr (set_buf b (flags_update (\<lambda>f. (f AND NOT B_DIRTY) OR B_VALID))
    (s\<lparr>disk := (disk s)(n := bdata (bufs s b)), dwrites := dwrites s @ [(n, bdata (bufs s b))]\<rparr>))"
  using assms(2-)
  by (simp add: iderw_def holdingsleep_ready[OF assms(1)] iderw_flags not_le bdirty_def n_def Let_def)
    (simp add: set_buf_def o_def)

subsection \<open>One buffer at a time\<close>

lemma bc_ok_upd:
  assumes ok: "bc_ok pd H M s" and b: "b < NBUF" and bufs: "bufs t = (bufs s)(b := x)"
    and link: "bnext x = bnext (bufs s b)" "bprev x = bprev (bufs s b)"
    and H': "\<And>b'. b' \<noteq> b \<Longrightarrow> (b' \<in> H') = (b' \<in> H)" and M': "\<And>b'. b' \<noteq> b \<Longrightarrow> (b' \<in> M') = (b' \<in> M)" and MH: "M' \<subseteq> H'"
    and sl: "\<And>b'. b' \<noteq> b \<Longrightarrow> slocks t (L_buf b') = slocks s (L_buf b')"
    and lb: "slk_locked (slocks t (L_buf b)) = (b \<in> H')" "refcnt x = (if b \<in> H' then 1 else 0)"
      "b \<in> H' \<Longrightarrow> slk_pid (slocks t (L_buf b)) = pd" "b \<in> H' \<Longrightarrow> dev x = 1"
    and xb: "dev x = 1 \<Longrightarrow> bvalid x" "bdirty x \<Longrightarrow> dev x = 1"
    and uniq: "\<And>b'. dev x = 1 \<Longrightarrow> b' < NBUF \<Longrightarrow> b' \<noteq> b \<Longrightarrow> dev (bufs s b') = 1 \<Longrightarrow> blockno (bufs s b') \<noteq> blockno x"
    and dk: "\<And>b'. b' < NBUF \<Longrightarrow> b' \<noteq> b \<Longrightarrow> dev (bufs s b') = 1 \<Longrightarrow>
       disk t (unat (blockno (bufs s b'))) = disk s (unat (blockno (bufs s b')))"
    and xd: "dev x = 1 \<Longrightarrow> \<not> bdirty x \<Longrightarrow> b \<notin> M' \<Longrightarrow> bdata x = disk t (unat (blockno x))"
  shows "bc_ok pd H' M' t"
proof -
  note d = bc_okD[OF ok]
  have sel: "bufs t b' = (if b' = b then x else bufs s b')" for b' by (simp add: bufs)
  have "\<exists>xs. lru (bufs t) xs"
    using d(1) lru_cong[of "bufs t" "bufs s"] link by (auto simp: bufs)
  moreover have "H' \<subseteq> {..<NBUF}"
  proof
    fix y assume "y \<in> H'" then show "y \<in> {..<NBUF}" using d(3) H'[of y] b by (cases "y = b") auto
  qed
  moreover have "slk_locked (slocks t (L_buf b')) = (b' \<in> H')" if "b' < NBUF" for b'
    using that d(4)[of b'] sl[of b'] lb(1) H'[of b'] by (cases "b' = b") auto
  moreover have "refcnt (bufs t b') = (if b' \<in> H' then 1 else 0)" if "b' < NBUF" for b'
    using that d(5)[of b'] lb(2) H'[of b'] by (cases "b' = b") (auto simp: sel)
  moreover have "slk_pid (slocks t (L_buf b')) = pd" if "b' \<in> H'" for b'
    using that d(6)[of b'] sl[of b'] lb(3) H'[of b'] by (cases "b' = b") auto
  moreover have "dev (bufs t b') = 1" if "b' \<in> H'" for b'
    using that d(7)[of b'] lb(4) H'[of b'] by (cases "b' = b") (auto simp: sel)
  moreover have "bvalid (bufs t b')" if "b' < NBUF" "dev (bufs t b') = 1" for b'
    using that d(8)[of b'] xb(1) by (auto simp: sel split: if_splits)
  moreover have "dev (bufs t b') = 1" if "b' < NBUF" "bdirty (bufs t b')" for b'
    using that d(9)[of b'] xb(2) by (auto simp: sel split: if_splits)
  moreover have "b1 = b2" if "b1 < NBUF" "b2 < NBUF" "dev (bufs t b1) = 1" "dev (bufs t b2) = 1"
      "blockno (bufs t b1) = blockno (bufs t b2)" for b1 b2
    using that d(10)[of b1 b2] uniq[of b1] uniq[of b2] by (cases "b1 = b"; cases "b2 = b") (auto simp: sel)
  moreover have "bdata (bufs t b') = disk t (unat (blockno (bufs t b')))"
    if "b' < NBUF" "dev (bufs t b') = 1" "\<not> bdirty (bufs t b')" "b' \<notin> M'" for b'
    using that d(11)[of b'] dk[of b'] xd M'[of b'] by (cases "b' = b") (auto simp: sel)
  ultimately show ?thesis using MH by (intro bc_okI)
qed

lemma bviewI:
  assumes "bc_ok pd H M t" "\<And>b. b < NBUF \<Longrightarrow> dev (bufs t b) = 1 \<Longrightarrow> v (blockno (bufs t b)) = bdata (bufs t b)"
    and "\<And>n. (\<And>b. b < NBUF \<Longrightarrow> dev (bufs t b) = 1 \<Longrightarrow> blockno (bufs t b) \<noteq> n) \<Longrightarrow> v n = disk t (unat n)"
  shows "bview t = v"
proof
  fix n
  show "bview t n = v n"
  proof (cases "\<exists>b<NBUF. dev (bufs t b) = 1 \<and> blockno (bufs t b) = n")
    case True
    then obtain b where "b < NBUF" "dev (bufs t b) = 1" "blockno (bufs t b) = n" by blast
    then show ?thesis using bview_cached[OF assms(1)] assms(2) by metis
  next
    case False
    then have h: "blockno (bufs t b) \<noteq> n" if "b < NBUF" "dev (bufs t b) = 1" for b using that by blast
    show ?thesis using bview_uncached[of t n, OF h] assms(3)[of n, OF h] by metis
  qed
qed

text \<open>What every cache operation leaves alone.\<close>

definition bframe :: "'a bufst_scheme \<Rightarrow> 'a bufst_scheme \<Rightarrow> bool" where
  "bframe s t \<longleftrightarrow> disksize t = disksize s \<and> bufst.more t = bufst.more s \<and> cpus t = cpus s \<and> locks t = locks s \<and>
     (\<forall>l. (\<forall>b. l \<noteq> L_buf b) \<longrightarrow> slocks t l = slocks s l)"

lemma bframe_trans: "bframe s t \<Longrightarrow> bframe t u \<Longrightarrow> bframe s u"
  by (simp add: bframe_def)

lemma bframeD: "bframe s t \<Longrightarrow> disksize t = disksize s" "bframe s t \<Longrightarrow> bufst.more t = bufst.more s"
  by (simp_all add: bframe_def)

definition bread_post :: "nat \<Rightarrow> int \<Rightarrow> nat set \<Rightarrow> nat set \<Rightarrow> uint \<Rightarrow> 'a bufst_scheme \<Rightarrow> nat \<Rightarrow> 'a bufst_scheme \<Rightarrow> bool" where
  "bread_post c pd H M n s b t \<longleftrightarrow> ready c pd t \<and> bc_ok pd (insert b H) M t \<and> b < NBUF \<and> b \<notin> H \<and>
     blockno (bufs t b) = n \<and> bdata (bufs t b) = bview s n \<and> (bdirty (bufs t b) \<longleftrightarrow> n \<in> dirtyset s) \<and>
     (\<forall>x \<in> H. bufs t x = bufs s x) \<and> disk t = disk s \<and> dwrites t = dwrites s \<and> bview t = bview s \<and>
     dirtyset t = dirtyset s \<and> bframe s t"

lemma dirtyset_cong:
  "(\<And>b. b < NBUF \<Longrightarrow> dev (bufs t b) = dev (bufs s b) \<and> blockno (bufs t b) = blockno (bufs s b) \<and> flags (bufs t b) = flags (bufs s b))
   \<Longrightarrow> dirtyset t = dirtyset s"
  by (auto simp: dirtyset_def bdirty_def) metis+

lemma dirtyset_iff:
  assumes "bc_ok pd H M s" "b < NBUF" "dev (bufs s b) = 1"
  shows "blockno (bufs s b) \<in> dirtyset s \<longleftrightarrow> bdirty (bufs s b)"
proof
  assume "blockno (bufs s b) \<in> dirtyset s"
  then obtain b' where b': "b' < NBUF" "dev (bufs s b') = 1" "bdirty (bufs s b')" "blockno (bufs s b) = blockno (bufs s b')"
    unfolding dirtyset_def by blast
  then have "b = b'" using bc_okD(10)[OF assms(1)] assms(2,3) by blast
  then show "bdirty (bufs s b)" using b' by simp
next
  assume "bdirty (bufs s b)" then show "blockno (bufs s b) \<in> dirtyset s" unfolding dirtyset_def using assms by blast
qed

lemma bview_cong:
  assumes "\<And>b. b < NBUF \<Longrightarrow> dev (bufs t b) = dev (bufs s b) \<and> blockno (bufs t b) = blockno (bufs s b) \<and> bdata (bufs t b) = bdata (bufs s b)"
    and "disk t = disk s"
  shows "bview t = bview s"
proof
  fix n
  have "find (\<lambda>b. dev (bufs t b) = 1 \<and> blockno (bufs t b) = n) [0..<NBUF] =
        find (\<lambda>b. dev (bufs s b) = 1 \<and> blockno (bufs s b) = n) [0..<NBUF]"
    using assms(1) by (intro find_cong) auto
  then show "bview t n = bview s n"
    using assms by (auto simp: bview_def split: option.split dest: find_upt_Some)
qed

lemma bread_hit:
  assumes r: "ready c pd s" and ok: "bc_ok pd H M s" and b: "b < NBUF" "b \<notin> H" "dev (bufs s b) = 1" "blockno (bufs s b) = n"
  shows "\<exists>t. bread c 1 n s = Inr (b, t) \<and> bread_post c pd H M n s b t"
proof -
  note d = bc_okD[OF ok]
  obtain xs where xs: "lru (bufs s) xs" using d(1) by blast
  let ?x = "refcnt_update (\<lambda>k. k + 1) (bufs s b)"
  define t where "t = take_slock pd b (set_buf b (refcnt_update (\<lambda>k. k + 1)) s)"
  have "\<exists>b'. find (\<lambda>b. dev (bufs s b) = 1 \<and> blockno (bufs s b) = n) xs = Some b'"
    using xs b by (cases "find (\<lambda>b. dev (bufs s b) = 1 \<and> blockno (bufs s b) = n) xs") (auto simp: find_None_iff lru_def)
  then obtain b' where f: "find (\<lambda>b. dev (bufs s b) = 1 \<and> blockno (bufs s b) = n) xs = Some b'" by blast
  then have b': "b' < NBUF" "dev (bufs s b') = 1" "blockno (bufs s b') = n" using find_SomeD[OF f] xs by (auto simp: lru_def)
  then have "b' = b" using d(10)[of b' b] b by simp
  then have g: "bget c 1 n s = Inr (b, t)" unfolding t_def using bget_hit[OF r xs] f d(4)[OF b(1)] b(2) by simp
  have bt: "bufs t = (bufs s)(b := ?x)" by (simp add: t_def take_slock_def)
  have same: "flags (bufs t x) = flags (bufs s x)" "dev (bufs t x) = dev (bufs s x)" "blockno (bufs t x) = blockno (bufs s x)"
    "bdata (bufs t x) = bdata (bufs s x)" for x by (simp_all add: bt)
  have v: "bvalid (bufs t b)" using d(8)[OF b(1,3)] by (simp add: bvalid_def same)
  then have "bread c 1 n s = Inr (b, t)" by (simp add: bread_def g bvalid_def)
  moreover have okt: "bc_ok pd (insert b H) M t"
  proof (rule bc_ok_upd[OF ok b(1) bt])
    fix b' assume "b' < NBUF" "b' \<noteq> b" "dev (bufs s b') = 1"
    then show "blockno (bufs s b') \<noteq> blockno ?x" using d(10)[of b' b] b by auto
  next
    show "M \<subseteq> insert b H" using d(2) by blast
  next
    assume "\<not> bdirty ?x" "b \<notin> M"
    then show "bdata ?x = disk t (unat (blockno ?x))"
      using d(11)[OF b(1,3)] by (simp add: bdirty_def t_def take_slock_def)
  qed (use d(5,8)[of b] b in \<open>simp_all add: t_def take_slock_def bvalid_def\<close>)
  moreover have "bview t = bview s"
    by (rule bview_cong) (simp_all add: same, simp add: t_def take_slock_def)
  moreover have "dirtyset t = dirtyset s" by (rule dirtyset_cong) (simp add: same)
  moreover have "bdirty (bufs t b) \<longleftrightarrow> n \<in> dirtyset s"
    using dirtyset_iff[OF ok b(1,3)] b(4) by (simp add: bdirty_def same)
  moreover have "bframe s t" "ready c pd t" "disk t = disk s" "dwrites t = dwrites s"
    using r by (simp_all add: bframe_def t_def take_slock_def)
  moreover have "\<forall>x \<in> H. bufs t x = bufs s x" using b(2) by (auto simp: bt)
  ultimately show ?thesis
    unfolding bread_post_def using b bview_cached[OF ok b(1,3,4)] same[of b] by simp
qed

lemma bread_miss:
  assumes r: "ready c pd s" and ok: "bc_ok pd H M s" and n: "n < disksize s"
    and no: "\<And>b. b < NBUF \<Longrightarrow> dev (bufs s b) = 1 \<Longrightarrow> blockno (bufs s b) \<noteq> n"
    and room: "\<exists>b<NBUF. b \<notin> H \<and> \<not> bdirty (bufs s b)"
  shows "\<exists>b t. bread c 1 n s = Inr (b, t) \<and> bread_post c pd H M n s b t"
proof -
  note d = bc_okD[OF ok]
  obtain xs where xs: "lru (bufs s) xs" using d(1) by blast
  have f: "find (\<lambda>b. dev (bufs s b) = 1 \<and> blockno (bufs s b) = n) xs = None"
    using no xs by (auto simp: find_None_iff lru_def)
  have "\<exists>b. find (\<lambda>b. refcnt (bufs s b) = 0 \<and> flags (bufs s b) AND B_DIRTY = 0) (rev xs) = Some b"
    using room d(5) xs
    by (cases "find (\<lambda>b. refcnt (bufs s b) = 0 \<and> flags (bufs s b) AND B_DIRTY = 0) (rev xs)")
      (fastforce simp: find_None_iff lru_def bdirty_def)+
  then obtain b where f2: "find (\<lambda>b. refcnt (bufs s b) = 0 \<and> flags (bufs s b) AND B_DIRTY = 0) (rev xs) = Some b" by blast
  then have "refcnt (bufs s b) = 0" and b: "b < NBUF" "\<not> bdirty (bufs s b)"
    using find_SomeD[OF f2] xs by (auto simp: lru_def bdirty_def)
  then have bH: "b \<notin> H" using d(5)[of b] by auto
  let ?f = "\<lambda>x. x\<lparr>dev := 1, blockno := n, flags := 0, refcnt := 1\<rparr>"
  define u where "u = take_slock pd b (set_buf b ?f s)"
  have g: "bget c 1 n s = Inr (b, u)" unfolding u_def using bget_miss[OF r xs f f2] d(4)[OF b(1)] bH by simp
  have ru: "ready c pd u" using r by (simp add: u_def take_slock_def)
  have bu: "bufs u b = ?f (bufs s b)" by (simp add: u_def take_slock_def)
  define t where "t = set_buf b (\<lambda>x. flags_update (\<lambda>f. f OR B_VALID) (x\<lparr>bdata := disk u (unat (blockno x))\<rparr>)) u"
  have i: "iderw c b u = Inr t" unfolding t_def
    using n by (intro iderw_read[OF ru])
      (simp_all add: bu bvalid_def bdirty_def, simp_all add: u_def take_slock_def)
  then have br: "bread c 1 n s = Inr (b, t)" by (simp add: bread_def g bu)
  define x where "x = flags_update (\<lambda>f. f OR B_VALID) ((?f (bufs s b))\<lparr>bdata := disk s (unat n)\<rparr>)"
  have bt: "bufs t = (bufs s)(b := x)" by (simp add: t_def u_def take_slock_def x_def)
  have dt: "disk t = disk s" "dwrites t = dwrites s" by (simp_all add: t_def u_def take_slock_def)
  have xv: "bvalid x" "\<not> bdirty x" "dev x = 1" "blockno x = n" "bdata x = disk s (unat n)"
    by (simp_all add: x_def bvalid_bit bdirty_bit)
  have okt: "bc_ok pd (insert b H) M t"
  proof (rule bc_ok_upd[OF ok b(1) bt])
    show "M \<subseteq> insert b H" using d(2) by blast
  next
    show "bnext x = bnext (bufs s b)" "bprev x = bprev (bufs s b)" "refcnt x = (if b \<in> insert b H then 1 else 0)"
      by (simp_all add: x_def)
  next
    show "slocks t (L_buf b') = slocks s (L_buf b')" if "b' \<noteq> b" for b'
      using that by (simp add: t_def u_def take_slock_def)
    show "slk_locked (slocks t (L_buf b)) = (b \<in> insert b H)" "slk_pid (slocks t (L_buf b)) = pd"
      by (simp_all add: t_def u_def take_slock_def)
  qed (use xv no in \<open>simp_all add: dt\<close>)
  have old: "bdata (bufs s b) = disk s (unat (blockno (bufs s b)))" if "dev (bufs s b) = 1"
    using d(2) d(11)[OF b(1) that b(2)] bH by blast
  have "bview t = bview s"
  proof (rule bviewI[OF okt])
    fix b' assume "b' < NBUF" "dev (bufs t b') = 1"
    then show "bview s (blockno (bufs t b')) = bdata (bufs t b')"
      using bview_cached[OF ok] bview_uncached[of s n] no xv by (cases "b' = b") (auto simp: bt)
  next
    fix m assume h: "\<And>b. b < NBUF \<Longrightarrow> dev (bufs t b) = 1 \<Longrightarrow> blockno (bufs t b) \<noteq> m"
    show "bview s m = disk t (unat m)"
    proof (cases "dev (bufs s b) = 1 \<and> blockno (bufs s b) = m")
      case True
      then show ?thesis using bview_cached[OF ok b(1)] old by (simp add: dt)
    next
      case False
      have "blockno (bufs s b') \<noteq> m" if "b' < NBUF" "dev (bufs s b') = 1" for b'
        using h[of b'] that False by (cases "b' = b") (auto simp: bt)
      then show ?thesis using bview_uncached[of s m] by (simp add: dt)
    qed
  qed
  moreover have "dirtyset t = dirtyset s"
    using b(2) xv by (auto simp: dirtyset_def bt split: if_splits)
  moreover have "n \<notin> dirtyset s" using no by (auto simp: dirtyset_def)
  moreover have "ready c pd t" using ru by (simp add: t_def)
  moreover have "bframe s t" by (simp add: bframe_def t_def u_def take_slock_def)
  moreover have "bdata (bufs t b) = bview s n" using xv bview_uncached[of s n, OF no] by (simp add: bt)
  moreover have "\<forall>x \<in> H. bufs t x = bufs s x" using bH by (auto simp: bt)
  ultimately have "bread_post c pd H M n s b t"
    unfolding bread_post_def using okt b bH xv dt by (simp add: bt)
  then show ?thesis using br by blast
qed

lemma bread_ok:
  assumes "ready c pd s" "bc_ok pd H M s" "n < disksize s" "\<And>b. b \<in> H \<Longrightarrow> blockno (bufs s b) \<noteq> n"
    and "(\<exists>b<NBUF. b \<notin> H \<and> \<not> bdirty (bufs s b)) \<or> n \<in> dirtyset s"
  obtains b t where "bread c 1 n s = Inr (b, t)" "bread_post c pd H M n s b t"
proof (cases "\<exists>b<NBUF. dev (bufs s b) = 1 \<and> blockno (bufs s b) = n")
  case True
  then obtain b where "b < NBUF" "dev (bufs s b) = 1" "blockno (bufs s b) = n" by blast
  with assms that show ?thesis using bread_hit[OF assms(1,2), of b n] by metis
next
  case False
  then have "n \<notin> dirtyset s" by (auto simp: dirtyset_def)
  with False assms(5) show ?thesis using bread_miss[OF assms(1-3)] that by metis
qed

text \<open>Changing the data of a held buffer, and marking it dirty.\<close>

lemma modify_ok:
  fixes f :: "memory \<Rightarrow> memory"
  assumes "ready c pd s" "bc_ok pd H M s" "b \<in> H"
  defines "t \<equiv> set_buf b (bdata_update f) s"
  shows "ready c pd t" "bc_ok pd H (insert b M) t" "bview t = (bview s)(blockno (bufs s b) := f (bdata (bufs s b)))"
    "dirtyset t = dirtyset s" "bframe s t"
proof -
  note d = bc_okD[OF assms(2)]
  have b: "b < NBUF" "dev (bufs s b) = 1" using assms(3) d(3,7) by auto
  have bt: "bufs t = (bufs s)(b := bdata_update f (bufs s b))" by (simp add: t_def)
  show "ready c pd t" "dirtyset t = dirtyset s" "bframe s t"
    using assms(1) by (simp_all add: t_def bframe_def) (rule dirtyset_cong, simp)
  show okt: "bc_ok pd H (insert b M) t"
  proof (rule bc_ok_upd[OF assms(2) b(1) bt])
    show "insert b M \<subseteq> H" using d(2) assms(3) by blast
    fix b' assume "b' < NBUF" "b' \<noteq> b" "dev (bufs s b') = 1"
    then show "blockno (bufs s b') \<noteq> blockno (bdata_update f (bufs s b))" using d(10)[of b' b] b by auto
  qed (use d(4-9)[of b] assms(3) b in \<open>simp_all add: t_def bvalid_def bdirty_def\<close>)
  show "bview t = (bview s)(blockno (bufs s b) := f (bdata (bufs s b)))"
  proof (rule bviewI[OF okt])
    fix b' assume b': "b' < NBUF" "dev (bufs t b') = 1"
    show "((bview s)(blockno (bufs s b) := f (bdata (bufs s b)))) (blockno (bufs t b')) = bdata (bufs t b')"
    proof (cases "b' = b")
      case False
      then have "blockno (bufs s b') \<noteq> blockno (bufs s b)" using b' b d(10)[of b' b] by (auto simp: bt)
      then show ?thesis using False b' bview_cached[OF assms(2), of b'] by (simp add: bt)
    qed (simp add: bt)
  next
    fix n assume h: "\<And>b. b < NBUF \<Longrightarrow> dev (bufs t b) = 1 \<Longrightarrow> blockno (bufs t b) \<noteq> n"
    have "blockno (bufs s b') \<noteq> n" if "b' < NBUF" "dev (bufs s b') = 1" for b'
      using h[of b'] that by (cases "b' = b") (auto simp: bt)
    then show "((bview s)(blockno (bufs s b) := f (bdata (bufs s b)))) n = disk t (unat n)"
      using b bview_uncached[of s n] by (auto simp: t_def)
  qed
qed

lemma mark_ok:
  assumes "ready c pd s" "bc_ok pd H M s" "b \<in> H"
  defines "t \<equiv> set_buf b (flags_update (\<lambda>f. f OR B_DIRTY)) s"
  shows "ready c pd t" "bc_ok pd H (M - {b}) t" "bview t = bview s"
    "dirtyset t = insert (blockno (bufs s b)) (dirtyset s)" "bframe s t"
proof -
  note d = bc_okD[OF assms(2)]
  let ?x = "flags_update (\<lambda>f. f OR B_DIRTY) (bufs s b)"
  have b: "b < NBUF" "dev (bufs s b) = 1" using assms(3) d(3,7) by auto
  have bt: "bufs t = (bufs s)(b := ?x)" by (simp add: t_def)
  have fl: "bvalid ?x = bvalid (bufs s b)" "bdirty ?x" by (simp_all add: bvalid_bit bdirty_bit bit_simps)
  show "ready c pd t" "bframe s t" using assms(1) by (simp_all add: t_def bframe_def)
  show "bview t = bview s" by (rule bview_cong) (simp_all add: bt, simp add: t_def)
  show okt: "bc_ok pd H (M - {b}) t"
  proof (rule bc_ok_upd[OF assms(2) b(1) bt])
    show "M - {b} \<subseteq> H" using d(2) by blast
    fix b' assume "b' < NBUF" "b' \<noteq> b" "dev (bufs s b') = 1"
    then show "blockno (bufs s b') \<noteq> blockno ?x" using d(10)[of b' b] b by auto
  qed (use d(4-9)[of b] assms(3) b fl in \<open>simp_all add: t_def\<close>)
  show "dirtyset t = insert (blockno (bufs s b)) (dirtyset s)"
  proof (intro set_eqI iffI)
    fix n assume "n \<in> dirtyset t"
    then show "n \<in> insert (blockno (bufs s b)) (dirtyset s)"
      unfolding dirtyset_def bt by (auto split: if_splits)
  next
    fix n assume n: "n \<in> insert (blockno (bufs s b)) (dirtyset s)"
    show "n \<in> dirtyset t"
    proof (cases "n = blockno (bufs s b)")
      case True
      then show ?thesis using b fl unfolding dirtyset_def bt by (intro CollectI exI[of _ b]) simp
    next
      case False
      then obtain b' where "b' < NBUF" "dev (bufs s b') = 1" "bdirty (bufs s b')" "n = blockno (bufs s b')"
        using n unfolding dirtyset_def by blast
      then show ?thesis using fl b unfolding dirtyset_def bt by (intro CollectI exI[of _ b']) simp
    qed
  qed
qed

lemma bwrite_ok:
  assumes "ready c pd s" "bc_ok pd H M s" "b \<in> H" "blockno (bufs s b) < disksize s"
  defines "n \<equiv> blockno (bufs s b)"
  obtains t where "bwrite c b s = Inr t" "ready c pd t" "bc_ok pd H (M - {b}) t" "bview t = bview s"
    "dirtyset t = dirtyset s - {n}" "disk t = (disk s)(unat n := bview s n)"
    "dwrites t = dwrites s @ [(unat n, bview s n)]" "bframe s t"
    "\<And>x. blockno (bufs t x) = blockno (bufs s x)" "\<And>x. bdata (bufs t x) = bdata (bufs s x)"
    "\<And>x. x \<noteq> b \<Longrightarrow> bufs t x = bufs s x"
proof -
  note d = bc_okD[OF assms(2)]
  have b: "b < NBUF" "dev (bufs s b) = 1" using assms(3) d(3,7) by auto
  define u where "u = set_buf b (flags_update (\<lambda>f. f OR B_DIRTY)) s"
  note m = mark_ok[OF assms(1-3), folded u_def]
  have v: "bview s n = bdata (bufs s b)" unfolding n_def by (rule bview_cached[OF assms(2) b(1,2) refl])
  define t where "t = set_buf b (flags_update (\<lambda>f. (f AND NOT B_DIRTY) OR B_VALID))
    (u\<lparr>disk := (disk s)(unat n := bdata (bufs s b)), dwrites := dwrites s @ [(unat n, bdata (bufs s b))]\<rparr>)"
  have bu: "slk_locked (slocks u (L_buf b))" "slk_pid (slocks u (L_buf b)) = pd" "bdirty (bufs u b)" "dev (bufs u b) = 1"
    "blockno (bufs u b) = n" "disksize u = disksize s" "disk u = disk s" "dwrites u = dwrites s" "bdata (bufs u b) = bdata (bufs s b)"
    using d(4)[OF b(1)] d(6)[OF assms(3)] assms(3) b by (simp_all add: u_def bdirty_bit bit_simps n_def)
  have "iderw c b u = Inr t"
    using iderw_write[OF m(1) bu(1-4)] assms(4) by (simp add: bu t_def n_def)
  then have w: "bwrite c b s = Inr t"
    using d(4)[OF b(1)] d(6)[OF assms(3)] assms(3) by (simp add: bwrite_def holdingsleep_ready[OF assms(1)] u_def)
  let ?g = "\<lambda>f. ((f OR B_DIRTY) AND NOT B_DIRTY) OR B_VALID"
  let ?x = "flags_update (\<lambda>f. (f AND NOT B_DIRTY) OR B_VALID) (flags_update (\<lambda>f. f OR B_DIRTY) (bufs s b))"
  have bt: "bufs t = (bufs s)(b := ?x)" by (simp add: t_def u_def)
  have fl: "bvalid ?x" "\<not> bdirty ?x" by (simp_all add: bvalid_bit bdirty_bit bit_simps)
  have dt: "disk t = (disk s)(unat n := bview s n)" "dwrites t = dwrites s @ [(unat n, bview s n)]"
    by (simp_all add: t_def v)
  have other: "blockno (bufs s b') \<noteq> n" if "b' < NBUF" "b' \<noteq> b" "dev (bufs s b') = 1" for b'
    using d(10)[of b' b] b that by (auto simp: n_def)
  have okt: "bc_ok pd H (M - {b}) t"
  proof (rule bc_ok_upd[OF assms(2) b(1) bt])
    show "M - {b} \<subseteq> H" using d(2) by blast
    fix b' assume b': "b' < NBUF" "b' \<noteq> b" "dev (bufs s b') = 1"
    show "blockno (bufs s b') \<noteq> blockno ?x" using other[OF b'] by (simp add: n_def)
    show "disk t (unat (blockno (bufs s b'))) = disk s (unat (blockno (bufs s b')))"
      using other[OF b'] by (auto simp: dt)
  next
    show "bdata ?x = disk t (unat (blockno ?x))" by (simp add: dt v flip: n_def)
  qed (use d(4-9)[of b] assms(3) b fl in \<open>simp_all add: t_def u_def\<close>)
  have "bview t = bview s"
  proof (rule bviewI[OF okt])
    show "bview s (blockno (bufs t b')) = bdata (bufs t b')" if "b' < NBUF" "dev (bufs t b') = 1" for b'
      using that bview_cached[OF assms(2)] by (cases "b' = b") (auto simp: bt)
    fix m assume h: "\<And>b. b < NBUF \<Longrightarrow> dev (bufs t b) = 1 \<Longrightarrow> blockno (bufs t b) \<noteq> m"
    have "blockno (bufs s b') \<noteq> m" if "b' < NBUF" "dev (bufs s b') = 1" for b'
      using h[of b'] that by (cases "b' = b") (auto simp: bt)
    then show "bview s m = disk t (unat m)" using bview_uncached[of s m] b by (auto simp: dt n_def)
  qed
  moreover have "dirtyset t = dirtyset s - {n}"
  proof (intro set_eqI iffI)
    fix m assume "m \<in> dirtyset t"
    then obtain b' where "b' < NBUF" "dev (bufs t b') = 1" "bdirty (bufs t b')" "m = blockno (bufs t b')"
      unfolding dirtyset_def by blast
    moreover then have "b' \<noteq> b" using fl by (auto simp: bt)
    ultimately show "m \<in> dirtyset s - {n}" using other[of b'] unfolding dirtyset_def by (auto simp: bt)
  next
    fix m assume "m \<in> dirtyset s - {n}"
    then obtain b' where "b' < NBUF" "dev (bufs s b') = 1" "bdirty (bufs s b')" "m = blockno (bufs s b')" "m \<noteq> n"
      unfolding dirtyset_def by blast
    moreover then have "b' \<noteq> b" by (auto simp: n_def)
    ultimately show "m \<in> dirtyset t" unfolding dirtyset_def by (intro CollectI exI[of _ b']) (simp add: bt)
  qed
  moreover have "ready c pd t" using m(1) by (simp add: t_def)
  moreover have "bframe s t" by (simp add: bframe_def t_def u_def)
  ultimately show ?thesis using w okt dt by (intro that[of t]) (auto simp: bt)
qed

subsection \<open>Releasing a buffer\<close>

text \<open>What brelse does under the lock of the cache.\<close>

definition unref :: "nat \<Rightarrow> 'a bufst_scheme \<Rightarrow> 'a bufst_scheme" where
  "unref b s =
     (let s = set_buf b (refcnt_update (\<lambda>k. k - 1)) s
      in if refcnt (bufs s b) = 0
         then let s = set_buf (bnext (bufs s b)) (bprev_update (\<lambda>_. bprev (bufs s b))) s;
                  s = set_buf (bprev (bufs s b)) (bnext_update (\<lambda>_. bnext (bufs s b))) s
              in link_front b s
         else s)"

lemma set_buf_locks:
  "set_buf b f (s\<lparr>cpus := a, locks := l\<rparr>) = (set_buf b f s)\<lparr>cpus := a, locks := l\<rparr>"
  "bufs (s\<lparr>cpus := a, locks := l\<rparr>) = bufs s"
  by (simp_all add: set_buf_def)

lemma lockfree_unref: "lockfree (unref b)"
  unfolding lockfree_def unref_def link_front_def Let_def
  by (simp only: set_buf_locks split: if_split) simp

lemma set_buf_field: "(\<And>x. g (f x) = g x) \<Longrightarrow> g (bufs (set_buf q f s) y) = g (bufs s y)"
  by (simp add: set_buf_def)

lemma link_front_field:
  assumes "\<And>x f. g (bnext_update f x) = g x" "\<And>x f. g (bprev_update f x) = g x"
  shows "g (bufs (link_front b s) y) = g (bufs s y)"
  unfolding link_front_def Let_def by (simp only: set_buf_field[of g] assms)

lemma unref_field:
  assumes "\<And>x f. g (bnext_update f x) = g x" "\<And>x f. g (bprev_update f x) = g x"
    "\<And>x f. g (refcnt_update f x) = g x"
  shows "g (bufs (unref b s) y) = g (bufs s y)"
  unfolding unref_def Let_def by (simp only: link_front_field[of g] set_buf_field[of g] assms simp_thms split: if_split)

lemma unref_refcnt: "refcnt (bufs (unref b s) x) = (if x = b then refcnt (bufs s b) - 1 else refcnt (bufs s x))"
proof -
  have l: "refcnt (bufs (link_front b s) y) = refcnt (bufs s y)" for s :: "'a bufst_scheme" and y
    by (rule link_front_field) simp_all
  have p: "refcnt (bufs (set_buf q (bprev_update f) s) y) = refcnt (bufs s y)" for s :: "'a bufst_scheme" and q f y
    by (rule set_buf_field) simp
  have n: "refcnt (bufs (set_buf q (bnext_update f) s) y) = refcnt (bufs s y)" for s :: "'a bufst_scheme" and q f y
    by (rule set_buf_field) simp
  have "refcnt (bufs (unref b s) x) = refcnt (bufs (set_buf b (refcnt_update (\<lambda>k. k - 1)) s) x)"
    unfolding unref_def Let_def by (simp only: l p n simp_thms split: if_split)
  then show ?thesis by simp
qed

lemma unref_sel:
  "slocks (unref b s) = slocks s" "disk (unref b s) = disk s" "dwrites (unref b s) = dwrites s"
  "disksize (unref b s) = disksize s" "bufst.more (unref b s) = bufst.more s" "ptable (unref b s) = ptable s"
  "flags (bufs (unref b s) x) = flags (bufs s x)" "dev (bufs (unref b s) x) = dev (bufs s x)"
  "blockno (bufs (unref b s) x) = blockno (bufs s x)" "bdata (bufs (unref b s) x) = bdata (bufs s x)"
  by (simp_all add: unref_field) (simp_all only: unref_def link_front_def Let_def set_buf_sel simp_thms split: if_split)

lemma lru_unref:
  assumes "lru (bufs s) (us @ b # vs)" "refcnt (bufs s b) = 1"
  shows "lru (bufs (unref b s)) (b # us @ vs)"
proof -
  have dd: "distinct (NBUF # us @ b # vs)" and st: "set (us @ b # vs) = {..<NBUF}"
    using assms(1) by (auto simp: lru_def)
  define s1 where "s1 = set_buf b (refcnt_update (\<lambda>k. k - 1)) s"
  define s2 where "s2 = set_buf (bnext (bufs s1 b)) (bprev_update (\<lambda>_. bprev (bufs s1 b))) s1"
  define s3 where "s3 = set_buf (bprev (bufs s2 b)) (bnext_update (\<lambda>_. bnext (bufs s2 b))) s2"
  have r: "refcnt (bufs s1 b) = 0" using assms(2) by (simp add: s1_def)
  have eq: "unref b s = link_front b s3"
    unfolding unref_def Let_def s3_def s2_def using r by (simp add: s1_def)
  have "seg (bufs s1) NBUF (us @ b # vs) NBUF = seg (bufs s) NBUF (us @ b # vs) NBUF"
    by (rule seg_cong) (auto simp: s1_def)
  then have "seg (bufs s1) NBUF (us @ b # vs) NBUF" using assms(1) by (simp add: lru_def)
  from seg_unlink[OF this dd] have "seg (bufs s3) NBUF (us @ vs) NBUF" by (simp add: s3_def s2_def)
  from seg_link_front[OF this, of b] dd have "seg (bufs (link_front b s3)) NBUF (b # us @ vs) NBUF"
    by (simp add: link_front_def Let_def fun_upd_def)
  with dd st show ?thesis unfolding eq lru_def by auto
qed

lemma brelse_eq:
  assumes "ready c pd s" "slk_locked (slocks s (L_buf b))" "slk_pid (slocks s (L_buf b)) = pd"
  shows "brelse c b s = Inr (unref b
    (wakeup1 (Ch_sleeplock (L_buf b)) (set_slock (L_buf b) (\<lambda>k. k\<lparr>slk_locked := False, slk_pid := 0\<rparr>) s)))"
proof -
  define u where "u = wakeup1 (Ch_sleeplock (L_buf b)) (set_slock (L_buf b) (\<lambda>k. k\<lparr>slk_locked := False, slk_pid := 0\<rparr>) s)"
  have ru: "ready c pd u" using assms(1) by (simp add: u_def)
  have "releasesleep c (L_buf b) s = Inr u" unfolding u_def by (rule releasesleep_ready[OF assms(1)]) simp
  moreover have "release c L_bcache (unref b (acquired c L_bcache u)) = Inr (unref b u)"
    by (rule release_lockfree[OF ready_steady[OF ru] ready_free[OF ru] lockfree_unref])
  ultimately show ?thesis
    using assms(2,3) unfolding u_def[symmetric]
    by (simp add: brelse_def holdingsleep_ready[OF assms(1)] acquire_section[OF ready_steady[OF ru] ready_free[OF ru]]
        unref_def Let_def)
qed

lemma brelse_ok:
  assumes "ready c pd s" "bc_ok pd H M s" "b \<in> H" "b \<notin> M"
  obtains t where "brelse c b s = Inr t" "ready c pd t" "bc_ok pd (H - {b}) M t" "bview t = bview s"
    "dirtyset t = dirtyset s" "disk t = disk s" "dwrites t = dwrites s" "bframe s t"
    "\<And>x. blockno (bufs t x) = blockno (bufs s x)" "\<And>x. flags (bufs t x) = flags (bufs s x)"
    "\<And>x. bdata (bufs t x) = bdata (bufs s x)"
proof -
  note d = bc_okD[OF assms(2)]
  have b: "b < NBUF" using assms(3) d(3) by auto
  define u where "u = wakeup1 (Ch_sleeplock (L_buf b)) (set_slock (L_buf b) (\<lambda>k. k\<lparr>slk_locked := False, slk_pid := 0\<rparr>) s)"
  define t where "t = unref b u"
  have ru: "ready c pd u" using assms(1) by (simp add: u_def)
  have e: "brelse c b s = Inr t"
    unfolding t_def u_def using brelse_eq[OF assms(1)] d(4)[OF b] d(6)[OF assms(3)] assms(3) by simp
  have bu: "bufs u = bufs s" by (simp add: u_def)
  have tm: "bufst.more t = bufst.more s" "disksize t = disksize s" "disk t = disk s" "dwrites t = dwrites s"
    by (simp_all add: t_def unref_sel u_def)
  have tc: "cpus t = cpus s" "locks t = locks s"
    using lockfree_sel[OF lockfree_unref, of b u] by (simp_all add: t_def u_def)
  have sl: "slocks t = (slocks s)(L_buf b := (slocks s (L_buf b))\<lparr>slk_locked := False, slk_pid := 0\<rparr>)"
    by (simp add: t_def unref_sel u_def)
  have same: "flags (bufs t x) = flags (bufs s x)" "dev (bufs t x) = dev (bufs s x)" "blockno (bufs t x) = blockno (bufs s x)"
    "bdata (bufs t x) = bdata (bufs s x)" for x by (simp_all add: t_def unref_sel bu)
  have bits: "bvalid (bufs t x) = bvalid (bufs s x)" "bdirty (bufs t x) = bdirty (bufs s x)" for x
    by (simp_all add: bvalid_def bdirty_def same)
  obtain xs where xs: "lru (bufs s) xs" using d(1) by blast
  then have "b \<in> set xs" using b by (simp add: lru_def)
  then obtain us vs where "xs = us @ b # vs" by (meson split_list)
  then have l: "lru (bufs t) (b # us @ vs)"
    unfolding t_def using xs d(5)[OF b] assms(3) by (intro lru_unref) (simp_all add: bu)
  have rc: "refcnt (bufs t x) = (if x \<in> H - {b} then 1 else 0)" if "x < NBUF" for x
    using d(5)[of x] d(5)[OF b] assms(3) that by (auto simp: t_def unref_refcnt bu)
  have "bc_ok pd (H - {b}) M t"
  proof (rule bc_okI)
    show "\<exists>xs. lru (bufs t) xs" using l by blast
    show "M \<subseteq> H - {b}" "H - {b} \<subseteq> {..<NBUF}" using d(2,3) assms(4) by auto
    show "b1 = b2" if "b1 < NBUF" "b2 < NBUF" "dev (bufs t b1) = 1" "dev (bufs t b2) = 1"
      "blockno (bufs t b1) = blockno (bufs t b2)" for b1 b2 using d(10)[of b1 b2] that by (simp add: same)
  qed (use d(4,6,7,8,9,11) in \<open>simp_all add: same bits rc sl tm\<close>)
  moreover have "bview t = bview s" by (rule bview_cong) (simp_all add: same tm)
  moreover have "dirtyset t = dirtyset s" by (rule dirtyset_cong) (simp add: same)
  moreover have "ready c pd t"
    by (rule ready_cong[OF ru]) (simp_all add: tc, simp_all add: t_def unref_sel u_def)
  moreover have "bframe s t" using tm tc by (simp add: bframe_def sl)
  ultimately show ?thesis using e tm same by (intro that[of t]) simp_all
qed

subsection \<open>Initialisation\<close>

lemma initsleeplock_sel [simp]:
  "bufs (initsleeplock l n s) = bufs s" "disk (initsleeplock l n s) = disk s" "dwrites (initsleeplock l n s) = dwrites s"
  "slocks (initsleeplock l n s) = (slocks s)(l := (slocks s l)\<lparr>slk_name := n, slk_locked := False, slk_pid := 0\<rparr>)"
  by (simp_all add: initsleeplock_def initlock_def Let_def set_slock_def set_lock_def)

lemma binit_loop_step:
  "binit_loop (b # bs) s = binit_loop bs (link_front b (initsleeplock (L_buf b) ''buffer'' s))"
  by (simp add: link_front_def Let_def) (simp add: initsleeplock_def initlock_def Let_def set_slock_def set_lock_def set_buf_def)

lemma seg_binit_loop:
  "seg (bufs s) NBUF xs NBUF \<Longrightarrow> distinct (NBUF # bs @ xs) \<Longrightarrow> seg (bufs (binit_loop bs s)) NBUF (rev bs @ xs) NBUF"
proof (induction bs arbitrary: s xs)
  case (Cons b bs)
  let ?t = "link_front b (initsleeplock (L_buf b) ''buffer'' s)"
  have "seg (bufs ?t) NBUF (b # xs) NBUF"
    using seg_link_front[of "bufs s" NBUF xs b] Cons.prems by (simp add: link_front_def Let_def fun_upd_def)
  then have "seg (bufs (binit_loop bs ?t)) NBUF (rev bs @ b # xs) NBUF"
    using Cons.prems(2) by (intro Cons.IH) auto
  then show ?case by (simp add: binit_loop_step del: binit_loop.simps)
qed simp

lemma binit_loop_field:
  assumes "\<And>x f. g (bnext_update f x) = g x" "\<And>x f. g (bprev_update f x) = g x"
  shows "g (bufs (binit_loop bs s) y) = g (bufs s y)"
proof (induction bs arbitrary: s)
  case (Cons b bs)
  then show ?case
    using link_front_field[of g b "initsleeplock (L_buf b) ''buffer'' s" y] assms
    by (simp add: binit_loop_step del: binit_loop.simps)
qed simp

lemma link_front_other: "slocks (link_front b s) = slocks s" "disk (link_front b s) = disk s"
  by (simp_all add: link_front_def Let_def)

lemma binit_loop_locks:
  "b \<in> set bs \<Longrightarrow> \<not> slk_locked (slocks (binit_loop bs s) (L_buf b))"
  "\<not> slk_locked (slocks s (L_buf b)) \<Longrightarrow> \<not> slk_locked (slocks (binit_loop bs s) (L_buf b))"
proof (induction bs arbitrary: s)
  case (Cons x bs)
  { case 1
    then show ?case using Cons by (cases "x = b") (auto simp: binit_loop_step link_front_other simp del: binit_loop.simps) }
  { case 2
    then show ?case using Cons by (auto simp: binit_loop_step link_front_other simp del: binit_loop.simps) }
qed auto

lemma binit_seg: "lru (bufs (binit s)) (rev [0..<NBUF])"
proof -
  define u where "u = set_buf NBUF (\<lambda>x. x\<lparr>bprev := NBUF, bnext := NBUF\<rparr>) (initlock L_bcache ''bcache'' s)"
  have "seg (bufs u) NBUF [] NBUF" by (simp add: u_def)
  from seg_binit_loop[OF this, of "[0..<NBUF]"]
  have "seg (bufs (binit s)) NBUF (rev [0..<NBUF]) NBUF" by (simp add: binit_def Let_def u_def)
  then show ?thesis by (auto simp: lru_def)
qed

lemma binit_ok:
  assumes "\<And>b. b < NBUF \<Longrightarrow> refcnt (bufs s b) = 0 \<and> dev (bufs s b) \<noteq> 1 \<and> flags (bufs s b) = 0"
  shows "bc_ok pd {} {} (binit s)" "dirtyset (binit s) = {}"
proof -
  define u where "u = set_buf NBUF (\<lambda>x. x\<lparr>bprev := NBUF, bnext := NBUF\<rparr>) (initlock L_bcache ''bcache'' s)"
  have eq: "binit s = binit_loop [0..<NBUF] u" by (simp add: binit_def Let_def u_def)
  have u: "bufs u b = bufs s b" if "b < NBUF" for b
    using that by (simp add: u_def initlock_def set_lock_def)
  have f: "refcnt (bufs (binit s) b) = 0" "dev (bufs (binit s) b) \<noteq> 1" "flags (bufs (binit s) b) = 0" if "b < NBUF" for b
    using assms[OF that] u[OF that] by (simp_all add: eq binit_loop_field)
  show "bc_ok pd {} {} (binit s)"
  proof (rule bc_okI)
    show "\<exists>xs. lru (bufs (binit s)) xs" using binit_seg by blast
    show "slk_locked (slocks (binit s) (L_buf b)) = (b \<in> {})" if "b < NBUF" for b
      using binit_loop_locks(1)[of b "[0..<NBUF]" u] that by (simp add: eq)
  qed (use f in \<open>auto simp: bdirty_def\<close>)
  show "dirtyset (binit s) = {}" using f by (auto simp: dirtyset_def)
qed

lemma dirty_room:
  assumes "bc_ok pd H M s" "finite D" "dirtyset s \<subseteq> D" "card D + card H < NBUF"
  shows "\<exists>b<NBUF. b \<notin> H \<and> \<not> bdirty (bufs s b)"
proof (rule ccontr)
  assume no: "\<not> ?thesis"
  note d = bc_okD[OF assms(1)]
  let ?B = "{..<NBUF} - H"
  have h: "bdirty (bufs s b)" "dev (bufs s b) = 1" if "b \<in> ?B" for b using no d(9)[of b] that by auto
  have "inj_on (\<lambda>b. blockno (bufs s b)) ?B"
  proof (rule inj_onI)
    fix x y assume "x \<in> ?B" "y \<in> ?B" "blockno (bufs s x) = blockno (bufs s y)"
    then show "x = y" using d(10)[of x y] h(2) by simp
  qed
  moreover have "(\<lambda>b. blockno (bufs s b)) ` ?B \<subseteq> D" using h assms(3) by (auto simp: dirtyset_def)
  ultimately have "card ?B \<le> card D" using assms(2) by (metis card_inj_on_le)
  moreover have "card ?B = NBUF - card H" using d(3) by (simp add: card_Diff_subset finite_subset)
  ultimately show False using assms(4) by simp
qed

end
