(* ===== verification/Loginv.thy ===== *)
theory Loginv
  imports Log Bioinv
begin

text \<open>
  Crash safety of the log.  The disk writes of a commit are known exactly and in order; cutting
  them anywhere and running recovery leaves the home blocks either all old or all new.
\<close>

subsection \<open>Blocks of the log\<close>

definition lblk :: "'a logst_scheme \<Rightarrow> nat \<Rightarrow> uint" where
  "lblk s i = word_of_int (log_start s + int i)"

definition hblk :: "'a logst_scheme \<Rightarrow> nat \<Rightarrow> uint" where
  "hblk s i = word_of_int (lh_block s i)"

text \<open>
  A log with \<open>n\<close> blocks recorded: the log lies on the disk, the recorded blocks are distinct
  blocks of the disk outside the log.
\<close>

definition log_wf :: "nat \<Rightarrow> 'a logst_scheme \<Rightarrow> bool" where
  "log_wf n s \<longleftrightarrow> log_dev s = 1 \<and> (\<forall>i \<le> n. lblk s i < disksize s) \<and> inj_on (lblk s) {..n} \<and>
     (\<forall>i < n. hblk s i < disksize s) \<and> inj_on (hblk s) {..<n} \<and> (\<forall>i \<le> n. \<forall>j < n. lblk s i \<noteq> hblk s j)"

lemma log_wfD:
  assumes "log_wf n s"
  shows "log_dev s = 1" "i \<le> n \<Longrightarrow> lblk s i < disksize s" "i < n \<Longrightarrow> hblk s i < disksize s"
    "i \<le> n \<Longrightarrow> j < n \<Longrightarrow> lblk s i \<noteq> hblk s j" "i \<le> n \<Longrightarrow> j \<le> n \<Longrightarrow> lblk s i = lblk s j \<Longrightarrow> i = j"
    "i < n \<Longrightarrow> j < n \<Longrightarrow> hblk s i = hblk s j \<Longrightarrow> i = j" "bdev s = 1"
  using assms by (auto simp: log_wf_def inj_on_def bdev_def)

lemma logst_more:
  fixes s t :: "'a logst_scheme"
  assumes "bufst.more t = bufst.more s"
  shows "log_start t = log_start s" "log_size t = log_size s" "outstanding t = outstanding s"
    "committing t = committing s" "log_dev t = log_dev s" "lh_n t = lh_n s" "lh_block t = lh_block s"
    "logst.more t = logst.more s"
  using assms by (cases s; cases t; simp)+

lemma bframe_log:
  fixes s t :: "'a logst_scheme"
  assumes "bframe s t"
  shows "lblk t = lblk s" "hblk t = hblk s" "bdev t = bdev s" "lh_n t = lh_n s" "lh_block t = lh_block s"
    "log_start t = log_start s" "disksize t = disksize s" "log_wf n t = log_wf n s"
proof -
  note m = logst_more[OF bframeD(2)[OF assms]] bframeD(1)[OF assms]
  show h: "lblk t = lblk s" "hblk t = hblk s" "bdev t = bdev s" "lh_n t = lh_n s" "lh_block t = lh_block s"
    "log_start t = log_start s" "disksize t = disksize s"
    by (simp_all add: m lblk_def hblk_def bdev_def fun_eq_iff)
  show "log_wf n t = log_wf n s" by (simp add: log_wf_def h m)
qed

text \<open>A list of disk writes applied in order.\<close>

definition dapply :: "(nat \<times> memory) list \<Rightarrow> (nat \<Rightarrow> memory) \<Rightarrow> nat \<Rightarrow> memory" where
  "dapply ws d = fold (\<lambda>(n, m) d. d(n := m)) ws d"

lemma dapply_simps [simp]:
  "dapply [] d = d" "dapply ((n, m) # ws) d = dapply ws (d(n := m))" "dapply (us @ ws) d = dapply ws (dapply us d)"
  by (simp_all add: dapply_def)

lemma dapply_other: "k \<notin> fst ` set ws \<Longrightarrow> dapply ws d k = d k"
  by (induction ws arbitrary: d) (auto simp: dapply_def split: prod.split)

lemma dapply_map:
  assumes "distinct (map f xs)" "x \<in> set xs"
  shows "dapply (map (\<lambda>x. (f x, g x)) xs) d (f x) = g x"
  using assms
proof (induction xs arbitrary: d)
  case (Cons y ys)
  show ?case
  proof (cases "x = y")
    case True
    then have "f x \<notin> fst ` set (map (\<lambda>x. (f x, g x)) ys)" using Cons.prems by force
    then show ?thesis using True by (simp add: dapply_other)
  next
    case False
    then show ?thesis using Cons by simp
  qed
qed simp

subsection \<open>Copying one block\<close>

text \<open>
  The common body of the loops of write_log and install_trans: read block \<open>src\<close> and block \<open>dst\<close>,
  copy the data and write \<open>dst\<close>.
\<close>

definition copied :: "nat \<Rightarrow> int \<Rightarrow> uint \<Rightarrow> uint \<Rightarrow> 'a bufst_scheme \<Rightarrow> 'a bufst_scheme \<Rightarrow> bool" where
  "copied c pd src dst s t \<longleftrightarrow> ready c pd t \<and> bc_ok pd {} {} t \<and> bview t = (bview s)(dst := bview s src) \<and>
     dirtyset t = dirtyset s - {dst} \<and> disk t = (disk s)(unat dst := bview s src) \<and>
     dwrites t = dwrites s @ [(unat dst, bview s src)] \<and> bframe s t"

lemma copy_tail:
  assumes "ready c pd s" "bc_ok pd {a, b} {} s" "a \<noteq> b" "blockno (bufs s a) = src" "blockno (bufs s b) = dst"
    "dst < disksize s" "bdata (bufs s a) = bview s src"
    and "x = a \<and> y = b \<or> x = b \<and> y = a"
  shows "\<exists>t. bindE (bwrite c b (set_buf b (bdata_update (\<lambda>_. bdata (bufs s a))) s)) (\<lambda>s.
     bindE (brelse c x s) (brelse c y)) = Inr t \<and> copied c pd src dst s t"
proof -
  define u where "u = set_buf b (bdata_update (\<lambda>_. bdata (bufs s a))) s"
  have "b \<in> {a, b}" by simp
  note m = modify_ok[OF assms(1,2) this, of "\<lambda>_. bdata (bufs s a)", folded u_def]
  have bu: "blockno (bufs u b) = dst" "disk u = disk s" "dwrites u = dwrites s" using assms(5) by (simp_all add: u_def)
  have "blockno (bufs u b) < disksize u" using assms(6) bframeD(1)[OF m(5)] bu by simp
  note lt = this
  have bin: "b \<in> {a, b}" by simp
  have "\<exists>v. bwrite c b u = Inr v \<and> ready c pd v \<and> bc_ok pd {a, b} ({b} - {b}) v \<and>
    bview v = bview u \<and> dirtyset v = dirtyset u - {blockno (bufs u b)} \<and>
    disk v = (disk u)(unat (blockno (bufs u b)) := bview u (blockno (bufs u b))) \<and>
    dwrites v = dwrites u @ [(unat (blockno (bufs u b)), bview u (blockno (bufs u b)))] \<and> bframe u v"
    by (rule bwrite_ok[OF m(1,2) bin lt]) blast
  then obtain v where v: "bwrite c b u = Inr v" "ready c pd v" "bc_ok pd {a, b} ({b} - {b}) v"
    "bview v = bview u" "dirtyset v = dirtyset u - {dst}" "disk v = (disk u)(unat dst := bview u dst)"
    "dwrites v = dwrites u @ [(unat dst, bview u dst)]" "bframe u v" unfolding bu by blast
  have bv: "bview u = (bview s)(dst := bview s src)" using m(3) assms(5,7) by simp
  have xy: "x \<in> {a, b}" "y \<in> {a, b} - {x}" "{a, b} - {x} - {y} = {}" using assms(3,8) by auto
  have vk: "bc_ok pd {a, b} {} v" using v(3) by simp
  have e: "z \<notin> {}" for z :: nat by simp
  obtain w where w: "brelse c x v = Inr w" "ready c pd w" "bc_ok pd ({a, b} - {x}) {} w"
    "bview w = bview v" "dirtyset w = dirtyset v" "disk w = disk v" "dwrites w = dwrites v" "bframe v w"
    by (rule brelse_ok[OF v(2) vk xy(1) e])
  obtain t where t: "brelse c y w = Inr t" "ready c pd t" "bc_ok pd ({a, b} - {x} - {y}) {} t"
    "bview t = bview w" "dirtyset t = dirtyset w" "disk t = disk w" "dwrites t = dwrites w" "bframe w t"
    by (rule brelse_ok[OF w(2,3) xy(2) e])
  have "bframe s t" using m(5) v(8) w(8) t(8) bframe_trans by metis
  then have "copied c pd src dst s t"
    unfolding copied_def using t v w xy(3) bv m(4) bu by simp
  then show ?thesis using v(1) w(1) t(1) by (simp add: u_def)
qed

lemma two_reads:
  assumes r: "ready c pd s" and ok: "bc_ok pd {} {} s" and n: "n1 < disksize s" "n2 < disksize s" "n1 \<noteq> n2"
    and D: "finite (dirtyset s)" "card (dirtyset s) < NBUF" "n2 \<in> dirtyset s \<or> dirtyset s = {}"
  obtains a u b t where "bread c 1 n1 s = Inr (a, u)" "bframe s u" "bread c 1 n2 u = Inr (b, t)" "ready c pd t"
    "bc_ok pd {a, b} {} t" "a \<noteq> b" "blockno (bufs t a) = n1" "blockno (bufs t b) = n2"
    "bdata (bufs t a) = bview t n1" "bdata (bufs t b) = bview t n2" "bview t = bview s" "dirtyset t = dirtyset s"
    "disk t = disk s" "dwrites t = dwrites s" "bframe s t"
proof -
  have room: "(\<exists>b<NBUF. b \<notin> {} \<and> \<not> bdirty (bufs s b)) \<or> n1 \<in> dirtyset s"
    using dirty_room[OF ok D(1) order_refl] D(2) by simp
  obtain a u where a: "bread c 1 n1 s = Inr (a, u)" "bread_post c pd {} {} n1 s a u"
    by (rule bread_ok[OF r ok n(1) _ room]) auto
  note A = a(2)[unfolded bread_post_def]
  have ru: "ready c pd u" and ou: "bc_ok pd {a} {} u" and fu: "bframe s u" and au: "blockno (bufs u a) = n1"
    and vu: "bview u = bview s" "dirtyset u = dirtyset s" "disk u = disk s" "dwrites u = dwrites s"
    and da: "bdata (bufs u a) = bview s n1" using A by auto
  have "n2 < disksize u" using n(2) bframeD(1)[OF fu] by simp
  have room2: "(\<exists>b<NBUF. b \<notin> {a} \<and> \<not> bdirty (bufs u b)) \<or> n2 \<in> dirtyset u"
    using dirty_room[OF ou, of "{}"] D(3) vu(2) by (auto simp: NBUF_def)
  have ne: "blockno (bufs u x) \<noteq> n2" if "x \<in> {a}" for x using that au n(3) by simp
  obtain b t where b: "bread c 1 n2 u = Inr (b, t)" "bread_post c pd {a} {} n2 u b t"
    by (rule bread_ok[OF ru ou \<open>n2 < disksize u\<close> ne room2])
  note B = b(2)[unfolded bread_post_def]
  have sa: "bufs t a = bufs u a" using B by simp
  show ?thesis
  proof (rule that[OF a(1) fu b(1)])
    show "bc_ok pd {a, b} {} t" using B by (simp add: insert_commute)
    show "bframe s t" using fu B bframe_trans by blast
  qed (use B sa au vu da in auto)
qed

lemma copied_cong:
  assumes "copied c pd src dst s' t" "bview s' = bview s" "dirtyset s' = dirtyset s" "disk s' = disk s"
    "dwrites s' = dwrites s" "bframe s s'"
  shows "copied c pd src dst s t"
  using assms bframe_trans[of s s' t] unfolding copied_def by simp

text \<open>One turn of write_log copies a home block to its log block, one turn of install_trans back.\<close>

lemma write_log_turn:
  assumes r: "ready c pd s" and ok: "bc_ok pd {} {} s" and wf: "log_wf n s" and i: "i < n"
    and D: "dirtyset s = hblk s ` {..<n}" "n < NBUF"
  obtains t where "write_log_loop c (i # ts) s = write_log_loop c ts t" "copied c pd (hblk s i) (lblk s (Suc i)) s t"
proof -
  note w = log_wfD[OF wf]
  have fin: "finite (dirtyset s)" "card (dirtyset s) < NBUF"
    using D card_image_le[of "{..<n}" "hblk s"] by auto
  have hd: "hblk s i \<in> dirtyset s \<or> dirtyset s = {}" using D i by simp
  obtain a u b v where v: "bread c 1 (lblk s (Suc i)) s = Inr (a, u)" "bframe s u" "bread c 1 (hblk s i) u = Inr (b, v)" "ready c pd v"
    "bc_ok pd {a, b} {} v" "a \<noteq> b" "blockno (bufs v a) = lblk s (Suc i)" "blockno (bufs v b) = hblk s i"
    "bdata (bufs v a) = bview v (lblk s (Suc i))" "bdata (bufs v b) = bview v (hblk s i)" "bview v = bview s" "dirtyset v = dirtyset s"
    "disk v = disk s" "dwrites v = dwrites s" "bframe s v"
    by (rule two_reads[OF r ok w(2)[of "Suc i"] w(3)[OF i] w(4)[of "Suc i" i] fin hd]) (use i in auto)
  have bb: "bc_ok pd {b, a} {} v" using v(5) by (simp add: insert_commute)
  have "lblk s (Suc i) < disksize v" using w(2)[of "Suc i"] i bframeD(1)[OF v(15)] by simp
  from copy_tail[OF v(4) bb v(6)[symmetric] v(8,7) this v(10), of b a]
  obtain t where t: "bindE (bwrite c a (set_buf a (bdata_update (\<lambda>_. bdata (bufs v b))) v)) (\<lambda>s.
     bindE (brelse c b s) (brelse c a)) = Inr t" "copied c pd (hblk s i) (lblk s (Suc i)) v t" by auto
  have "write_log_loop c (i # ts) s = write_log_loop c ts t"
    using t(1) v(1,3) bframe_log[OF v(2)] w(7)
    by (auto simp: lblk_def hblk_def Let_def bindE_eq_Inr ac_simps)
  with copied_cong[OF t(2) v(11-15)] show ?thesis by (intro that)
qed

lemma install_turn:
  assumes r: "ready c pd s" and ok: "bc_ok pd {} {} s" and wf: "log_wf n s" and i: "i < n"
    and D: "dirtyset s \<subseteq> hblk s ` {..<n}" "n < NBUF" "hblk s i \<in> dirtyset s \<or> dirtyset s = {}"
  obtains t where "install_trans_loop c (i # ts) s = install_trans_loop c ts t" "copied c pd (lblk s (Suc i)) (hblk s i) s t"
proof -
  note w = log_wfD[OF wf]
  have "card (dirtyset s) \<le> card (hblk s ` {..<n})" using D(1) by (intro card_mono) auto
  then have fin: "finite (dirtyset s)" "card (dirtyset s) < NBUF"
    using D(1,2) card_image_le[of "{..<n}" "hblk s"] finite_subset[OF D(1)] by auto
  obtain a u b v where v: "bread c 1 (lblk s (Suc i)) s = Inr (a, u)" "bframe s u" "bread c 1 (hblk s i) u = Inr (b, v)" "ready c pd v"
    "bc_ok pd {a, b} {} v" "a \<noteq> b" "blockno (bufs v a) = lblk s (Suc i)" "blockno (bufs v b) = hblk s i"
    "bdata (bufs v a) = bview v (lblk s (Suc i))" "bdata (bufs v b) = bview v (hblk s i)" "bview v = bview s" "dirtyset v = dirtyset s"
    "disk v = disk s" "dwrites v = dwrites s" "bframe s v"
    by (rule two_reads[OF r ok w(2)[of "Suc i"] w(3)[OF i] w(4)[of "Suc i" i] fin D(3)]) (use i in auto)
  have "hblk s i < disksize v" using w(3)[OF i] bframeD(1)[OF v(15)] by simp
  from copy_tail[OF v(4,5,6,7,8) this v(9), of a b]
  obtain t where t: "bindE (bwrite c b (set_buf b (bdata_update (\<lambda>_. bdata (bufs v a))) v)) (\<lambda>s.
     bindE (brelse c a s) (brelse c b)) = Inr t" "copied c pd (lblk s (Suc i)) (hblk s i) v t" by auto
  have "install_trans_loop c (i # ts) s = install_trans_loop c ts t"
    using t(1) v(1,3) bframe_log[OF v(2)] w(7)
    by (auto simp: lblk_def hblk_def Let_def bindE_eq_Inr ac_simps)
  with copied_cong[OF t(2) v(11-15)] show ?thesis by (intro that)
qed

subsection \<open>The loops\<close>

text \<open>The effect of a list of writes on what the kernel sees.\<close>

definition vapply :: "(uint \<times> memory) list \<Rightarrow> (uint \<Rightarrow> memory) \<Rightarrow> uint \<Rightarrow> memory" where
  "vapply ws v = fold (\<lambda>(n, m) v. v(n := m)) ws v"

definition wrote :: "nat \<Rightarrow> int \<Rightarrow> (uint \<times> memory) list \<Rightarrow> 'a bufst_scheme \<Rightarrow> 'a bufst_scheme \<Rightarrow> bool" where
  "wrote c pd ws s t \<longleftrightarrow> ready c pd t \<and> bc_ok pd {} {} t \<and> bview t = vapply ws (bview s) \<and>
     dirtyset t = dirtyset s - fst ` set ws \<and>
     disk t = dapply (map (\<lambda>(n, m). (unat n, m)) ws) (disk s) \<and>
     dwrites t = dwrites s @ map (\<lambda>(n, m). (unat n, m)) ws \<and> bframe s t"

lemma bframe_refl: "bframe s s" by (simp add: bframe_def)

lemma wrote_nil: "ready c pd s \<Longrightarrow> bc_ok pd {} {} s \<Longrightarrow> wrote c pd [] s s"
  by (simp add: wrote_def vapply_def bframe_refl)

lemma wrote_trans: "wrote c pd us s t \<Longrightarrow> wrote c pd ws t u \<Longrightarrow> wrote c pd (us @ ws) s u"
  unfolding wrote_def by (auto simp: vapply_def intro: bframe_trans)

lemma copied_wrote: "copied c pd src dst s t \<Longrightarrow> wrote c pd [(dst, bview s src)] s t"
  unfolding wrote_def copied_def by (simp add: vapply_def)

lemma vapply_other: "n \<notin> fst ` set ws \<Longrightarrow> vapply ws v n = v n"
  by (induction ws arbitrary: v) (auto simp: vapply_def)

lemma write_log_loop_ok:
  assumes "ready c pd s" "bc_ok pd {} {} s" "log_wf n s" "dirtyset s = hblk s ` {..<n}" "n < NBUF"
    and "distinct ts" "set ts \<subseteq> {..<n}"
  shows "\<exists>t. write_log_loop c ts s = Inr t \<and> wrote c pd (map (\<lambda>i. (lblk s (Suc i), bview s (hblk s i))) ts) s t"
  using assms
proof (induction ts arbitrary: s)
  case Nil
  then show ?case using wrote_nil by fastforce
next
  case (Cons i ts)
  have i: "i < n" "i \<notin> set ts" "distinct ts" "set ts \<subseteq> {..<n}" using Cons.prems by auto
  note w = log_wfD[OF Cons.prems(3)]
  obtain u where u: "write_log_loop c (i # ts) s = write_log_loop c ts u" "copied c pd (hblk s i) (lblk s (Suc i)) s u"
    by (rule write_log_turn[OF Cons.prems(1-3) i(1) Cons.prems(4,5)])
  note U = u(2)[unfolded copied_def]
  note f = bframe_log[OF U[THEN conjunct2, THEN conjunct2, THEN conjunct2, THEN conjunct2, THEN conjunct2, THEN conjunct2]]
  have "lblk s (Suc i) \<notin> dirtyset s" using Cons.prems(4) w(4)[of "Suc i"] i(1) by auto
  then have "dirtyset u = hblk u ` {..<n}" using U Cons.prems(4) by (simp add: f)
  from Cons.IH[OF _ _ _ this Cons.prems(5) i(3,4)] U Cons.prems(3) obtain t where
    t: "write_log_loop c ts u = Inr t" "wrote c pd (map (\<lambda>i. (lblk u (Suc i), bview u (hblk u i))) ts) u t"
    by (auto simp: f)
  have "bview u (hblk s j) = bview s (hblk s j)" if "j \<in> set ts" for j
    using U w(4)[of "Suc i" j] i that by (auto simp: subset_eq)
  then have "map (\<lambda>i. (lblk u (Suc i), bview u (hblk u i))) ts = map (\<lambda>i. (lblk s (Suc i), bview s (hblk s i))) ts"
    by (simp add: f)
  with wrote_trans[OF copied_wrote[OF u(2)] t(2)] t(1) u(1) show ?case by auto
qed

lemma install_loop_ok:
  assumes "ready c pd s" "bc_ok pd {} {} s" "log_wf n s" "n < NBUF" "distinct ts" "set ts \<subseteq> {..<n}"
    and "dirtyset s = hblk s ` set ts \<or> dirtyset s = {}"
  shows "\<exists>t. install_trans_loop c ts s = Inr t \<and> wrote c pd (map (\<lambda>i. (hblk s i, bview s (lblk s (Suc i)))) ts) s t"
  using assms
proof (induction ts arbitrary: s)
  case Nil
  then show ?case using wrote_nil by fastforce
next
  case (Cons i ts)
  have i: "i < n" "i \<notin> set ts" "distinct ts" "set ts \<subseteq> {..<n}" using Cons.prems by auto
  note w = log_wfD[OF Cons.prems(3)]
  have "hblk s ` set (i # ts) \<subseteq> hblk s ` {..<n}" by (rule image_mono[OF Cons.prems(6)])
  then have D: "dirtyset s \<subseteq> hblk s ` {..<n}" using Cons.prems(7) by (elim disjE) simp_all
  have D2: "hblk s i \<in> dirtyset s \<or> dirtyset s = {}" using Cons.prems(7) by auto
  obtain u where u: "install_trans_loop c (i # ts) s = install_trans_loop c ts u" "copied c pd (lblk s (Suc i)) (hblk s i) s u"
    by (rule install_turn[OF Cons.prems(1-3) i(1) D Cons.prems(4) D2])
  note U = u(2)[unfolded copied_def]
  note f = bframe_log[OF U[THEN conjunct2, THEN conjunct2, THEN conjunct2, THEN conjunct2, THEN conjunct2, THEN conjunct2]]
  have "hblk s i \<notin> hblk s ` set ts" using w(6)[of i] i by auto
  moreover have "dirtyset u = dirtyset s - {hblk s i}" using U by blast
  ultimately have "dirtyset u = hblk u ` set ts \<or> dirtyset u = {}"
    using Cons.prems(7) by (elim disjE) (simp_all add: f)
  from Cons.IH[OF _ _ _ Cons.prems(4) i(3,4) this] U Cons.prems(3) obtain t where
    t: "install_trans_loop c ts u = Inr t" "wrote c pd (map (\<lambda>i. (hblk u i, bview u (lblk u (Suc i)))) ts) u t"
    by (auto simp: f)
  have "bview u (lblk s (Suc j)) = bview s (lblk s (Suc j))" if "j \<in> set ts" for j
    using U w(4)[of "Suc j" i] i that by (auto simp: subset_eq)
  then have "map (\<lambda>i. (hblk u i, bview u (lblk u (Suc i)))) ts = map (\<lambda>i. (hblk s i, bview s (lblk s (Suc i)))) ts"
    by (simp add: f)
  with wrote_trans[OF copied_wrote[OF u(2)] t(2)] t(1) u(1) show ?case by auto
qed

subsection \<open>The header\<close>

lemma clean_room:
  assumes "bc_ok pd {} {} s" "dirtyset s \<subseteq> hblk s' ` {..<n}" "n < NBUF"
  shows "\<exists>b<NBUF. b \<notin> {} \<and> \<not> bdirty (bufs s b)"
proof -
  have "card (hblk s' ` {..<n}) \<le> n" using card_image_le[of "{..<n}" "hblk s'"] by simp
  then show ?thesis using assms(3) dirty_room[OF assms(1) _ assms(2)] by simp
qed

lemma read_one:
  assumes "ready c pd s" "bc_ok pd {} {} s" "n < disksize s" "\<exists>b<NBUF. b \<notin> {} \<and> \<not> bdirty (bufs s b)"
  obtains b t where "bread c 1 n s = Inr (b, t)" "ready c pd t" "bc_ok pd {b} {} t" "blockno (bufs t b) = n"
    "bdata (bufs t b) = bview s n" "bview t = bview s" "dirtyset t = dirtyset s" "disk t = disk s"
    "dwrites t = dwrites s" "bframe s t"
proof -
  obtain b t where b: "bread c 1 n s = Inr (b, t)" "bread_post c pd {} {} n s b t"
    by (rule bread_ok[OF assms(1-3) _ disjI1[OF assms(4)]]) auto
  show ?thesis by (rule that[OF b(1)]) (use b(2) in \<open>auto simp: bread_post_def\<close>)
qed

lemma rewrite_block:
  fixes f :: "memory \<Rightarrow> memory"
  assumes "ready c pd s" "bc_ok pd {} {} s" "n < disksize s" "\<exists>b<NBUF. b \<notin> {} \<and> \<not> bdirty (bufs s b)"
  obtains b u t where "bread c 1 n s = Inr (b, u)" "bframe s u"
    "bindE (bwrite c b (set_buf b (bdata_update f) u)) (brelse c b) = Inr t" "wrote c pd [(n, f (bview s n))] s t"
proof -
  obtain b u where u: "bread c 1 n s = Inr (b, u)" "ready c pd u" "bc_ok pd {b} {} u" "blockno (bufs u b) = n"
    "bdata (bufs u b) = bview s n" "bview u = bview s" "dirtyset u = dirtyset s" "disk u = disk s"
    "dwrites u = dwrites s" "bframe s u" by (rule read_one[OF assms])
  have bin: "b \<in> {b}" by simp
  define v where "v = set_buf b (bdata_update f) u"
  note m = modify_ok[OF u(2,3) bin, of f, folded v_def]
  have bv: "blockno (bufs v b) = n" "disk v = disk s" "dwrites v = dwrites s" using u by (simp_all add: v_def)
  have lt: "blockno (bufs v b) < disksize v" using assms(3) bv bframeD(1)[OF u(10)] bframeD(1)[OF m(5)] by simp
  have "\<exists>w. bwrite c b v = Inr w \<and> ready c pd w \<and> bc_ok pd {b} ({b} - {b}) w \<and> bview w = bview v \<and>
     dirtyset w = dirtyset v - {blockno (bufs v b)} \<and> disk w = (disk v)(unat (blockno (bufs v b)) := bview v (blockno (bufs v b))) \<and>
     dwrites w = dwrites v @ [(unat (blockno (bufs v b)), bview v (blockno (bufs v b)))] \<and> bframe v w"
    by (rule bwrite_ok[OF m(1,2) bin lt]) blast
  then obtain w where w: "bwrite c b v = Inr w" "ready c pd w" "bc_ok pd {b} {} w" "bview w = bview v"
     "dirtyset w = dirtyset v - {n}" "disk w = (disk v)(unat n := bview v n)"
     "dwrites w = dwrites v @ [(unat n, bview v n)]" "bframe v w" unfolding bv by auto
  have e: "b \<notin> {}" by simp
  obtain t where t: "brelse c b w = Inr t" "ready c pd t" "bc_ok pd ({b} - {b}) {} t" "bview t = bview w"
    "dirtyset t = dirtyset w" "disk t = disk w" "dwrites t = dwrites w" "bframe w t"
    by (rule brelse_ok[OF w(2,3) bin e])
  have bs: "bview v = (bview s)(n := f (bview s n))" using m(3) u by simp
  have "wrote c pd [(n, f (bview s n))] s t"
    unfolding wrote_def using t w m(4) u bs bv bframe_trans[OF u(10) bframe_trans[OF m(5) bframe_trans[OF w(8) t(8)]]]
    by (simp add: vapply_def)
  then show ?thesis using that[OF u(1,10), of t] w(1) t(1) by (simp add: v_def)
qed

definition hdr :: "'a logst_scheme \<Rightarrow> memory" where
  "hdr s = put_blocks (lh_block s) [0..<nat (lh_n s)] (store32 (bview s (lblk s 0)) 0 (word_of_int (lh_n s)))"

lemma write_head_ok:
  assumes "ready c pd s" "bc_ok pd {} {} s" "log_wf n s" "\<exists>b<NBUF. b \<notin> {} \<and> \<not> bdirty (bufs s b)"
  shows "\<exists>t. write_head c s = Inr t \<and> wrote c pd [(lblk s 0, hdr s)] s t"
proof -
  let ?f = "\<lambda>m. put_blocks (lh_block s) [0..<nat (lh_n s)] (store32 m 0 (word_of_int (lh_n s)))"
  note w = log_wfD[OF assms(3)]
  obtain b u t where t: "bread c 1 (lblk s 0) s = Inr (b, u)" "bframe s u"
    "bindE (bwrite c b (set_buf b (bdata_update ?f) u)) (brelse c b) = Inr t" "wrote c pd [(lblk s 0, ?f (bview s (lblk s 0)))] s t"
    by (rule rewrite_block[OF assms(1,2) w(2)[OF le0] assms(4), of ?f])
  have "write_head c s = Inr t"
    using t(1,3) bframe_log[OF t(2)] w(7) by (simp add: write_head_def lblk_def Let_def)
  with t(4) show ?thesis by (auto simp: hdr_def)
qed

lemma put_blocks_low: "a + 4 \<le> 4 \<Longrightarrow> load32 (put_blocks f is m) a = load32 m a"
  by (induction "is" arbitrary: m) simp_all

lemma load32_store32_slot: "i \<noteq> j \<Longrightarrow> load32 (store32 m (4 + 4 * i) w) (4 + 4 * j) = load32 m (4 + 4 * j)"
  by (rule load32_store32_other) arith

lemma put_blocks_other: "i \<notin> set is \<Longrightarrow> load32 (put_blocks f is m) (4 + 4 * i) = load32 m (4 + 4 * i)"
  by (induction "is" arbitrary: m) (auto simp: load32_store32_slot)

lemma put_blocks_load:
  "distinct is \<Longrightarrow> i \<in> set is \<Longrightarrow> load32 (put_blocks f is m) (4 + 4 * i) = word_of_int (f i)"
  by (induction "is" arbitrary: m) (auto simp: put_blocks_other)

lemma hdr_load:
  "load32 (hdr s) 0 = word_of_int (lh_n s)"
  "i < nat (lh_n s) \<Longrightarrow> load32 (hdr s) (4 + 4 * i) = word_of_int (lh_block s i)"
  by (simp_all add: hdr_def put_blocks_low put_blocks_load)

subsection \<open>Commit\<close>

lemma cache_cong:
  assumes "bufs t = bufs s" "slocks t = slocks s" "disk t = disk s"
  shows "bc_ok pd H M t = bc_ok pd H M s" "bview t = bview s" "dirtyset t = dirtyset s"
  using assms by (simp add: bc_ok_def) (rule bview_cong, use assms in \<open>simp_all add: dirtyset_def\<close>)

lemma ready_upper:
  fixes s t :: "'a procst_scheme"
  assumes "cpus t = cpus s" "locks t = locks s" "ptable t = ptable s"
  shows "ready c pd t = ready c pd s"
  using ready_cong[of c pd s t] ready_cong[of c pd t s] assms by auto

lemma lh_update [simp]:
  "ready c pd (s\<lparr>lh_n := k\<rparr>) = ready c pd s" "bc_ok pd H M (s\<lparr>lh_n := k\<rparr>) = bc_ok pd H M s"
  "bview (s\<lparr>lh_n := k\<rparr>) = bview s" "dirtyset (s\<lparr>lh_n := k\<rparr>) = dirtyset s" "lblk (s\<lparr>lh_n := k\<rparr>) = lblk s"
  "hblk (s\<lparr>lh_n := k\<rparr>) = hblk s" "log_wf n (s\<lparr>lh_n := k\<rparr>) = log_wf n s"
  by (rule ready_upper cache_cong; simp)+ (simp_all add: lblk_def hblk_def log_wf_def inj_on_def fun_eq_iff)

definition log_pending :: "nat \<Rightarrow> int \<Rightarrow> nat \<Rightarrow> 'a logst_scheme \<Rightarrow> bool" where
  "log_pending c pd n s \<longleftrightarrow> ready c pd s \<and> bc_ok pd {} {} s \<and> log_wf n s \<and> lh_n s = int n \<and> 0 < n \<and> n < NBUF \<and>
     dirtyset s = hblk s ` {..<n}"

text \<open>The writes of a commit: the log blocks, the header, the home blocks, the empty header.\<close>

definition log_writes :: "'a logst_scheme \<Rightarrow> (uint \<times> memory) list" where
  "log_writes s = map (\<lambda>i. (lblk s (Suc i), bview s (hblk s i))) [0..<nat (lh_n s)]"

definition home_writes :: "'a logst_scheme \<Rightarrow> (uint \<times> memory) list" where
  "home_writes s = map (\<lambda>i. (hblk s i, bview s (hblk s i))) [0..<nat (lh_n s)]"

definition commit_writes :: "'a logst_scheme \<Rightarrow> (uint \<times> memory) list" where
  "commit_writes s = log_writes s @ [(lblk s 0, hdr s)] @ home_writes s @ [(lblk s 0, store32 (hdr s) 0 0)]"

lemma vapply_map:
  assumes "distinct (map f xs)" "x \<in> set xs"
  shows "vapply (map (\<lambda>x. (f x, g x)) xs) v (f x) = g x"
  using assms
proof (induction xs arbitrary: v)
  case (Cons y ys)
  show ?case
  proof (cases "x = y")
    case True
    then have "f x \<notin> fst ` set (map (\<lambda>x. (f x, g x)) ys)" using Cons.prems by force
    then show ?thesis using True vapply_other[of "f x" "map (\<lambda>x. (f x, g x)) ys"] by (simp add: vapply_def)
  next
    case False
    then show ?thesis using Cons by (simp add: vapply_def)
  qed
qed simp

lemma log_view:
  assumes "log_wf n s" "lh_n s = int n" "i < n"
  shows "vapply (log_writes s) v (lblk s (Suc i)) = bview s (hblk s i)"
proof -
  have "distinct (map (\<lambda>i. lblk s (Suc i)) [0..<n])"
    using log_wfD(5)[OF assms(1), of "Suc x" "Suc y" for x y] by (auto simp: distinct_map inj_on_def)
  from vapply_map[OF this, of i] show ?thesis using assms(2,3) by (simp add: log_writes_def)
qed

lemma commit_ok:
  assumes p: "log_pending c pd n s"
  shows "\<exists>u t. commit c s = Inr t \<and> wrote c pd (log_writes s @ [(lblk s 0, hdr s)] @ home_writes s) s u \<and>
     wrote c pd [(lblk s 0, store32 (hdr s) 0 0)] (u\<lparr>lh_n := 0\<rparr>) t"
proof -
  have r: "ready c pd s" and ok: "bc_ok pd {} {} s" and wf: "log_wf n s" and n: "lh_n s = int n" "0 < n" "n < NBUF"
    and D: "dirtyset s = hblk s ` {..<n}" using p by (auto simp: log_pending_def)
  note w = log_wfD[OF wf]
  have nn: "nat (lh_n s) = n" using n by simp
  have up: "distinct [0..<n]" "set [0..<n] \<subseteq> {..<n}" by auto
  obtain s1 where s1: "write_log c s = Inr s1" "wrote c pd (log_writes s) s s1"
    using write_log_loop_ok[OF r ok wf D n(3) up] by (auto simp: write_log_def log_writes_def nn)
  note S1 = s1(2)[unfolded wrote_def]
  have fr1: "bframe s s1" using S1 by blast
  note f1 = bframe_log[OF fr1]
  have ls: "lblk s 0 \<noteq> lblk s (Suc i)" if "i < n" for i using w(5)[of 0 "Suc i"] that by auto
  then have l0: "lblk s 0 \<notin> fst ` set (log_writes s)" by (fastforce simp: log_writes_def nn)
  have lh: "hblk s j \<noteq> lblk s (Suc i)" if "i < n" "j < n" for i j using w(4)[of "Suc i" j] that by auto
  then have ld: "dirtyset s \<inter> fst ` set (log_writes s) = {}" unfolding D by (auto simp: log_writes_def nn)
  then have D1: "dirtyset s1 = hblk s ` {..<n}" using S1 D by auto
  have h1: "hdr s1 = hdr s" using S1 vapply_other[OF l0] by (simp add: hdr_def f1)
  have room1: "\<exists>b<NBUF. b \<notin> {} \<and> \<not> bdirty (bufs s1 b)" using S1 D1 n(3) by (intro clean_room[of pd s1 s n]) auto
  obtain s2 where s2: "write_head c s1 = Inr s2" "wrote c pd [(lblk s 0, hdr s)] s1 s2"
    using write_head_ok[OF _ _ _ room1, of c pd n] S1 wf by (auto simp: f1 h1)
  note S2 = s2(2)[unfolded wrote_def]
  have fr2: "bframe s1 s2" using S2 by blast
  note f2 = bframe_log[OF fr2]
  have "lblk s 0 \<notin> hblk s ` {..<n}" using w(4)[of 0] by auto
  then have D2: "dirtyset s2 = hblk s ` {..<n}" using S2 D1 by auto
  have v2: "bview s2 (lblk s (Suc i)) = bview s (hblk s i)" if "i < n" for i
    using S2 S1 log_view[OF wf n(1) that, of "bview s"] ls[OF that] by (simp add: vapply_def[of "[_]"])
  have r2: "ready c pd s2" "bc_ok pd {} {} s2" using S2 by blast+
  have wf2: "log_wf n s2" using wf by (simp add: f1 f2)
  have "dirtyset s2 = hblk s2 ` set [0..<n] \<or> dirtyset s2 = {}" using D2 by (simp add: f1 f2 atLeast0LessThan)
  from install_loop_ok[OF r2 wf2 n(3) up this]
  obtain s3 where s3': "install_trans_loop c [0..<n] s2 = Inr s3"
    "wrote c pd (map (\<lambda>i. (hblk s i, bview s2 (lblk s (Suc i)))) [0..<n]) s2 s3" by (auto simp: f1 f2)
  have "map (\<lambda>i. (hblk s i, bview s2 (lblk s (Suc i)))) [0..<n] = home_writes s"
    using v2 by (simp add: home_writes_def nn)
  with s3' have s3: "install_trans c s2 = Inr s3" "wrote c pd (home_writes s) s2 s3"
    by (simp_all add: install_trans_def f1 f2 nn)
  note S3 = s3(2)[unfolded wrote_def]
  have fr3: "bframe s2 s3" using S3 by blast
  note f3 = bframe_log[OF fr3]
  have "lblk s 0 \<notin> fst ` set (home_writes s)" using w(4)[of 0] by (fastforce simp: home_writes_def nn)
  then have v3: "bview s3 (lblk s 0) = hdr s" using S3 S2 by (simp add: vapply_other vapply_def[of "[_]"])
  have r3: "ready c pd s3" "bc_ok pd {} {} s3" "dirtyset s3 = dirtyset s2 - fst ` set (home_writes s)" using S3 by blast+
  have "fst ` set (home_writes s) = hblk s ` {..<n}" by (force simp: home_writes_def nn)
  then have "dirtyset s3 = {}" using r3(3) D2 by simp
  then have "\<exists>b<NBUF. b \<notin> {} \<and> \<not> bdirty (bufs s3 b)" using clean_room[OF r3(2), of s 0] by (simp add: NBUF_def)
  then have room3: "\<exists>b<NBUF. b \<notin> {} \<and> \<not> bdirty (bufs (s3\<lparr>lh_n := 0\<rparr>) b)" by simp
  have "ready c pd (s3\<lparr>lh_n := 0\<rparr>)" "bc_ok pd {} {} (s3\<lparr>lh_n := 0\<rparr>)" "log_wf n (s3\<lparr>lh_n := 0\<rparr>)"
    using r3 wf by (simp_all add: f1 f2 f3)
  from write_head_ok[OF this room3]
  have "\<exists>t. write_head c (s3\<lparr>lh_n := 0\<rparr>) = Inr t \<and> wrote c pd [(lblk s3 0, hdr (s3\<lparr>lh_n := 0\<rparr>))] (s3\<lparr>lh_n := 0\<rparr>) t"
    by simp
  moreover have "hdr (s3\<lparr>lh_n := 0\<rparr>) = store32 (hdr s) 0 0" using v3 by (simp add: hdr_def f1 f2 f3)
  ultimately obtain t where t: "write_head c (s3\<lparr>lh_n := 0\<rparr>) = Inr t"
    "wrote c pd [(lblk s 0, store32 (hdr s) 0 0)] (s3\<lparr>lh_n := 0\<rparr>) t" by (auto simp: f1 f2 f3)
  have "commit c s = Inr t" using s1(1) s2(1) s3(1) t(1) n by (simp add: commit_def)
  moreover have "wrote c pd (log_writes s @ [(lblk s 0, hdr s)] @ home_writes s) s s3"
    using wrote_trans[OF s1(2) wrote_trans[OF s2(2) s3(2)]] by simp
  ultimately show ?thesis using t(2) by blast
qed

subsection \<open>Recovery\<close>

lemma bview_clean:
  assumes "bc_ok pd H {} s" "m \<notin> dirtyset s"
  shows "bview s m = disk s (unat m)"
proof (cases "\<exists>b<NBUF. dev (bufs s b) = 1 \<and> blockno (bufs s b) = m")
  case True
  then obtain b where b: "b < NBUF" "dev (bufs s b) = 1" "blockno (bufs s b) = m" by blast
  then have "\<not> bdirty (bufs s b)" using assms(2) dirtyset_iff[OF assms(1)] by metis
  then show ?thesis using bview_cached[OF assms(1) b] bc_okD(11)[OF assms(1) b(1,2)] b(3) by simp
next
  case False
  then show ?thesis by (intro bview_uncached) blast
qed

lemma lh_block_update [simp]:
  "ready c pd (s\<lparr>lh_block := f\<rparr>) = ready c pd s" "bc_ok pd H M (s\<lparr>lh_block := f\<rparr>) = bc_ok pd H M s"
  "bview (s\<lparr>lh_block := f\<rparr>) = bview s" "dirtyset (s\<lparr>lh_block := f\<rparr>) = dirtyset s" "lblk (s\<lparr>lh_block := f\<rparr>) = lblk s"
  by (rule ready_upper cache_cong; simp)+ (simp_all add: lblk_def fun_eq_iff)

subsection \<open>Write lists on the disk\<close>

lemma dapply_fixed:
  "k \<in> fst ` set ws \<Longrightarrow> (\<And>v. (k, v) \<in> set ws \<Longrightarrow> v = V) \<Longrightarrow> dapply ws d k = V"
proof (induction ws arbitrary: d)
  case (Cons w ws)
  obtain x v where w: "w = (x, v)" by (cases w)
  show ?case
  proof (cases "k \<in> fst ` set ws")
    case True
    then show ?thesis using Cons w by auto
  next
    case False
    then show ?thesis using Cons.prems w by (auto simp: dapply_other)
  qed
qed simp

definition disk_writes :: "(uint \<times> memory) list \<Rightarrow> (nat \<times> memory) list" where
  "disk_writes = map (\<lambda>(n, m). (unat n, m))"

lemma disk_writes_fst: "fst ` set (disk_writes ws) = unat ` fst ` set ws"
  by (force simp: disk_writes_def)

lemma disk_writes_in: "(unat n, v) \<in> set (disk_writes ws) \<longleftrightarrow> (n, v) \<in> set ws"
  by (force simp: disk_writes_def)

lemma disk_writes_simps [simp]:
  "disk_writes [] = []" "disk_writes (us @ ws) = disk_writes us @ disk_writes ws" "disk_writes ((n, m) # ws) = (unat n, m) # disk_writes ws"
  "take k (disk_writes ws) = disk_writes (take k ws)"
  by (simp_all add: disk_writes_def take_map)

lemma disk_other: "n \<notin> fst ` set ws \<Longrightarrow> dapply (disk_writes ws) d (unat n) = d (unat n)"
  by (rule dapply_other) (auto simp: disk_writes_fst image_iff)

lemma disk_fixed:
  "n \<in> fst ` set ws \<Longrightarrow> (\<And>v. (n, v) \<in> set ws \<Longrightarrow> v = V) \<Longrightarrow> dapply (disk_writes ws) d (unat n) = V"
  by (rule dapply_fixed) (auto simp: disk_writes_fst disk_writes_in)

text \<open>The header that read_head reads, as it sets the fields of the log.\<close>

definition with_head :: "memory \<Rightarrow> 'a logst_scheme \<Rightarrow> 'a logst_scheme" where
  "with_head m s = s\<lparr>lh_n := sint (load32 m 0),
     lh_block := (\<lambda>i. if int i < sint (load32 m 0) then sint (load32 m (4 + 4 * i)) else lh_block s i)\<rparr>"

lemma with_head_sel [simp]:
  "lh_n (with_head m s) = sint (load32 m 0)" "log_start (with_head m s) = log_start s" "log_dev (with_head m s) = log_dev s"
  "i < nat (sint (load32 m 0)) \<Longrightarrow> hblk (with_head m s) i = load32 m (4 + 4 * i)"
  "ready c pd (with_head m s) = ready c pd s" "bc_ok pd H M (with_head m s) = bc_ok pd H M s"
  "bview (with_head m s) = bview s" "dirtyset (with_head m s) = dirtyset s" "lblk (with_head m s) = lblk s"
  "disk (with_head m s) = disk s" "disksize (with_head m s) = disksize s"
  by (simp_all add: with_head_def hblk_def zless_nat_eq_int_zless)

lemma with_head_frame:
  fixes s u :: "'a logst_scheme"
  assumes "bframe s u"
  shows "bframe (with_head m s) (with_head m u)"
proof -
  have "bufst.more (with_head m u) = bufst.more (with_head m s)"
    using bframeD(2)[OF assms] by (cases u; cases s) (simp add: with_head_def cong: if_cong)
  then show ?thesis using assms by (simp add: bframe_def) (simp add: with_head_def)
qed

lemma read_head_ok:
  assumes "ready c pd s" "bc_ok pd {} {} s" "dirtyset s = {}" "log_dev s = 1" "lblk s 0 < disksize s"
  obtains t where "read_head c s = Inr t" "ready c pd t" "bc_ok pd {} {} t" "dirtyset t = {}" "disk t = disk s"
    "bframe (with_head (disk s (unat (lblk s 0))) s) t"
proof -
  have room: "\<exists>b<NBUF. b \<notin> {} \<and> \<not> bdirty (bufs s b)" using clean_room[OF assms(2), of s 0] assms(3) by (simp add: NBUF_def)
  obtain b u where u: "bread c 1 (lblk s 0) s = Inr (b, u)" "ready c pd u" "bc_ok pd {b} {} u" "blockno (bufs u b) = lblk s 0"
    "bdata (bufs u b) = bview s (lblk s 0)" "bview u = bview s" "dirtyset u = dirtyset s" "disk u = disk s"
    "dwrites u = dwrites s" "bframe s u" by (rule read_one[OF assms(1,2,5) room])
  define m where "m = disk s (unat (lblk s 0))"
  have m: "bdata (bufs u b) = m" using u(5) bview_clean[OF assms(2)] assms(3) by (simp add: m_def)
  have e: "b \<in> {b}" "b \<notin> {}" by auto
  have h: "ready c pd (with_head m u)" "bc_ok pd {b} {} (with_head m u)" using u by simp_all
  obtain t where t: "brelse c b (with_head m u) = Inr t" "ready c pd t" "bc_ok pd ({b} - {b}) {} t"
    "bview t = bview (with_head m u)" "dirtyset t = dirtyset (with_head m u)" "disk t = disk (with_head m u)"
    "dwrites t = dwrites (with_head m u)" "bframe (with_head m u) t" by (rule brelse_ok[OF h e])
  have rh: "read_head c s = Inr t"
    using u(1) t(1) m assms(4) by (simp add: read_head_def bdev_def lblk_def with_head_def Let_def cong: if_cong)
  have "bframe (with_head m s) t" using with_head_frame[OF u(10)] t(8) bframe_trans by blast
  then show ?thesis using that[OF rh t(2)] t u assms(3) by (simp add: m_def)
qed

lemma recover_ok:
  assumes r: "ready c pd s" "bc_ok pd {} {} s" "dirtyset s = {}"
  defines "m \<equiv> disk s (unat (lblk s 0))"
  assumes n: "sint (load32 m 0) = int n" "n < NBUF" and wf: "log_wf n (with_head m s)"
  obtains t h where "recover_from_log c s = Inr t" "lh_n t = 0"
    "disk t = dapply (disk_writes (map (\<lambda>i. (load32 m (4 + 4 * i), disk s (unat (lblk s (Suc i))))) [0..<n] @ [(lblk s 0, store32 h 0 0)])) (disk s)"
proof -
  note w = log_wfD[OF wf]
  have "log_dev s = 1" "lblk s 0 < disksize s" using w(1) w(2)[of 0] by simp_all
  from read_head_ok[OF r this] obtain u where u: "read_head c s = Inr u" "ready c pd u" "bc_ok pd {} {} u"
    "dirtyset u = {}" "disk u = disk s" "bframe (with_head m s) u" unfolding m_def by blast
  note f = bframe_log[OF u(6)]
  have up: "distinct [0..<n]" "set [0..<n] \<subseteq> {..<n}" by auto
  have wfu: "log_wf n u" using wf by (simp add: f)
  from install_loop_ok[OF u(2,3) wfu n(2) up] u(4)
  obtain v where v: "install_trans_loop c [0..<n] u = Inr v"
    "wrote c pd (map (\<lambda>i. (hblk u i, bview u (lblk u (Suc i)))) [0..<n]) u v" by blast
  note V = v(2)[unfolded wrote_def]
  have fv: "bframe u v" and rv: "ready c pd v" "bc_ok pd {} {} v" "dirtyset v = {}" using V u(4) by blast+
  note g = bframe_log[OF fv]
  have room: "\<exists>b<NBUF. b \<notin> {} \<and> \<not> bdirty (bufs (v\<lparr>lh_n := 0\<rparr>) b)"
    using clean_room[OF rv(2), of v 0] rv(3) by (simp add: NBUF_def)
  have "ready c pd (v\<lparr>lh_n := 0\<rparr>)" "bc_ok pd {} {} (v\<lparr>lh_n := 0\<rparr>)" "log_wf n (v\<lparr>lh_n := 0\<rparr>)"
    using rv wfu by (simp_all add: g)
  from write_head_ok[OF this room] obtain t where t: "write_head c (v\<lparr>lh_n := 0\<rparr>) = Inr t"
    "wrote c pd [(lblk s 0, hdr (v\<lparr>lh_n := 0\<rparr>))] (v\<lparr>lh_n := 0\<rparr>) t" by (auto simp: g f)
  note T = t(2)[unfolded wrote_def]
  have h: "hdr (v\<lparr>lh_n := 0\<rparr>) = store32 (bview v (lblk s 0)) 0 0" by (simp add: hdr_def g f)
  have "recover_from_log c s = Inr t"
    using u(1) v(1) t(1) n(1) by (simp add: recover_from_log_def install_trans_def f)
  moreover have "lh_n t = 0" using T bframe_log(4)[of "v\<lparr>lh_n := 0\<rparr>" t] by simp
  moreover have "map (\<lambda>i. (load32 m (4 + 4 * i), disk s (unat (lblk s (Suc i))))) [0..<n] =
      map (\<lambda>i. (hblk u i, bview u (lblk u (Suc i)))) [0..<n]" (is "?l = ?r")
    using n(1) by (auto simp: f bview_clean[OF u(3)] u(4,5))
  moreover have "disk t = dapply (disk_writes ([(lblk s 0, store32 (bview v (lblk s 0)) 0 0)])) (dapply (disk_writes ?r) (disk s))"
    using T V u(5) by (simp add: h disk_writes_def)
  ultimately show ?thesis by (intro that[of t "bview v (lblk s 0)"]) (simp_all only: disk_writes_simps dapply_simps)
qed


subsection \<open>Crashes\<close>

lemma commit_dwrites:
  assumes "log_pending c pd n s" "commit c s = Inr t"
  shows "dwrites t = dwrites s @ disk_writes (commit_writes s)"
proof -
  from commit_ok[OF assms(1)] assms(2) obtain u where
    "wrote c pd (log_writes s @ [(lblk s 0, hdr s)] @ home_writes s) s u"
    "wrote c pd [(lblk s 0, store32 (hdr s) 0 0)] (u\<lparr>lh_n := 0\<rparr>) t" by auto
  then show ?thesis by (simp add: wrote_def commit_writes_def disk_writes_def)
qed

lemma take_commit_writes:
  assumes "lh_n s = int n"
  shows "k \<le> n \<Longrightarrow> take k (commit_writes s) = take k (log_writes s)"
    "n < k \<Longrightarrow> k \<le> 2 * n + 1 \<Longrightarrow> take k (commit_writes s) = log_writes s @ (lblk s 0, hdr s) # take (k - n - 1) (home_writes s)"
    "2 * n + 1 < k \<Longrightarrow> take k (commit_writes s) = commit_writes s"
proof -
  have l: "length (log_writes s) = n" "length (home_writes s) = n" using assms by (simp_all add: log_writes_def home_writes_def)
  then show "k \<le> n \<Longrightarrow> take k (commit_writes s) = take k (log_writes s)"
    "2 * n + 1 < k \<Longrightarrow> take k (commit_writes s) = commit_writes s" by (simp_all add: commit_writes_def)
  show "take k (commit_writes s) = log_writes s @ (lblk s 0, hdr s) # take (k - n - 1) (home_writes s)" if "n < k" "k \<le> 2 * n + 1"
  proof -
    have "k - n = Suc (k - n - 1)" "k - n - 1 \<le> n" using that by auto
    then show ?thesis using l that by (simp add: commit_writes_def)
  qed
qed

text \<open>The sites of the writes of a commit are apart.\<close>

lemma commit_sites:
  assumes "log_pending c pd n s"
  shows "fst ` set (log_writes s) = lblk s ` {1..n}" "fst ` set (home_writes s) = hblk s ` {..<n}"
    "lblk s 0 \<notin> fst ` set (log_writes s)" "lblk s 0 \<notin> fst ` set (home_writes s)"
    "i < n \<Longrightarrow> lblk s (Suc i) \<notin> fst ` set (home_writes s)" "i < n \<Longrightarrow> lblk s (Suc i) \<noteq> lblk s 0"
    "(m, v) \<in> set (home_writes s) \<Longrightarrow> v = bview s m"
proof -
  have n: "nat (lh_n s) = n" and wf: "log_wf n s" using assms by (simp_all add: log_pending_def)
  note w = log_wfD[OF wf]
  have "{1..n} = Suc ` {..<n}" by (metis One_nat_def atLeast0LessThan image_Suc_atLeastLessThan atLeastLessThanSuc_atLeastAtMost)
  then show 1: "fst ` set (log_writes s) = lblk s ` {1..n}"
    unfolding log_writes_def n by (auto simp: image_image atLeast0LessThan)
  show 2: "fst ` set (home_writes s) = hblk s ` {..<n}" unfolding home_writes_def n by (auto simp: image_image atLeast0LessThan)
  show "lblk s 0 \<notin> fst ` set (log_writes s)" unfolding 1 using w(5)[of 0] by fastforce
  show "lblk s 0 \<notin> fst ` set (home_writes s)" unfolding 2 using w(4)[of 0] by auto
  show "i < n \<Longrightarrow> lblk s (Suc i) \<notin> fst ` set (home_writes s)" unfolding 2 using w(4)[of "Suc i"] by auto
  show "i < n \<Longrightarrow> lblk s (Suc i) \<noteq> lblk s 0" using w(5)[of "Suc i" 0] by auto
  show "(m, v) \<in> set (home_writes s) \<Longrightarrow> v = bview s m" by (auto simp: home_writes_def)
qed

text \<open>What the disk holds after the first \<open>k\<close> writes of a commit.\<close>

definition crash_disk :: "nat \<Rightarrow> 'a logst_scheme \<Rightarrow> nat \<Rightarrow> memory" where
  "crash_disk k s = dapply (disk_writes (take k (commit_writes s))) (disk s)"

lemma crash_header:
  assumes p: "log_pending c pd n s" and z: "load32 (disk s (unat (lblk s 0))) 0 = 0"
  shows "k \<le> n \<Longrightarrow> load32 (crash_disk k s (unat (lblk s 0))) 0 = 0"
    "n < k \<Longrightarrow> k \<le> 2 * n + 1 \<Longrightarrow> crash_disk k s (unat (lblk s 0)) = hdr s"
    "2 * n + 1 < k \<Longrightarrow> load32 (crash_disk k s (unat (lblk s 0))) 0 = 0"
proof -
  have n: "lh_n s = int n" using p by (simp add: log_pending_def)
  note t = take_commit_writes[OF n] and c = commit_sites[OF p]
  have no: "x \<notin> fst ` set ws \<Longrightarrow> x \<notin> fst ` set (take j ws)" for x j and ws :: "(uint \<times> memory) list"
    using set_take_subset[of j ws] by blast
  show "load32 (crash_disk k s (unat (lblk s 0))) 0 = 0" if "k \<le> n"
    using disk_other[OF no[OF c(3)]] z by (simp add: crash_disk_def t(1)[OF that])
  show "crash_disk k s (unat (lblk s 0)) = hdr s" if "n < k" "k \<le> 2 * n + 1"
    using disk_other[OF no[OF c(4)]] by (simp add: crash_disk_def t(2)[OF that])
  show "load32 (crash_disk k s (unat (lblk s 0))) 0 = 0" if "2 * n + 1 < k"
    unfolding crash_disk_def t(3)[OF that] by (simp add: commit_writes_def)
qed

lemma crash_log:
  assumes p: "log_pending c pd n s" and k: "n < k" "k \<le> 2 * n + 1" and i: "i < n"
  shows "crash_disk k s (unat (lblk s (Suc i))) = bview s (hblk s i)"
proof -
  have n: "lh_n s = int n" "log_wf n s" using p by (simp_all add: log_pending_def)
  note c = commit_sites[OF p]
  have "lblk s (Suc i) \<notin> fst ` set (take (k - n - 1) (home_writes s))"
    using c(5)[OF i] set_take_subset[of "k - n - 1" "home_writes s"] by blast
  then have "crash_disk k s (unat (lblk s (Suc i))) = dapply (disk_writes (log_writes s)) (disk s) (unat (lblk s (Suc i)))"
    using c(6)[OF i] by (simp add: crash_disk_def take_commit_writes(2)[OF n(1) k] disk_other)
  also have "\<dots> = bview s (hblk s i)"
  proof (rule disk_fixed)
    show "lblk s (Suc i) \<in> fst ` set (log_writes s)" using c(1) i by auto
    fix v assume "(lblk s (Suc i), v) \<in> set (log_writes s)"
    then obtain j where "j < n" "lblk s (Suc i) = lblk s (Suc j)" "v = bview s (hblk s j)"
      using n(1) by (auto simp: log_writes_def)
    then show "v = bview s (hblk s i)" using log_wfD(5)[OF n(2), of "Suc i" "Suc j"] i by simp
  qed
  finally show ?thesis .
qed

lemma crash_home:
  assumes p: "log_pending c pd n s" and m: "m \<notin> lblk s ` {..n}"
  shows "k \<le> n \<Longrightarrow> crash_disk k s (unat m) = disk s (unat m)"
    "2 * n + 1 < k \<Longrightarrow> crash_disk k s (unat m) = bview s m"
    "n < k \<Longrightarrow> m \<notin> hblk s ` {..<n} \<Longrightarrow> crash_disk k s (unat m) = disk s (unat m)"
proof -
  have n: "lh_n s = int n" and ok: "bc_ok pd {} {} s" and D: "dirtyset s = hblk s ` {..<n}" using p by (simp_all add: log_pending_def)
  note t = take_commit_writes[OF n] and c = commit_sites[OF p]
  have l: "m \<notin> fst ` set (log_writes s)" "m \<noteq> lblk s 0" using m c(1) by auto
  have sub: "set (take j ws) \<subseteq> set ws" for j and ws :: "(uint \<times> memory) list" by (rule set_take_subset)
  show "crash_disk k s (unat m) = disk s (unat m)" if "k \<le> n"
    using l(1) sub[of k "log_writes s"] by (auto simp: crash_disk_def t(1)[OF that] intro!: disk_other)
  have out: "crash_disk k s (unat m) = disk s (unat m)" if h: "m \<notin> hblk s ` {..<n}" for k
  proof -
    have "m \<notin> fst ` set (commit_writes s)" using l h c(2) by (auto simp: commit_writes_def)
    then have "m \<notin> fst ` set (take k (commit_writes s))" using sub[of k "commit_writes s"] by blast
    then show ?thesis unfolding crash_disk_def by (rule disk_other)
  qed
  then show "n < k \<Longrightarrow> m \<notin> hblk s ` {..<n} \<Longrightarrow> crash_disk k s (unat m) = disk s (unat m)" by blast
  show "crash_disk k s (unat m) = bview s m" if "2 * n + 1 < k"
  proof (cases "m \<in> hblk s ` {..<n}")
    case True
    have "dapply (disk_writes (commit_writes s)) (disk s) (unat m) = bview s m"
    proof (rule disk_fixed)
      show "m \<in> fst ` set (commit_writes s)" using True c(2) by (simp add: commit_writes_def image_Un)
      have "(m, v) \<notin> set (log_writes s)" for v using l(1) by force
      then show "v = bview s m" if "(m, v) \<in> set (commit_writes s)" for v
        using that l(2) c(7) by (auto simp: commit_writes_def)
    qed
    then show ?thesis by (simp add: crash_disk_def t(3)[OF that])
  next
    case False
    then show ?thesis using out bview_clean[OF ok] D by simp
  qed
qed

lemma sint_count: "n < 2 ^ 31 \<Longrightarrow> sint (word_of_nat n :: uint) = int n"
  using sint_sbintrunc'[of "int n", where 'a = 32] signed_take_bit_int_eq_self[of 31 "int n"] by simp

lemma log_wf_head:
  fixes r :: "'b logst_scheme" and s :: "'a logst_scheme"
  assumes "log_dev r = 1" "lblk r = lblk s" "disksize r = disksize s"
  shows "lblk s 0 < disksize s \<Longrightarrow> log_wf 0 (with_head m r)"
    "log_wf n s \<Longrightarrow> lh_n s = int n \<Longrightarrow> n < NBUF \<Longrightarrow> log_wf n (with_head (hdr s) r)"
proof -
  show "lblk s 0 < disksize s \<Longrightarrow> log_wf 0 (with_head m r)" using assms by (simp add: log_wf_def)
  assume wf: "log_wf n s" and n: "lh_n s = int n" "n < NBUF"
  have c: "sint (load32 (hdr s) 0) = int n" using n by (simp add: hdr_load sint_count NBUF_def)
  have h: "hblk (with_head (hdr s) r) i = hblk s i" if "i < n" for i
    using that n(1) c hdr_load(2)[of i s] by (simp add: hblk_def[of s])
  show "log_wf n (with_head (hdr s) r)"
    using wf assms h unfolding log_wf_def inj_on_def by simp
qed

lemma commit_recovers:
  fixes s t :: "'a logst_scheme" and r :: "'b logst_scheme"
  assumes p: "log_pending c pd n s" and z: "load32 (disk s (unat (lblk s 0))) 0 = 0"
    and t: "commit c s = Inr t" "dwrites t = dwrites s @ ws" and k: "k \<le> length ws"
    and r: "ready c' pd' r" "bc_ok pd' {} {} r" "dirtyset r = {}" "disk r = dapply (take k ws) (disk s)"
      "log_dev r = 1" "log_start r = log_start s" "disksize r = disksize s"
  shows "\<exists>r'. recover_from_log c' r = Inr r' \<and> lh_n r' = 0 \<and>
     (\<forall>m. m \<notin> lblk s ` {..n} \<longrightarrow> disk r' (unat m) = (if k \<le> n then disk s (unat m) else bview s m))"
proof -
  have n: "lh_n s = int n" "n < NBUF" and wf: "log_wf n s" and D: "dirtyset s = hblk s ` {..<n}"
    using p by (simp_all add: log_pending_def)
  have d: "disk r = crash_disk k s" using commit_dwrites[OF p t(1)] t(2) r(4) by (simp add: crash_disk_def)
  have l: "lblk r = lblk s" using r(6) by (simp add: lblk_def fun_eq_iff)
  note wh = log_wf_head[OF r(5) l r(7)]
  have l0: "lblk s 0 < disksize s" using log_wfD(2)[OF wf, of 0] by simp
  note hd = crash_header[OF p z]
  show ?thesis
  proof (cases "n < k \<and> k \<le> 2 * n + 1")
    case False
    then have "load32 (disk r (unat (lblk r 0))) 0 = 0" using hd(1,3) by (auto simp: d l not_less)
    then obtain r' h where r': "recover_from_log c' r = Inr r'" "lh_n r' = 0"
      "disk r' = (crash_disk k s)(unat (lblk s 0) := store32 h 0 0)"
      using recover_ok[OF r(1-3), of 0] wh(1)[OF l0] by (auto simp: d l NBUF_def)
    have "disk r' (unat m) = (if k \<le> n then disk s (unat m) else bview s m)" if "m \<notin> lblk s ` {..n}" for m
      using crash_home(1,2)[OF p that] r'(3) that False by (auto simp: not_le)
    with r'(1,2) show ?thesis by blast
  next
    case True
    then have h: "disk r (unat (lblk r 0)) = hdr s" using hd(2) by (simp add: d l)
    have c: "sint (load32 (hdr s) 0) = int n" using n by (simp add: hdr_load sint_count NBUF_def)
    let ?ws = "map (\<lambda>i. (load32 (hdr s) (4 + 4 * i), disk r (unat (lblk r (Suc i))))) [0..<n]"
    have "?ws = home_writes s" using n(1) True crash_log[OF p]
      by (auto simp: home_writes_def hdr_load hblk_def d l)
    moreover obtain r' h where r1: "recover_from_log c' r = Inr r'" "lh_n r' = 0"
      "disk r' = dapply (disk_writes (?ws @ [(lblk r 0, store32 h 0 0)])) (disk r)"
      by (rule recover_ok[OF r(1-3), of n, unfolded h, OF c n(2) wh(2)[OF wf n]])
    ultimately have r': "recover_from_log c' r = Inr r'" "lh_n r' = 0"
      "disk r' = dapply (disk_writes (home_writes s @ [(lblk s 0, store32 h 0 0)])) (crash_disk k s)"
      by (simp_all only: d l)
    note ch = commit_sites[OF p]
    have "disk r' (unat m) = bview s m" if m: "m \<notin> lblk s ` {..n}" for m
    proof -
      have "disk r' (unat m) = dapply (disk_writes (home_writes s)) (crash_disk k s) (unat m)" using r'(3) m by auto
      also have "\<dots> = bview s m"
      proof (cases "m \<in> hblk s ` {..<n}")
        case True
        then show ?thesis using ch(2,7) by (intro disk_fixed) auto
      next
        case False
        then show ?thesis using ch(2) disk_other crash_home(3)[OF p m] True D bview_clean[of pd "{}" s m] p
          by (simp add: log_pending_def disk_other)
      qed
      finally show ?thesis .
    qed
    with r'(1,2) True show ?thesis by auto
  qed
qed

text \<open>C1: Crash safety of the log.  Take a state with a transaction ready to commit (\<open>n\<close> logged
  blocks, all of them pinned dirty in the buffer cache) whose header on the disk is empty.  commit()
  succeeds; let \<open>ws\<close> be the disk writes it issues, in their order, and let the machine lose power after any
  number \<open>k\<close> of them.  recover_from_log() on the rebooted kernel (empty cache, the disk as it was left) succeeds
  and empties the log; outside the log area every block then holds its old contents when the header had
  not been written (\<open>k \<le> n\<close>), and otherwise its new contents: the transaction is all or nothing.\<close>

theorem log_crash_atomic:
  fixes s t :: "'a logst_scheme" and r :: "'b logst_scheme"
  assumes p: "log_pending c pd n s" and z: "load32 (disk s (unat (lblk s 0))) 0 = 0"
    and t: "commit c s = Inr t" "dwrites t = dwrites s @ ws" and k: "k \<le> length ws"
    and r: "ready c' pd' r" "bc_ok pd' {} {} r" "dirtyset r = {}" "disk r = dapply (take k ws) (disk s)"
      "log_dev r = 1" "log_start r = log_start s" "disksize r = disksize s"
  shows "\<exists>r'. recover_from_log c' r = Inr r' \<and> lh_n r' = 0 \<and>
     (\<forall>m. m \<notin> lblk s ` {..n} \<longrightarrow> disk r' (unat m) = (if k \<le> n then disk s (unat m) else bview s m))"
  by (rule commit_recovers[OF assms])

text \<open>A machine with block 40 logged and changed in its cached buffer, and the same machine rebooted.\<close>

definition demo_base :: logst where
  "demo_base = \<lparr>ncpu = 2, cpus = (\<lambda>_. demo_cpu\<lparr>cproc := Some 0, intena := True\<rparr>), locks = locks demo_locks, mem = (\<lambda>_. 0), kfreelist = 0,
     use_lock = True, kend = 0x80123450, kpgdir = 0x80300000, kdata = 0x80110000,
     ptable = [demo_proc], nextpid = 2, initproc = Some 0, ticks = 0, forkret_first = False,
     panicked = False, cons_locking = True, uart = True, uartout = [], crt = (\<lambda>_. 0), crtpos = 0,
     inbuf = (\<lambda>_. 0), inr = 0, inw = 0, ine = 0, kbdshift = 0,
     slocks = (\<lambda>_. \<lparr>slk_locked = False, slk_name = [], slk_pid = 0\<rparr>),
     bufs = (\<lambda>_. \<lparr>flags = 0, dev = 0, blockno = 0, refcnt = 0, bprev = 0, bnext = 0, bdata = (\<lambda>_. 0)\<rparr>),
     disk = (\<lambda>_ _. 0), disksize = 1000, dwrites = [],
     log_start = 2, log_size = 30, outstanding = 0, committing = False, log_dev = 1, lh_n = 1, lh_block = (\<lambda>_. 40)\<rparr>"

definition demo_log :: logst where
  "demo_log = set_buf 0 (\<lambda>x. x\<lparr>flags := B_VALID OR B_DIRTY, dev := 1, blockno := 40, bdata := (\<lambda>_. 7)\<rparr>) (binit demo_base)"

definition demo_reboot :: "(nat \<Rightarrow> memory) \<Rightarrow> logst" where
  "demo_reboot d = (binit demo_base)\<lparr>disk := d, lh_n := 0\<rparr>"

lemma binit_loop_frame:
  "cpus (binit_loop bs s) = cpus s" "ptable (binit_loop bs s) = ptable s" "disk (binit_loop bs s) = disk s"
  "disksize (binit_loop bs s) = disksize s" "dwrites (binit_loop bs s) = dwrites s" "bufst.more (binit_loop bs s) = bufst.more s"
  "(\<forall>l. lock_free l s) \<Longrightarrow> lock_free l (binit_loop bs s)"
  by (induction bs arbitrary: s)
    (simp_all add: Let_def initsleeplock_def initlock_def set_slock_def set_lock_def set_buf_def lock_free_def)

lemma binit_frame:
  "cpus (binit s) = cpus s" "ptable (binit s) = ptable s" "disk (binit s) = disk s"
  "disksize (binit s) = disksize s" "dwrites (binit s) = dwrites s" "bufst.more (binit s) = bufst.more s"
  by (simp_all add: binit_def Let_def binit_loop_frame initlock_def set_lock_def set_buf_def)

lemma binit_free: "(\<And>l. lock_free l s) \<Longrightarrow> lock_free l (binit s)"
  unfolding binit_def Let_def
  by (rule binit_loop_frame(7)) (simp add: initlock_def set_lock_def set_buf_def lock_free_def)

lemma binit_ready: "ready c pd s \<Longrightarrow> ready c pd (binit s)"
  by (auto simp: ready_def quiet_def binit_frame binit_free intro: touch_cong[OF binit_frame(1)])

lemma demo_base_ready: "ready 0 1 demo_base"
  by (auto simp: ready_def demo_base_def quiet_def lock_free_def demo_locks_def demo_cpu_def touch_def set_cpu_def demo_proc_def)

lemma demo_base_cache: "bc_ok 1 {} {} (binit demo_base)" "dirtyset (binit demo_base) = {}"
  by (rule binit_ok; simp add: demo_base_def)+

lemma demo_binit_buf: "dev (bufs (binit demo_base) b) = 0" "refcnt (bufs (binit demo_base) b) = 0"
  by (simp_all add: binit_def Let_def binit_loop_field initlock_def set_lock_def demo_base_def)

lemma demo_log_cache: "bc_ok 1 {} {} demo_log" "dirtyset demo_log = {40}"
proof -
  have "slk_locked (slocks (binit demo_base) (L_buf 0)) = False" using bc_okD(4)[OF demo_base_cache(1), of 0] by (simp add: NBUF_def)
  then show "bc_ok 1 {} {} demo_log"
    by (intro bc_ok_upd[OF demo_base_cache(1), where b = 0 and
          x = "bufs (binit demo_base) 0\<lparr>flags := B_VALID OR B_DIRTY, dev := 1, blockno := 40, bdata := (\<lambda>_. 7)\<rparr>"])
      (simp_all add: demo_log_def NBUF_def set_buf_def demo_binit_buf bvalid_def bdirty_def B_VALID_def B_DIRTY_def)
  show "dirtyset demo_log = {40}" using demo_base_cache(2)
    by (auto simp: dirtyset_def demo_log_def set_buf_def bdirty_def B_VALID_def B_DIRTY_def NBUF_def demo_binit_buf)
qed

lemma demo_more: "bufst.more (binit demo_base) = bufst.more demo_base" "disksize (binit demo_base) = 1000" "disk (binit demo_base) = (\<lambda>_ _. 0)"
  by (simp_all add: binit_frame) (simp_all add: demo_base_def)

lemma demo_log_sel:
  "log_start demo_log = 2" "log_dev demo_log = 1" "lh_n demo_log = 1" "lh_block demo_log = (\<lambda>_. 40)"
  "disksize demo_log = 1000" "disk demo_log = (\<lambda>_ _. 0)" "bview demo_log 40 = (\<lambda>_. 7)"
proof -
  note m = logst_more[OF demo_more(1)]
  show "log_start demo_log = 2" "log_dev demo_log = 1" "lh_n demo_log = 1" "lh_block demo_log = (\<lambda>_. 40)"
    by (simp_all add: demo_log_def set_buf_def m) (simp_all add: demo_base_def)
  show "disksize demo_log = 1000" "disk demo_log = (\<lambda>_ _. 0)" by (simp_all add: demo_log_def set_buf_def demo_more)
  show "bview demo_log 40 = (\<lambda>_. 7)"
    using bview_cached[OF demo_log_cache(1), of 0 40] by (simp add: demo_log_def set_buf_def NBUF_def)
qed

lemma demo_log_pending: "log_pending 0 1 1 demo_log"
proof -
  have "ready 0 1 demo_log" by (rule ready_cong[OF binit_ready[OF demo_base_ready]]) (simp_all add: demo_log_def set_buf_def)
  moreover have "log_wf 1 demo_log"
    by (auto simp: log_wf_def lblk_def hblk_def demo_log_sel le_Suc_eq inj_on_def)
  ultimately show ?thesis using demo_log_cache by (simp add: log_pending_def demo_log_sel hblk_def NBUF_def lessThan_Suc)
qed

theorem log_crash_atomic_witness:
  "\<exists>t ws r'. commit 0 demo_log = Inr t \<and> dwrites t = dwrites demo_log @ ws \<and> 2 \<le> length ws \<and>
     recover_from_log 0 (demo_reboot (dapply (take 2 ws) (disk demo_log))) = Inr r' \<and> disk r' 40 = (\<lambda>_. 7)"
proof -
  obtain t where t: "commit 0 demo_log = Inr t" using commit_ok[OF demo_log_pending] by blast
  define ws where "ws = disk_writes (commit_writes demo_log)"
  have w: "dwrites t = dwrites demo_log @ ws" unfolding ws_def by (rule commit_dwrites[OF demo_log_pending t])
  have l: "2 \<le> length ws" by (simp add: ws_def disk_writes_def commit_writes_def log_writes_def demo_log_sel)
  let ?r = "demo_reboot (dapply (take 2 ws) (disk demo_log))"
  note m = logst_more[OF demo_more(1)]
  have r: "ready 0 1 ?r" by (rule ready_cong[OF binit_ready[OF demo_base_ready]]) (simp_all add: demo_reboot_def)
  have no: "dev (bufs ?r b) \<noteq> 1" for b by (simp add: demo_reboot_def demo_binit_buf)
  have b: "bc_ok 1 {} {} ?r" "dirtyset ?r = {}"
    using demo_base_cache no by (simp_all add: bc_ok_def dirtyset_def demo_reboot_def)
  have z: "load32 (disk demo_log (unat (lblk demo_log 0))) 0 = 0" by (simp add: demo_log_sel load32_def)
  have f: "disk ?r = dapply (take 2 ws) (disk demo_log)" "log_dev ?r = 1" "log_start ?r = log_start demo_log"
    "disksize ?r = disksize demo_log"
    by (simp_all add: demo_reboot_def m demo_more demo_log_sel) (simp_all add: demo_base_def)
  from log_crash_atomic[OF demo_log_pending z t w l r b f] obtain r' where
    r': "recover_from_log 0 ?r = Inr r'" "\<And>m. m \<notin> lblk demo_log ` {..1} \<Longrightarrow> disk r' (unat m) = bview demo_log m" by auto
  have "disk r' 40 = (\<lambda>_. 7)" using r'(2)[of 40] by (simp add: demo_log_sel lblk_def atMost_Suc)
  with r'(1) t w l show ?thesis by blast
qed

end
