(* ===== verification/Cacheinv.thy ===== *)
theory Cacheinv
  imports Loginv
begin

text \<open>
  What the clients of the buffer cache rely on: a block that is written is the block that is read, and the
  cache recycles the buffer that was released longest ago.
\<close>

subsection \<open>Replacement\<close>

lemma find_cong_list: "(\<And>x. x \<in> set xs \<Longrightarrow> P x = Q x) \<Longrightarrow> find P xs = find Q xs"
  by (induction xs) auto

lemma bread_recycles:
  assumes r: "ready c pd s" and ok: "bc_ok pd {} {} s" and xs: "lru (bufs s) xs" and n: "n < disksize s"
    and no: "\<And>b. b < NBUF \<Longrightarrow> dev (bufs s b) = 1 \<Longrightarrow> blockno (bufs s b) \<noteq> n"
    and f: "find (\<lambda>b. \<not> bdirty (bufs s b)) (rev xs) = Some b"
  shows "\<exists>t. bread c 1 n s = Inr (b, t) \<and> ready c pd t \<and> lru (bufs t) xs \<and> refcnt (bufs t b) = 1 \<and>
    bdata (bufs t b) = disk s (unat n) \<and> slk_locked (slocks t (L_buf b)) \<and> slk_pid (slocks t (L_buf b)) = pd"
proof -
  note d = bc_okD[OF ok]
  have b: "b < NBUF" using find_SomeD[OF f] xs by (auto simp: lru_def)
  have f1: "find (\<lambda>b. dev (bufs s b) = 1 \<and> blockno (bufs s b) = n) xs = None" using no xs by (auto simp: find_None_iff lru_def)
  have "find (\<lambda>b. refcnt (bufs s b) = 0 \<and> flags (bufs s b) AND B_DIRTY = 0) (rev xs) = find (\<lambda>b. \<not> bdirty (bufs s b)) (rev xs)"
    using d(5) xs by (intro find_cong_list) (auto simp: bdirty_def lru_def)
  then have f2: "find (\<lambda>b. refcnt (bufs s b) = 0 \<and> flags (bufs s b) AND B_DIRTY = 0) (rev xs) = Some b" using f by simp
  let ?f = "\<lambda>x. x\<lparr>dev := 1, blockno := n, flags := 0, refcnt := 1\<rparr>"
  define u where "u = take_slock pd b (set_buf b ?f s)"
  have g: "bget c 1 n s = Inr (b, u)" unfolding u_def using bget_miss[OF r xs f1 f2] d(4)[OF b] by simp
  have ru: "ready c pd u" using r by (simp add: u_def take_slock_def)
  have bu: "bufs u = (bufs s)(b := ?f (bufs s b))" by (simp add: u_def take_slock_def)
  define t where "t = set_buf b (\<lambda>x. flags_update (\<lambda>f. f OR B_VALID) (x\<lparr>bdata := disk u (unat (blockno x))\<rparr>)) u"
  have "iderw c b u = Inr t" unfolding t_def
    using n by (intro iderw_read[OF ru]) (simp_all add: bu bvalid_def bdirty_def, simp_all add: u_def take_slock_def)
  then have "bread c 1 n s = Inr (b, t)" by (simp add: bread_def g bu)
  moreover have "lru (bufs t) xs = lru (bufs s) xs" by (rule lru_cong) (simp_all add: t_def bu)
  ultimately show ?thesis using ru xs by (simp add: t_def bu) (simp add: u_def take_slock_def)
qed

text \<open>C27: The buffer cache replaces the least recently used block.  Let \<open>xs\<close> be the buffers in list order, the most recently
  released first, and let block \<open>n\<close> not be cached while no buffer is in use.  bread takes the last clean buffer of the list
  and panics exactly when every buffer is dirty; it delivers the block from the disk, and brelse then moves that buffer
  to the front and leaves the order of all others as it was.\<close>

theorem cache_replaces_lru:
  assumes "ready c pd s" "bc_ok pd {} {} s" "lru (bufs s) xs" "n < disksize s"
    and "\<forall>b < NBUF. dev (bufs s b) = 1 \<longrightarrow> blockno (bufs s b) \<noteq> n"
  shows "case find (\<lambda>b. \<not> bdirty (bufs s b)) (rev xs) of
      None \<Rightarrow> bread c 1 n s = Inl (Panic ''bget: no buffers'')
    | Some b \<Rightarrow> \<exists>t u. bread c 1 n s = Inr (b, t) \<and> bdata (bufs t b) = disk s (unat n) \<and>
        brelse c b t = Inr u \<and> lru (bufs u) (b # remove1 b xs)"
proof (cases "find (\<lambda>b. \<not> bdirty (bufs s b)) (rev xs)")
  case None
  note d = bc_okD[OF assms(2)]
  have f1: "find (\<lambda>b. dev (bufs s b) = 1 \<and> blockno (bufs s b) = n) xs = None"
    using assms(3,5) by (auto simp: find_None_iff lru_def)
  have "find (\<lambda>b. refcnt (bufs s b) = 0 \<and> flags (bufs s b) AND B_DIRTY = 0) (rev xs) = find (\<lambda>b. \<not> bdirty (bufs s b)) (rev xs)"
    using d(5) assms(3) by (intro find_cong_list) (auto simp: bdirty_def lru_def)
  then show ?thesis using None bget_full[OF assms(1,3) f1] by (simp add: bread_def)
next
  case (Some b)
  then obtain t where t: "bread c 1 n s = Inr (b, t)" "ready c pd t" "lru (bufs t) xs" "refcnt (bufs t b) = 1"
    "bdata (bufs t b) = disk s (unat n)" "slk_locked (slocks t (L_buf b))" "slk_pid (slocks t (L_buf b)) = pd"
    using bread_recycles[OF assms(1-4)] assms(5) by blast
  have "b \<in> set xs" using find_SomeD[OF Some] by auto
  then obtain us vs where xs: "xs = us @ b # vs" "b \<notin> set us" by (metis split_list_first)
  let ?u = "wakeup1 (Ch_sleeplock (L_buf b)) (set_slock (L_buf b) (\<lambda>k. k\<lparr>slk_locked := False, slk_pid := 0\<rparr>) t)"
  have "lru (bufs ?u) (us @ b # vs)" "refcnt (bufs ?u b) = 1" using t(3,4) xs by simp_all
  from lru_unref[OF this] have "lru (bufs (unref b ?u)) (b # remove1 b xs)" using xs by (simp add: remove1_append)
  then show ?thesis using Some t(1,5) brelse_eq[OF t(2,6,7)] by auto
qed

theorem cache_replaces_lru_witness:
  "\<exists>t u. bread 0 1 7 (binit demo_base) = Inr (0, t) \<and> brelse 0 0 t = Inr u \<and> lru (bufs u) (0 # remove1 0 (rev [0..<NBUF]))"
proof -
  have n: "7 < disksize (binit demo_base)" by (simp add: demo_more)
  have no: "\<forall>b < NBUF. dev (bufs (binit demo_base) b) = 1 \<longrightarrow> blockno (bufs (binit demo_base) b) \<noteq> 7" by (simp add: demo_binit_buf)
  have "find (\<lambda>b. \<not> bdirty (bufs (binit demo_base) b)) (rev (rev [0..<NBUF])) = Some 0"
  proof -
    have "\<not> bdirty (bufs (binit demo_base) b)" if "b < NBUF" for b using bc_okD(9)[OF demo_base_cache(1) that] demo_binit_buf(1)[of b] by auto
    then show ?thesis by (simp add: NBUF_def upt_conv_Cons)
  qed
  then show ?thesis
    using cache_replaces_lru[OF binit_ready[OF demo_base_ready] demo_base_cache(1) binit_seg n no] by auto
qed

subsection \<open>Writing and reading\<close>

text \<open>C25: A block that is written is the block that is read.  With all buffers released and one of them clean, changing the data of
  block \<open>n\<close> in its buffer, bwrite and brelse succeed and put the new data on the disk; a later bread of any block \<open>m\<close>
  delivers the new data when \<open>m = n\<close> and what it would have delivered before otherwise.\<close>

theorem block_write_read:
  fixes f :: "memory \<Rightarrow> memory"
  assumes "ready c pd s" "bc_ok pd {} {} s" "n < disksize s" "m < disksize s" "\<exists>b<NBUF. \<not> bdirty (bufs s b)"
  shows "\<exists>b u t b' v. bread c 1 n s = Inr (b, u) \<and>
     bindE (bwrite c b (set_buf b (bdata_update f) u)) (brelse c b) = Inr t \<and> disk t (unat n) = f (bview s n) \<and>
     bread c 1 m t = Inr (b', v) \<and> bdata (bufs v b') = (if m = n then f (bview s n) else bview s m)"
proof -
  have room: "\<exists>b<NBUF. b \<notin> {} \<and> \<not> bdirty (bufs s b)" using assms(5) by simp
  obtain b u t where t: "bread c 1 n s = Inr (b, u)" "bframe s u"
    "bindE (bwrite c b (set_buf b (bdata_update f) u)) (brelse c b) = Inr t" "wrote c pd [(n, f (bview s n))] s t"
    by (rule rewrite_block[OF assms(1-3) room])
  note T = t(4)[unfolded wrote_def]
  have rt: "ready c pd t" "bc_ok pd {} {} t" "bview t = (bview s)(n := f (bview s n))" "dirtyset t = dirtyset s - {n}"
    "disk t = (disk s)(unat n := f (bview s n))" "bframe s t" using T by (simp_all add: vapply_def)
  have m: "m < disksize t" using assms(4) bframeD(1)[OF rt(6)] by simp
  have "finite (dirtyset s)" by (simp add: dirtyset_def)
  have D: "card (dirtyset s) < NBUF"
  proof -
    obtain b0 where b0: "b0 < NBUF" "\<not> bdirty (bufs s b0)" using assms(5) by blast
    have "dirtyset s \<subseteq> (\<lambda>b. blockno (bufs s b)) ` ({..<NBUF} - {b0})" using b0(2) by (auto simp: dirtyset_def)
    then have "card (dirtyset s) \<le> card ({..<NBUF} - {b0})" by (meson finite_Diff finite_imageI finite_lessThan card_mono card_image_le le_trans)
    then show ?thesis using b0(1) by simp
  qed
  have "card (dirtyset t) \<le> card (dirtyset s)" unfolding rt(4) by (rule card_Diff1_le)
  then have "\<exists>b<NBUF. b \<notin> {} \<and> \<not> bdirty (bufs t b)"
    using dirty_room[OF rt(2), of "dirtyset t"] D \<open>finite (dirtyset s)\<close> rt(4) by simp
  from read_one[OF rt(1,2) m this] obtain b' v where "bread c 1 m t = Inr (b', v)" "bdata (bufs v b') = bview t m" by blast
  then show ?thesis using t(1,3) rt(3,5) by auto
qed

theorem block_write_read_witness:
  "\<exists>b u t b' v. bread 0 1 7 (binit demo_base) = Inr (b, u) \<and>
     bindE (bwrite 0 b (set_buf b (bdata_update (\<lambda>_ _. 9)) u)) (brelse 0 b) = Inr t \<and>
     bread 0 1 7 t = Inr (b', v) \<and> bdata (bufs v b') = (\<lambda>_. 9)"
proof -
  have n: "7 < disksize (binit demo_base)" by (simp add: demo_more)
  have "\<exists>b<NBUF. \<not> bdirty (bufs (binit demo_base) b)"
    using bc_okD(9)[OF demo_base_cache(1), of 0] demo_binit_buf(1)[of 0] by (intro exI[of _ 0]) (auto simp: NBUF_def)
  from block_write_read[OF binit_ready[OF demo_base_ready] demo_base_cache(1) n n this, of "\<lambda>_ _. 9"] show ?thesis by auto
qed

end
