(* ===== verification/Inode.thy ===== *)
theory Inode
  imports Log
begin

text \<open>
  The lower half of fs.c: the block bitmap, the inode cache, on-disk inodes and the block map of
  a file.  An inode pointer is an index into the cache, and a pointer that the code tests for
  null is an option.  The on-disk structures are read and written at their byte offsets in the
  block; a short is a 16-bit word.
\<close>

subsection \<open>Layout\<close>

definition load16 :: "memory \<Rightarrow> nat \<Rightarrow> ushort" where
  "load16 m a = ucast (m a) OR push_bit 8 (ucast (m (a + 1)))"

definition store16 :: "memory \<Rightarrow> nat \<Rightarrow> ushort \<Rightarrow> memory" where
  "store16 m a w = m(a := ucast w, a + 1 := ucast (drop_bit 8 w))"

definition ROOTDEV :: uint where "ROOTDEV = 1"
definition ROOTINO :: uint where "ROOTINO = 1"
definition NINODE :: nat where "NINODE = 50"
definition NDIRECT :: nat where "NDIRECT = 12"
definition NINDIRECT :: nat where "NINDIRECT = 128"
definition MAXFILE :: nat where "MAXFILE = NDIRECT + NINDIRECT"
definition IPB :: uint where "IPB = 8"
definition BPB :: uint where "BPB = 4096"

definition IBLOCK :: "uint \<Rightarrow> superblock \<Rightarrow> uint" where
  "IBLOCK i sb = i div IPB + sb_inodestart sb"

definition BBLOCK :: "uint \<Rightarrow> superblock \<Rightarrow> uint" where
  "BBLOCK b sb = b div BPB + sb_bmapstart sb"

definition T_DIR :: ushort where "T_DIR = 1"
definition T_FILE :: ushort where "T_FILE = 2"
definition T_DEV :: ushort where "T_DEV = 3"

record dinode =
  d_type :: ushort
  d_major :: ushort
  d_minor :: ushort
  d_nlink :: ushort
  d_size :: uint
  d_addrs :: "uint list"

text \<open>The \<open>k\<close>-th dinode of a block: sixty-four bytes, with thirteen addresses from byte 12.\<close>

definition dinode_of :: "memory \<Rightarrow> nat \<Rightarrow> dinode" where
  "dinode_of m k = \<lparr>d_type = load16 m (64 * k), d_major = load16 m (64 * k + 2), d_minor = load16 m (64 * k + 4),
     d_nlink = load16 m (64 * k + 6), d_size = load32 m (64 * k + 8),
     d_addrs = map (\<lambda>j. load32 m (64 * k + 12 + 4 * j)) [0..<NDIRECT + 1]\<rparr>"

fun put_words :: "uint list \<Rightarrow> nat \<Rightarrow> memory \<Rightarrow> memory" where
  "put_words [] a m = m"
| "put_words (w # ws) a m = put_words ws (a + 4) (store32 m a w)"

definition put_dinode :: "dinode \<Rightarrow> nat \<Rightarrow> memory \<Rightarrow> memory" where
  "put_dinode d k m =
     (let m = store16 m (64 * k) (d_type d);
          m = store16 m (64 * k + 2) (d_major d);
          m = store16 m (64 * k + 4) (d_minor d);
          m = store16 m (64 * k + 6) (d_nlink d);
          m = store32 m (64 * k + 8) (d_size d)
      in put_words (d_addrs d) (64 * k + 12) m)"

record inode =
  i_dev :: uint
  inum :: uint
  i_ref :: int
  i_valid :: bool
  i_type :: ushort
  i_major :: ushort
  i_minor :: ushort
  i_nlink :: ushort
  i_size :: uint
  addrs :: "uint list"

record inost = logst +
  sb :: superblock
  icache :: "inode list"

definition set_inode :: "nat \<Rightarrow> (inode \<Rightarrow> inode) \<Rightarrow> 'a inost_scheme \<Rightarrow> 'a inost_scheme" where
  "set_inode i f s = s\<lparr>icache := (icache s)[i := f (icache s ! i)]\<rparr>"

definition set_data :: "nat \<Rightarrow> (memory \<Rightarrow> memory) \<Rightarrow> 'a bufst_scheme \<Rightarrow> 'a bufst_scheme" where
  "set_data b f s = set_buf b (bdata_update f) s"

subsection \<open>Blocks\<close>

definition bzero :: "nat \<Rightarrow> uint \<Rightarrow> uint \<Rightarrow> 'a inost_scheme \<Rightarrow> fault + 'a inost_scheme" where
  "bzero c d bno s =
     bindE (bread c d bno s) (\<lambda>(bp, s).
     bindE (log_write c bp (set_data bp (\<lambda>m i. if i < unat BSIZE then 0 else m i) s)) (brelse c bp))"

text \<open>The first clear bit of a bitmap block, among the blocks below the size of the file system.\<close>

definition bit_mask :: "nat \<Rightarrow> uchar" where
  "bit_mask bi = push_bit (bi mod 8) 1"

definition free_bit :: "memory \<Rightarrow> uint \<Rightarrow> uint \<Rightarrow> nat option" where
  "free_bit m b n =
     find (\<lambda>bi. m (bi div 8) AND bit_mask bi = 0) (takeWhile (\<lambda>bi. b + of_nat bi < n) [0..<unat BPB])"

fun balloc_loop :: "nat \<Rightarrow> uint \<Rightarrow> nat \<Rightarrow> uint \<Rightarrow> 'a inost_scheme \<Rightarrow> fault + (uint \<times> 'a inost_scheme)" where
  "balloc_loop c d n b s =
     (if b < sb_size (sb s) then
        bindE (bread c d (BBLOCK b (sb s)) s) (\<lambda>(bp, s).
          case free_bit (bdata (bufs s bp)) b (sb_size (sb s)) of
            Some bi \<Rightarrow>
              let s = set_data bp (\<lambda>m. m(bi div 8 := m (bi div 8) OR bit_mask bi)) s
              in bindE (log_write c bp s) (\<lambda>s.
                 bindE (brelse c bp s) (\<lambda>s.
                 bindE (bzero c d (b + of_nat bi) s) (\<lambda>s. Inr (b + of_nat bi, s))))
          | None \<Rightarrow> bindE (brelse c bp s) (\<lambda>s.
              case n of 0 \<Rightarrow> Inl Spin | Suc k \<Rightarrow> balloc_loop c d k (b + BPB) s))
      else Inl (Panic ''balloc: out of blocks''))"

declare balloc_loop.simps [simp del]

text \<open>A file system has at most 2^20 bitmap blocks.\<close>

definition balloc :: "nat \<Rightarrow> uint \<Rightarrow> 'a inost_scheme \<Rightarrow> fault + (uint \<times> 'a inost_scheme)" where
  "balloc c d s = balloc_loop c d (2 ^ 20) 0 s"

definition bfree :: "nat \<Rightarrow> uint \<Rightarrow> uint \<Rightarrow> 'a inost_scheme \<Rightarrow> fault + 'a inost_scheme" where
  "bfree c d b s =
     bindE (bread c d (BBLOCK b (sb s)) s) (\<lambda>(bp, s).
       let bi = unat (b mod BPB)
       in if bdata (bufs s bp) (bi div 8) AND bit_mask bi = 0 then Inl (Panic ''freeing free block'')
          else let s = set_data bp (\<lambda>m. m(bi div 8 := m (bi div 8) AND NOT (bit_mask bi))) s
               in bindE (log_write c bp s) (brelse c bp))"

subsection \<open>The inode cache\<close>

fun iinit_locks :: "nat list \<Rightarrow> 'a bufst_scheme \<Rightarrow> 'a bufst_scheme" where
  "iinit_locks [] s = s"
| "iinit_locks (i # is) s = iinit_locks is (initsleeplock (L_inode i) ''inode'' s)"

definition iinit :: "nat \<Rightarrow> int \<Rightarrow> 'a inost_scheme \<Rightarrow> fault + 'a inost_scheme" where
  "iinit c d s =
     (let s = iinit_locks [0..<NINODE] (initlock L_icache ''icache'' s)
      in bindE (readsb c d s) (\<lambda>(b, s).
         cprintf c (Some (''sb: size %d nblocks %d ninodes %d nlog %d logstart %d inodestart %d bmap start %d'' @ [CHR 0x0A]))
           (map A_word [sb_size b, sb_nblocks b, sb_ninodes b, sb_nlog b, sb_logstart b, sb_inodestart b, sb_bmapstart b])
           (s\<lparr>sb := b\<rparr>)))"

definition iget_hit :: "uint \<Rightarrow> uint \<Rightarrow> inode \<Rightarrow> bool" where
  "iget_hit d n ip \<longleftrightarrow> i_ref ip > 0 \<and> i_dev ip = d \<and> inum ip = n"

definition iget :: "nat \<Rightarrow> uint \<Rightarrow> uint \<Rightarrow> 'a inost_scheme \<Rightarrow> fault + (nat \<times> 'a inost_scheme)" where
  "iget c d n s =
     bindE (acquire c L_icache s) (\<lambda>s.
       case find (\<lambda>i. iget_hit d n (icache s ! i)) [0..<length (icache s)] of
         Some i \<Rightarrow> bindE (release c L_icache (set_inode i (i_ref_update (\<lambda>r. r + 1)) s)) (\<lambda>s. Inr (i, s))
       | None \<Rightarrow>
         (case find (\<lambda>i. i_ref (icache s ! i) = 0) [0..<length (icache s)] of
            None \<Rightarrow> Inl (Panic ''iget: no inodes'')
          | Some i \<Rightarrow>
              let s = set_inode i (\<lambda>ip. ip\<lparr>i_dev := d, inum := n, i_ref := 1, i_valid := False\<rparr>) s
              in bindE (release c L_icache s) (\<lambda>s. Inr (i, s))))"

definition idup :: "nat \<Rightarrow> nat \<Rightarrow> 'a inost_scheme \<Rightarrow> fault + (nat \<times> 'a inost_scheme)" where
  "idup c ip s =
     bindE (acquire c L_icache s) (\<lambda>s.
     bindE (release c L_icache (set_inode ip (i_ref_update (\<lambda>r. r + 1)) s)) (\<lambda>s. Inr (ip, s)))"

subsection \<open>On-disk inodes\<close>

fun ialloc_loop :: "nat \<Rightarrow> uint \<Rightarrow> ushort \<Rightarrow> nat \<Rightarrow> uint \<Rightarrow> 'a inost_scheme \<Rightarrow> fault + (nat \<times> 'a inost_scheme)" where
  "ialloc_loop c d ty n i s =
     (if i < sb_ninodes (sb s) then
        bindE (bread c d (IBLOCK i (sb s)) s) (\<lambda>(bp, s).
          let k = unat (i mod IPB)
          in if d_type (dinode_of (bdata (bufs s bp)) k) = 0
             then let s = set_data bp (\<lambda>m. store16 (\<lambda>x. if 64 * k \<le> x \<and> x < 64 * k + 64 then 0 else m x) (64 * k) ty) s
                  in bindE (log_write c bp s) (\<lambda>s. bindE (brelse c bp s) (iget c d i))
             else bindE (brelse c bp s) (\<lambda>s.
               case n of 0 \<Rightarrow> Inl Spin | Suc k \<Rightarrow> ialloc_loop c d ty k (i + 1) s))
      else Inl (Panic ''ialloc: no inodes''))"

declare ialloc_loop.simps [simp del]

definition ialloc :: "nat \<Rightarrow> uint \<Rightarrow> ushort \<Rightarrow> 'a inost_scheme \<Rightarrow> fault + (nat \<times> 'a inost_scheme)" where
  "ialloc c d ty s = ialloc_loop c d ty (2 ^ 32) 1 s"

definition dinode_from :: "inode \<Rightarrow> dinode" where
  "dinode_from ip = \<lparr>d_type = i_type ip, d_major = i_major ip, d_minor = i_minor ip, d_nlink = i_nlink ip,
     d_size = i_size ip, d_addrs = addrs ip\<rparr>"

definition iupdate :: "nat \<Rightarrow> nat \<Rightarrow> 'a inost_scheme \<Rightarrow> fault + 'a inost_scheme" where
  "iupdate c i s =
     (let ip = icache s ! i
      in bindE (bread c (i_dev ip) (IBLOCK (inum ip) (sb s)) s) (\<lambda>(bp, s).
           let s = set_data bp (put_dinode (dinode_from (icache s ! i)) (unat (inum ip mod IPB))) s
           in bindE (log_write c bp s) (brelse c bp)))"

definition ilock :: "nat \<Rightarrow> nat option \<Rightarrow> 'a inost_scheme \<Rightarrow> fault + 'a inost_scheme" where
  "ilock c po s =
     (case po of None \<Rightarrow> Inl (Panic ''ilock'')
      | Some i \<Rightarrow>
        if i_ref (icache s ! i) < 1 then Inl (Panic ''ilock'')
        else bindE (acquiresleep c (L_inode i) s) (\<lambda>s.
          if i_valid (icache s ! i) then Inr s
          else let ip = icache s ! i
               in bindE (bread c (i_dev ip) (IBLOCK (inum ip) (sb s)) s) (\<lambda>(bp, s).
                  let d = dinode_of (bdata (bufs s bp)) (unat (inum ip mod IPB));
                      s = set_inode i (\<lambda>ip. ip\<lparr>i_type := d_type d, i_major := d_major d, i_minor := d_minor d,
                            i_nlink := d_nlink d, i_size := d_size d, addrs := d_addrs d\<rparr>) s
                  in bindE (brelse c bp s) (\<lambda>s.
                     let s = set_inode i (i_valid_update (\<lambda>_. True)) s
                     in if i_type (icache s ! i) = 0 then Inl (Panic ''ilock: no type'') else Inr s))))"

definition iunlock :: "nat \<Rightarrow> nat option \<Rightarrow> 'a inost_scheme \<Rightarrow> fault + 'a inost_scheme" where
  "iunlock c po s =
     (case po of None \<Rightarrow> Inl (Panic ''iunlock'')
      | Some i \<Rightarrow>
        bindE (holdingsleep c (L_inode i) s) (\<lambda>(h, s).
          if \<not> h \<or> i_ref (icache s ! i) < 1 then Inl (Panic ''iunlock'')
          else releasesleep c (L_inode i) s))"

subsection \<open>The blocks of a file\<close>

definition bmap :: "nat \<Rightarrow> nat \<Rightarrow> uint \<Rightarrow> 'a inost_scheme \<Rightarrow> fault + (uint \<times> 'a inost_scheme)" where
  "bmap c i bn s =
     (if bn < of_nat NDIRECT then
        let addr = addrs (icache s ! i) ! unat bn
        in if addr = 0
           then bindE (balloc c (i_dev (icache s ! i)) s) (\<lambda>(addr, s).
             Inr (addr, set_inode i (addrs_update (\<lambda>a. a[unat bn := addr])) s))
           else Inr (addr, s)
      else let bn = bn - of_nat NDIRECT
      in if bn < of_nat NINDIRECT then
        let addr = addrs (icache s ! i) ! NDIRECT
        in bindE (if addr = 0
                  then bindE (balloc c (i_dev (icache s ! i)) s) (\<lambda>(addr, s).
                    Inr (addr, set_inode i (addrs_update (\<lambda>a. a[NDIRECT := addr])) s))
                  else Inr (addr, s)) (\<lambda>(addr, s).
           bindE (bread c (i_dev (icache s ! i)) addr s) (\<lambda>(bp, s).
             let addr = load32 (bdata (bufs s bp)) (4 * unat bn)
             in bindE (if addr = 0
                       then bindE (balloc c (i_dev (icache s ! i)) s) (\<lambda>(addr, s).
                            let s = set_data bp (\<lambda>m. store32 m (4 * unat bn) addr) s
                            in bindE (log_write c bp s) (\<lambda>s. Inr (addr, s)))
                       else Inr (addr, s)) (\<lambda>(addr, s).
                bindE (brelse c bp s) (\<lambda>s. Inr (addr, s)))))
      else Inl (Panic ''bmap: out of range''))"

fun itrunc_direct :: "nat \<Rightarrow> nat \<Rightarrow> nat list \<Rightarrow> 'a inost_scheme \<Rightarrow> fault + 'a inost_scheme" where
  "itrunc_direct c i [] s = Inr s"
| "itrunc_direct c i (j # js) s =
     (let ip = icache s ! i
      in if addrs ip ! j \<noteq> 0
         then bindE (bfree c (i_dev ip) (addrs ip ! j) s) (\<lambda>s.
              itrunc_direct c i js (set_inode i (addrs_update (\<lambda>a. a[j := 0])) s))
         else itrunc_direct c i js s)"

fun itrunc_indirect :: "nat \<Rightarrow> nat \<Rightarrow> nat \<Rightarrow> nat list \<Rightarrow> 'a inost_scheme \<Rightarrow> fault + 'a inost_scheme" where
  "itrunc_indirect c i bp [] s = Inr s"
| "itrunc_indirect c i bp (j # js) s =
     (let a = load32 (bdata (bufs s bp)) (4 * j)
      in bindE (if a \<noteq> 0 then bfree c (i_dev (icache s ! i)) a s else Inr s) (itrunc_indirect c i bp js))"

definition itrunc :: "nat \<Rightarrow> nat \<Rightarrow> 'a inost_scheme \<Rightarrow> fault + 'a inost_scheme" where
  "itrunc c i s =
     bindE (itrunc_direct c i [0..<NDIRECT] s) (\<lambda>s.
       let ip = icache s ! i
       in bindE (if addrs ip ! NDIRECT \<noteq> 0
                 then bindE (bread c (i_dev ip) (addrs ip ! NDIRECT) s) (\<lambda>(bp, s).
                      bindE (itrunc_indirect c i bp [0..<NINDIRECT] s) (\<lambda>s.
                      bindE (brelse c bp s) (\<lambda>s.
                      bindE (bfree c (i_dev (icache s ! i)) (addrs (icache s ! i) ! NDIRECT) s) (\<lambda>s.
                      Inr (set_inode i (addrs_update (\<lambda>a. a[NDIRECT := 0])) s)))))
                 else Inr s) (\<lambda>s.
          iupdate c i (set_inode i (i_size_update (\<lambda>_. 0)) s)))"

definition iput :: "nat \<Rightarrow> nat \<Rightarrow> 'a inost_scheme \<Rightarrow> fault + 'a inost_scheme" where
  "iput c i s =
     bindE (acquiresleep c (L_inode i) s) (\<lambda>s.
     bindE (if i_valid (icache s ! i) \<and> i_nlink (icache s ! i) = 0
            then bindE (acquire c L_icache s) (\<lambda>s.
                 let r = i_ref (icache s ! i)
                 in bindE (release c L_icache s) (\<lambda>s.
                    if r = 1
                    then bindE (itrunc c i s) (\<lambda>s.
                         bindE (iupdate c i (set_inode i (i_type_update (\<lambda>_. 0)) s)) (\<lambda>s.
                         Inr (set_inode i (i_valid_update (\<lambda>_. False)) s)))
                    else Inr s))
            else Inr s) (\<lambda>s.
     bindE (releasesleep c (L_inode i) s) (\<lambda>s.
     bindE (acquire c L_icache s) (\<lambda>s.
     release c L_icache (set_inode i (i_ref_update (\<lambda>r. r - 1)) s)))))"

definition iunlockput :: "nat \<Rightarrow> nat \<Rightarrow> 'a inost_scheme \<Rightarrow> fault + 'a inost_scheme" where
  "iunlockput c i s = bindE (iunlock c (Some i) s) (iput c i)"

record stat =
  st_type :: ushort
  st_dev :: uint
  st_ino :: uint
  st_nlink :: ushort
  st_size :: uint

definition stati :: "nat \<Rightarrow> 'a inost_scheme \<Rightarrow> stat" where
  "stati i s =
     (let ip = icache s ! i
      in \<lparr>st_type = i_type ip, st_dev = i_dev ip, st_ino = inum ip, st_nlink = i_nlink ip, st_size = i_size ip\<rparr>)"

end
