(* ===== verification/Fs.thy ===== *)
theory Fs
  imports Inode Cstring
begin

text \<open>
  The upper half of fs.c: reading and writing the content of an inode, directories and path
  names, with consoleread and consolewrite of console.c, to which the device switch leads.  What
  the code copies to a buffer of its caller is returned as a list of bytes, and what it copies
  from one is an argument.  A path is the list of its bytes before the terminating zero; a name
  is the list of the bytes skipelem stores in the buffer of \<open>DIRSIZ\<close> bytes.
\<close>

subsection \<open>Devices\<close>

datatype devfun = Consoleread | Consolewrite

definition NDEV :: int where "NDEV = 10"
definition CONSOLE :: nat where "CONSOLE = 1"

record fsst = inost +
  devsw_read :: "nat \<Rightarrow> devfun option"
  devsw_write :: "nat \<Rightarrow> devfun option"

text \<open>The bytes read so far are \<open>acc\<close>; the flag says whether the process was found killed.\<close>

fun consoleread_loop :: "nat \<Rightarrow> uint \<Rightarrow> nat \<Rightarrow> uchar list \<Rightarrow> 'a consst_scheme \<Rightarrow>
    fault + (bool \<times> nat \<times> uchar list \<times> 'a consst_scheme)" where
  "consoleread_loop c target 0 acc s = Inr (False, 0, acc, s)"
| "consoleread_loop c target (Suc k) acc s =
     (if inr s = inw s then
        bindE (curproc c s) (\<lambda>(i, s).
          if killed (ptable s ! i) then Inr (True, Suc k, acc, s) else Inl Blocked)
      else let ch = inbuf s (inslot (inr s)); s = s\<lparr>inr := inr s + 1\<rparr>
      in if ch = 4 then Inr (False, Suc k, acc, if of_nat (Suc k) < target then s\<lparr>inr := inr s - 1\<rparr> else s)
         else if ch = 10 then Inr (False, k, acc @ [ch], s)
         else consoleread_loop c target k (acc @ [ch]) s)"

definition consoleread :: "nat \<Rightarrow> nat \<Rightarrow> int \<Rightarrow> 'a inost_scheme \<Rightarrow> fault + (int \<times> uchar list \<times> 'a inost_scheme)" where
  "consoleread c ip n s =
     bindE (iunlock c (Some ip) s) (\<lambda>s.
       let target = word_of_int n
       in bindE (acquire c L_cons s) (\<lambda>s.
          bindE (consoleread_loop c target (nat n) [] s) (\<lambda>(dead, k, bytes, s).
          bindE (release c L_cons s) (\<lambda>s.
          bindE (ilock c (Some ip) s) (\<lambda>s.
            Inr (if dead then -1 else sint (target - word_of_int (if n > 0 then int k else n)), bytes, s))))))"

definition consolewrite :: "nat \<Rightarrow> nat \<Rightarrow> uchar list \<Rightarrow> 'a inost_scheme \<Rightarrow> fault + (int \<times> 'a inost_scheme)" where
  "consolewrite c ip bytes s =
     bindE (iunlock c (Some ip) s) (\<lambda>s.
     bindE (acquire c L_cons s) (\<lambda>s.
     bindE (consputs (map uint bytes) s) (\<lambda>s.
     bindE (release c L_cons s) (\<lambda>s.
     bindE (ilock c (Some ip) s) (\<lambda>s. Inr (int (length bytes), s))))))"

definition consoleinit :: "'a fsst_scheme \<Rightarrow> 'a fsst_scheme" where
  "consoleinit s =
     (let s = initlock L_cons ''console'' s;
          s = s\<lparr>devsw_write := (devsw_write s)(CONSOLE := Some Consolewrite)\<rparr>;
          s = s\<lparr>devsw_read := (devsw_read s)(CONSOLE := Some Consoleread)\<rparr>
      in s\<lparr>cons_locking := True\<rparr>)"

subsection \<open>File content\<close>

definition block_left :: "uint \<Rightarrow> nat" where
  "block_left off = unat BSIZE - unat (off mod BSIZE)"

lemma block_left_bounds: "0 < block_left off" "block_left off \<le> 512"
proof -
  have "off mod BSIZE < BSIZE" by (intro word_mod_less_divisor) (simp add: BSIZE_def)
  then have "unat (off mod BSIZE) < unat BSIZE" by (simp add: word_less_nat_alt)
  then show "0 < block_left off" "block_left off \<le> 512" by (auto simp: block_left_def BSIZE_def)
qed

text \<open>The copy loop of readi, with \<open>k = n - tot\<close> bytes to go.\<close>

function readi_loop :: "nat \<Rightarrow> nat \<Rightarrow> uint \<Rightarrow> nat \<Rightarrow> uchar list \<Rightarrow> 'a inost_scheme \<Rightarrow>
    fault + (uchar list \<times> 'a inost_scheme)" where
  "readi_loop c i off k acc s =
     (if 0 < k then
        bindE (bmap c i (off div BSIZE) s) (\<lambda>(addr, s).
        bindE (bread c (i_dev (icache s ! i)) addr s) (\<lambda>(bp, s).
          let m = min k (block_left off);
              a = unat (off mod BSIZE);
              bytes = map (bdata (bufs s bp)) [a..<a + m]
          in bindE (brelse c bp s) (readi_loop c i (off + of_nat m) (k - m) (acc @ bytes))))
      else Inr (acc, s))"
  by pat_completeness auto
termination
  using block_left_bounds(1) by (relation "measure (\<lambda>(c, i, off, k, acc, s). k)") (auto simp: min_def)

declare readi_loop.simps [simp del]

definition readi :: "nat \<Rightarrow> nat \<Rightarrow> uint \<Rightarrow> uint \<Rightarrow> 'a fsst_scheme \<Rightarrow> fault + (int \<times> uchar list \<times> 'a fsst_scheme)" where
  "readi c i off n s =
     (let ip = icache s ! i
      in if i_type ip = T_DEV then
           (if sint (i_major ip) < 0 \<or> sint (i_major ip) \<ge> NDEV then Inr (-1, [], s)
            else case devsw_read s (unat (i_major ip)) of None \<Rightarrow> Inr (-1, [], s)
            | Some Consoleread \<Rightarrow> consoleread c i (sint n) s
            | Some Consolewrite \<Rightarrow> Inl (Panic ''trap''))
         else if off > i_size ip \<or> off + n < off then Inr (-1, [], s)
         else let n = (if off + n > i_size ip then i_size ip - off else n)
              in bindE (readi_loop c i off (unat n) [] s) (\<lambda>(bytes, s). Inr (sint n, bytes, s)))"

text \<open>The copy loop of writei over the bytes to go; it ends with the offset after the last one.\<close>

function writei_loop :: "nat \<Rightarrow> nat \<Rightarrow> uint \<Rightarrow> uchar list \<Rightarrow> 'a inost_scheme \<Rightarrow> fault + (uint \<times> 'a inost_scheme)" where
  "writei_loop c i off src s =
     (if src \<noteq> [] then
        bindE (bmap c i (off div BSIZE) s) (\<lambda>(addr, s).
        bindE (bread c (i_dev (icache s ! i)) addr s) (\<lambda>(bp, s).
          let m = min (length src) (block_left off);
              s = set_data bp (put_bytes (take m src) (unat (off mod BSIZE))) s
          in bindE (log_write c bp s) (\<lambda>s.
             bindE (brelse c bp s) (writei_loop c i (off + of_nat m) (drop m src)))))
      else Inr (off, s))"
  by pat_completeness auto
termination
  using block_left_bounds(1) by (relation "measure (\<lambda>(c, i, off, src, s). length src)") (auto simp: min_def)

declare writei_loop.simps [simp del]

definition writei :: "nat \<Rightarrow> nat \<Rightarrow> uchar list \<Rightarrow> uint \<Rightarrow> uint \<Rightarrow> 'a fsst_scheme \<Rightarrow> fault + (int \<times> 'a fsst_scheme)" where
  "writei c i src off n s =
     (let ip = icache s ! i
      in if i_type ip = T_DEV then
           (if sint (i_major ip) < 0 \<or> sint (i_major ip) \<ge> NDEV then Inr (-1, s)
            else case devsw_write s (unat (i_major ip)) of None \<Rightarrow> Inr (-1, s)
            | Some Consolewrite \<Rightarrow> consolewrite c i (take (nat (sint n)) src) s
            | Some Consoleread \<Rightarrow> Inl (Panic ''trap''))
         else if off > i_size ip \<or> off + n < off then Inr (-1, s)
         else if off + n > of_nat MAXFILE * BSIZE then Inr (-1, s)
         else bindE (writei_loop c i off (take (unat n) src) s) (\<lambda>(off, s).
           bindE (if n > 0 \<and> off > i_size (icache s ! i)
                  then iupdate c i (set_inode i (i_size_update (\<lambda>_. off)) s)
                  else Inr s) (\<lambda>s. Inr (sint n, s))))"

subsection \<open>Directories\<close>

definition DIRSIZ :: nat where "DIRSIZ = 14"

definition byte_at :: "uchar list \<Rightarrow> nat \<Rightarrow> uchar" where
  "byte_at xs i = (if i < length xs then xs ! i else 0)"

text \<open>Two byte strings side by side in memory, for the routines of string.c.\<close>

definition pair_mem :: "uchar list \<Rightarrow> uchar list \<Rightarrow> memory" where
  "pair_mem xs ys = (\<lambda>i. if i < DIRSIZ + 2 then byte_at xs i else byte_at ys (i - (DIRSIZ + 2)))"

definition namecmp :: "uchar list \<Rightarrow> uchar list \<Rightarrow> int" where
  "namecmp xs ys = strncmp (pair_mem xs ys) 0 (DIRSIZ + 2) DIRSIZ"

definition de_inum :: "uchar list \<Rightarrow> ushort" where
  "de_inum de = load16 (byte_at de) 0"

definition de_name :: "uchar list \<Rightarrow> uchar list" where
  "de_name de = take DIRSIZ (drop 2 de)"

text \<open>A directory entry made by strncpy into the name and a store to the inode number.\<close>

definition mk_dirent :: "uchar list \<Rightarrow> uint \<Rightarrow> uchar list" where
  "mk_dirent name i =
     (let n = (ucast i :: ushort)
      in [ucast n, ucast (drop_bit 8 n)] @
         map (strncpy (pair_mem [] name) 0 (DIRSIZ + 2) (int DIRSIZ)) [0..<DIRSIZ])"

text \<open>The loop of dirlookup from offset \<open>off\<close>; it yields the offset and number of the entry it finds.\<close>

fun dirlookup_loop :: "nat \<Rightarrow> nat \<Rightarrow> uchar list \<Rightarrow> nat \<Rightarrow> uint \<Rightarrow> 'a fsst_scheme \<Rightarrow>
    fault + ((uint \<times> ushort) option \<times> 'a fsst_scheme)" where
  "dirlookup_loop c dp name n off s =
     (if off < i_size (icache s ! dp) then
        bindE (readi c dp off 16 s) (\<lambda>(r, de, s).
          if r \<noteq> 16 then Inl (Panic ''dirlookup read'')
          else if de_inum de \<noteq> 0 \<and> namecmp name (de_name de) = 0 then Inr (Some (off, de_inum de), s)
          else case n of 0 \<Rightarrow> Inl Spin | Suc k \<Rightarrow> dirlookup_loop c dp name k (off + 16) s)
      else Inr (None, s))"

declare dirlookup_loop.simps [simp del]

definition dir_fuel :: nat where "dir_fuel = 2 ^ 28"

text \<open>dirlookup returns the inode together with the offset it stores through \<open>poff\<close>.\<close>

definition dirlookup :: "nat \<Rightarrow> nat \<Rightarrow> uchar list \<Rightarrow> 'a fsst_scheme \<Rightarrow> fault + ((nat \<times> uint) option \<times> 'a fsst_scheme)" where
  "dirlookup c dp name s =
     (if i_type (icache s ! dp) \<noteq> T_DIR then Inl (Panic ''dirlookup not DIR'')
      else bindE (dirlookup_loop c dp name dir_fuel 0 s) (\<lambda>(r, s).
        case r of None \<Rightarrow> Inr (None, s)
        | Some (off, n) \<Rightarrow> bindE (iget c (i_dev (icache s ! dp)) (ucast n) s) (\<lambda>(ip, s). Inr (Some (ip, off), s))))"

fun dirlink_loop :: "nat \<Rightarrow> nat \<Rightarrow> nat \<Rightarrow> uint \<Rightarrow> 'a fsst_scheme \<Rightarrow> fault + (uint \<times> 'a fsst_scheme)" where
  "dirlink_loop c dp n off s =
     (if off < i_size (icache s ! dp) then
        bindE (readi c dp off 16 s) (\<lambda>(r, de, s).
          if r \<noteq> 16 then Inl (Panic ''dirlink read'')
          else if de_inum de = 0 then Inr (off, s)
          else case n of 0 \<Rightarrow> Inl Spin | Suc k \<Rightarrow> dirlink_loop c dp k (off + 16) s)
      else Inr (off, s))"

declare dirlink_loop.simps [simp del]

definition dirlink :: "nat \<Rightarrow> nat \<Rightarrow> uchar list \<Rightarrow> uint \<Rightarrow> 'a fsst_scheme \<Rightarrow> fault + (int \<times> 'a fsst_scheme)" where
  "dirlink c dp name n s =
     bindE (dirlookup c dp name s) (\<lambda>(r, s).
       case r of Some (ip, _) \<Rightarrow> bindE (iput c ip s) (\<lambda>s. Inr (-1, s))
       | None \<Rightarrow>
         bindE (dirlink_loop c dp dir_fuel 0 s) (\<lambda>(off, s).
         bindE (writei c dp (mk_dirent name n) off 16 s) (\<lambda>(r, s).
           if r \<noteq> 16 then Inl (Panic ''dirlink'') else Inr (0, s))))"

subsection \<open>Paths\<close>

definition SLASH :: uchar where "SLASH = 47"

definition skipelem :: "uchar list \<Rightarrow> (uchar list \<times> uchar list) option" where
  "skipelem path =
     (let path = dropWhile (\<lambda>b. b = SLASH) path
      in if path = [] then None
         else let elem = takeWhile (\<lambda>b. b \<noteq> SLASH) path;
                  path = dropWhile (\<lambda>b. b \<noteq> SLASH) path;
                  name = (if length elem \<ge> DIRSIZ then take DIRSIZ elem else elem @ [0])
              in Some (dropWhile (\<lambda>b. b = SLASH) path, name))"

lemma skipelem_shorter:
  assumes "skipelem path = Some (rest, name)"
  shows "length rest < length path"
proof -
  define p where "p = dropWhile (\<lambda>b. b = SLASH) path"
  have p: "p \<noteq> []" and r: "rest = dropWhile (\<lambda>b. b = SLASH) (dropWhile (\<lambda>b. b \<noteq> SLASH) p)"
    using assms by (auto simp: skipelem_def Let_def p_def split: if_splits)
  have h: "hd p \<noteq> SLASH" using p hd_dropWhile[of "\<lambda>b. b = SLASH" path] by (simp add: p_def)
  have "length rest \<le> length (dropWhile (\<lambda>b. b \<noteq> SLASH) p)" unfolding r by (rule length_dropWhile_le)
  also have "\<dots> < length p"
    using p h by (cases p) (auto simp: less_Suc_eq_le length_dropWhile_le)
  also have "\<dots> \<le> length path" unfolding p_def by (rule length_dropWhile_le)
  finally show ?thesis .
qed

text \<open>
  The loop of namex.  It returns the inode, or \<open>None\<close> for a null pointer, with the last name
  stored in the caller's buffer.
\<close>

function namex_loop :: "nat \<Rightarrow> bool \<Rightarrow> nat \<Rightarrow> uchar list \<Rightarrow> uchar list \<Rightarrow> 'a fsst_scheme \<Rightarrow>
    fault + (nat option \<times> uchar list \<times> 'a fsst_scheme)" where
  "namex_loop c nameiparent ip path name s =
     (case skipelem path of
        None \<Rightarrow>
          if nameiparent then bindE (iput c ip s) (\<lambda>s. Inr (None, name, s)) else Inr (Some ip, name, s)
      | Some (path, name) \<Rightarrow>
          bindE (ilock c (Some ip) s) (\<lambda>s.
            if i_type (icache s ! ip) \<noteq> T_DIR then bindE (iunlockput c ip s) (\<lambda>s. Inr (None, name, s))
            else if nameiparent \<and> path = [] then bindE (iunlock c (Some ip) s) (\<lambda>s. Inr (Some ip, name, s))
            else bindE (dirlookup c ip name s) (\<lambda>(r, s).
              case r of None \<Rightarrow> bindE (iunlockput c ip s) (\<lambda>s. Inr (None, name, s))
              | Some (nxt, _) \<Rightarrow> bindE (iunlockput c ip s) (namex_loop c nameiparent nxt path name))))"
  by pat_completeness auto
termination
  by (relation "measure (\<lambda>(c, b, ip, path, name, s). length path)") (auto dest: skipelem_shorter)

declare namex_loop.simps [simp del]

definition namex :: "nat \<Rightarrow> uchar list \<Rightarrow> bool \<Rightarrow> 'a fsst_scheme \<Rightarrow> fault + (nat option \<times> uchar list \<times> 'a fsst_scheme)" where
  "namex c path nameiparent s =
     bindE (if path \<noteq> [] \<and> hd path = SLASH then iget c ROOTDEV ROOTINO s
            else bindE (curproc c s) (\<lambda>(i, s).
              case cwd (ptable s ! i) of None \<Rightarrow> Inl (Panic ''trap'') | Some ip \<Rightarrow> idup c ip s)) (\<lambda>(ip, s).
       namex_loop c nameiparent ip path [] s)"

definition namei :: "nat \<Rightarrow> uchar list \<Rightarrow> 'a fsst_scheme \<Rightarrow> fault + (nat option \<times> 'a fsst_scheme)" where
  "namei c path s = bindE (namex c path False s) (\<lambda>(ip, _, s). Inr (ip, s))"

definition nameiparent :: "nat \<Rightarrow> uchar list \<Rightarrow> 'a fsst_scheme \<Rightarrow> fault + (nat option \<times> uchar list \<times> 'a fsst_scheme)" where
  "nameiparent c path s = namex c path True s"

end
