(* ===== verification/File.thy ===== *)
theory File
  imports Fs
begin

text \<open>
  file.c and pipe.c: the open file table, pipes, and the parts of fork and exit that share and
  close the files of a process.  A file pointer is an index into the file table.  A pipe lives in
  a page of kernel memory and is kept under the address of that page; its lock is \<open>L_pipe\<close> of the
  address.  A pipe operation that goes to sleep says so, with the state in which the process
  sleeps; the file layer above treats it as \<open>Blocked\<close>.
\<close>

subsection \<open>State\<close>

datatype ftype = FD_NONE | FD_PIPE | FD_INODE

record kfile =
  f_type :: ftype
  f_ref :: int
  readable :: bool
  writable :: bool
  f_pipe :: uint
  f_ip :: "nat option"
  f_off :: uint

definition PIPESIZE :: uint where "PIPESIZE = 512"
definition NFILE :: nat where "NFILE = 100"

record pipe =
  p_data :: memory
  nread :: uint
  nwrite :: uint
  readopen :: bool
  writeopen :: bool

record filest = fsst +
  ftable :: "kfile list"
  pipes :: "uint \<Rightarrow> pipe"

definition set_file :: "nat \<Rightarrow> (kfile \<Rightarrow> kfile) \<Rightarrow> 'a filest_scheme \<Rightarrow> 'a filest_scheme" where
  "set_file f g s = s\<lparr>ftable := (ftable s)[f := g (ftable s ! f)]\<rparr>"

definition set_pipe :: "uint \<Rightarrow> (pipe \<Rightarrow> pipe) \<Rightarrow> 'a filest_scheme \<Rightarrow> 'a filest_scheme" where
  "set_pipe p g s = s\<lparr>pipes := (pipes s)(p := g (pipes s p))\<rparr>"

subsection \<open>Pipes\<close>

definition pslot :: "uint \<Rightarrow> nat" where
  "pslot i = unat (i mod PIPESIZE)"

definition pipeclose :: "nat \<Rightarrow> uint \<Rightarrow> bool \<Rightarrow> 'a filest_scheme \<Rightarrow> fault + 'a filest_scheme" where
  "pipeclose c p w s =
     bindE (acquire c (L_pipe p) s) (\<lambda>s.
     bindE (if w then wakeup c (Ch_nread p) (set_pipe p (writeopen_update (\<lambda>_. False)) s)
            else wakeup c (Ch_nwrite p) (set_pipe p (readopen_update (\<lambda>_. False)) s)) (\<lambda>s.
       if \<not> readopen (pipes s p) \<and> \<not> writeopen (pipes s p)
       then bindE (release c (L_pipe p) s) (kfree c p)
       else release c (L_pipe p) s))"

datatype 'r pipe_res = P_done 'r | P_asleep "uchar list"

definition pipe_full :: "pipe \<Rightarrow> bool" where
  "pipe_full q \<longleftrightarrow> nwrite q = nread q + PIPESIZE"

definition pipe_put :: "uchar \<Rightarrow> pipe \<Rightarrow> pipe" where
  "pipe_put b q = q\<lparr>p_data := (p_data q)(pslot (nwrite q) := b), nwrite := nwrite q + 1\<rparr>"

text \<open>
  The loop of pipewrite over the bytes to go, with the lock held; \<open>n\<close> is the value to return.
  \<open>P_asleep\<close> carries the bytes to go when the process resumes in the loop.
\<close>

fun pipewrite_loop :: "nat \<Rightarrow> uint \<Rightarrow> int \<Rightarrow> uchar list \<Rightarrow> 'a filest_scheme \<Rightarrow>
    fault + (int pipe_res \<times> 'a filest_scheme)" where
  "pipewrite_loop c p n [] s =
     bindE (wakeup c (Ch_nread p) s) (\<lambda>s.
     bindE (release c (L_pipe p) s) (\<lambda>s. Inr (P_done n, s)))"
| "pipewrite_loop c p n (b # bs) s =
     (if pipe_full (pipes s p) then
        bindE (if \<not> readopen (pipes s p) then Inr (True, s)
               else bindE (curproc c s) (\<lambda>(i, s). Inr (killed (ptable s ! i), s))) (\<lambda>(stop, s).
          if stop then bindE (release c (L_pipe p) s) (\<lambda>s. Inr (P_done (-1), s))
          else bindE (wakeup c (Ch_nread p) s) (\<lambda>s.
               bindE (sleep c (Ch_nwrite p) (Some (L_pipe p)) s) (\<lambda>s. Inr (P_asleep (b # bs), s))))
      else pipewrite_loop c p n bs (set_pipe p (pipe_put b) s))"

definition pipewrite :: "nat \<Rightarrow> uint \<Rightarrow> uchar list \<Rightarrow> int \<Rightarrow> 'a filest_scheme \<Rightarrow>
    fault + (int pipe_res \<times> 'a filest_scheme)" where
  "pipewrite c p bytes n s =
     bindE (acquire c (L_pipe p) s) (pipewrite_loop c p n (take (nat n) bytes))"

fun piperead_copy :: "nat \<Rightarrow> pipe \<Rightarrow> uchar list \<times> pipe" where
  "piperead_copy 0 q = ([], q)"
| "piperead_copy (Suc n) q =
     (if nread q = nwrite q then ([], q)
      else let (bs, q') = piperead_copy n (q\<lparr>nread := nread q + 1\<rparr>)
           in (p_data q (pslot (nread q)) # bs, q'))"

text \<open>The rest of piperead from its wait loop on, with the lock held.\<close>

definition piperead_locked :: "nat \<Rightarrow> uint \<Rightarrow> int \<Rightarrow> 'a filest_scheme \<Rightarrow>
    fault + ((int \<times> uchar list) pipe_res \<times> 'a filest_scheme)" where
  "piperead_locked c p n s =
     (if nread (pipes s p) = nwrite (pipes s p) \<and> writeopen (pipes s p) then
        bindE (curproc c s) (\<lambda>(i, s).
          if killed (ptable s ! i) then bindE (release c (L_pipe p) s) (\<lambda>s. Inr (P_done (-1, []), s))
          else bindE (sleep c (Ch_nread p) (Some (L_pipe p)) s) (\<lambda>s. Inr (P_asleep [], s)))
      else let (bs, q) = piperead_copy (nat n) (pipes s p);
               s = set_pipe p (\<lambda>_. q) s
           in bindE (wakeup c (Ch_nwrite p) s) (\<lambda>s.
              bindE (release c (L_pipe p) s) (\<lambda>s. Inr (P_done (int (length bs), bs), s))))"

definition piperead :: "nat \<Rightarrow> uint \<Rightarrow> int \<Rightarrow> 'a filest_scheme \<Rightarrow>
    fault + ((int \<times> uchar list) pipe_res \<times> 'a filest_scheme)" where
  "piperead c p n s = bindE (acquire c (L_pipe p) s) (piperead_locked c p n)"

definition no_sleep :: "'r pipe_res \<times> 's \<Rightarrow> fault + ('r \<times> 's)" where
  "no_sleep x = (case x of (P_done r, s) \<Rightarrow> Inr (r, s) | (P_asleep _, _) \<Rightarrow> Inl Blocked)"

subsection \<open>The file table\<close>

definition fileinit :: "'a filest_scheme \<Rightarrow> 'a filest_scheme" where
  "fileinit s = initlock L_ftable ''ftable'' s"

definition filealloc :: "nat \<Rightarrow> 'a filest_scheme \<Rightarrow> fault + (nat option \<times> 'a filest_scheme)" where
  "filealloc c s =
     bindE (acquire c L_ftable s) (\<lambda>s.
       case find (\<lambda>f. f_ref (ftable s ! f) = 0) [0..<length (ftable s)] of
         Some f \<Rightarrow> bindE (release c L_ftable (set_file f (f_ref_update (\<lambda>_. 1)) s)) (\<lambda>s. Inr (Some f, s))
       | None \<Rightarrow> bindE (release c L_ftable s) (\<lambda>s. Inr (None, s)))"

definition filedup :: "nat \<Rightarrow> nat \<Rightarrow> 'a filest_scheme \<Rightarrow> fault + (nat \<times> 'a filest_scheme)" where
  "filedup c f s =
     bindE (acquire c L_ftable s) (\<lambda>s.
       if f_ref (ftable s ! f) < 1 then Inl (Panic ''filedup'')
       else bindE (release c L_ftable (set_file f (f_ref_update (\<lambda>r. r + 1)) s)) (\<lambda>s. Inr (f, s)))"

definition fileclose :: "nat \<Rightarrow> nat \<Rightarrow> 'a filest_scheme \<Rightarrow> fault + 'a filest_scheme" where
  "fileclose c f s =
     bindE (acquire c L_ftable s) (\<lambda>s.
       if f_ref (ftable s ! f) < 1 then Inl (Panic ''fileclose'')
       else let s = set_file f (f_ref_update (\<lambda>r. r - 1)) s
       in if f_ref (ftable s ! f) > 0 then release c L_ftable s
          else let ff = ftable s ! f;
                   s = set_file f (\<lambda>x. x\<lparr>f_ref := 0, f_type := FD_NONE\<rparr>) s
               in bindE (release c L_ftable s) (\<lambda>s.
                  case f_type ff of
                    FD_PIPE \<Rightarrow> pipeclose c (f_pipe ff) (writable ff) s
                  | FD_INODE \<Rightarrow>
                      bindE (begin_op c s) (\<lambda>s.
                      bindE (case f_ip ff of None \<Rightarrow> Inl (Panic ''trap'') | Some ip \<Rightarrow> iput c ip s) (end_op c))
                  | FD_NONE \<Rightarrow> Inr s))"

definition pipealloc :: "nat \<Rightarrow> 'a filest_scheme \<Rightarrow> fault + ((nat \<times> nat) option \<times> 'a filest_scheme)" where
  "pipealloc c s =
     (let bad = (\<lambda>f0 f1 s.
        bindE (case f0 of Some f \<Rightarrow> fileclose c f s | None \<Rightarrow> Inr s) (\<lambda>s.
        bindE (case f1 of Some f \<Rightarrow> fileclose c f s | None \<Rightarrow> Inr s) (\<lambda>s. Inr (None, s))))
      in bindE (filealloc c s) (\<lambda>(f0, s).
         case f0 of None \<Rightarrow> bad None None s
         | Some a \<Rightarrow>
           bindE (filealloc c s) (\<lambda>(f1, s).
           case f1 of None \<Rightarrow> bad (Some a) None s
           | Some b \<Rightarrow>
             bindE (kalloc c s) (\<lambda>(p, s).
               if p = 0 then bad (Some a) (Some b) s
               else let s = set_pipe p (\<lambda>q. q\<lparr>readopen := True, writeopen := True, nwrite := 0, nread := 0\<rparr>) s;
                        s = initlock (L_pipe p) ''pipe'' s;
                        s = set_file a (\<lambda>x. x\<lparr>f_type := FD_PIPE, readable := True, writable := False, f_pipe := p\<rparr>) s;
                        s = set_file b (\<lambda>x. x\<lparr>f_type := FD_PIPE, readable := False, writable := True, f_pipe := p\<rparr>) s
                    in Inr (Some (a, b), s)))))"

definition filestat :: "nat \<Rightarrow> nat \<Rightarrow> 'a filest_scheme \<Rightarrow> fault + (stat option \<times> 'a filest_scheme)" where
  "filestat c f s =
     (let x = ftable s ! f
      in if f_type x = FD_INODE then
           bindE (ilock c (f_ip x) s) (\<lambda>s.
             let st = stati (the (f_ip x)) s
             in bindE (iunlock c (f_ip x) s) (\<lambda>s. Inr (Some st, s)))
         else Inr (None, s))"

definition fileread :: "nat \<Rightarrow> nat \<Rightarrow> int \<Rightarrow> 'a filest_scheme \<Rightarrow> fault + (int \<times> uchar list \<times> 'a filest_scheme)" where
  "fileread c f n s =
     (let x = ftable s ! f
      in if \<not> readable x then Inr (-1, [], s)
         else case f_type x of
           FD_PIPE \<Rightarrow> bindE (bindE (piperead c (f_pipe x) n s) no_sleep) (\<lambda>((r, bs), s). Inr (r, bs, s))
         | FD_INODE \<Rightarrow>
             bindE (ilock c (f_ip x) s) (\<lambda>s.
             bindE (readi c (the (f_ip x)) (f_off (ftable s ! f)) (word_of_int n) s) (\<lambda>(r, bs, s).
               let s = (if r > 0 then set_file f (f_off_update (\<lambda>o'. o' + word_of_int r)) s else s)
               in bindE (iunlock c (f_ip x) s) (\<lambda>s. Inr (r, bs, s))))
         | FD_NONE \<Rightarrow> Inl (Panic ''fileread''))"

definition write_max :: nat where "write_max = nat (((MAXOPBLOCKS - 1 - 1 - 2) div 2) * 512)"

text \<open>The loop of filewrite over the bytes to go; it returns whether all of them were written.\<close>

function filewrite_loop :: "nat \<Rightarrow> nat \<Rightarrow> uchar list \<Rightarrow> 'a filest_scheme \<Rightarrow> fault + (bool \<times> 'a filest_scheme)" where
  "filewrite_loop c f src s =
     (if src = [] then Inr (True, s)
      else let n1 = min (length src) write_max; ip = f_ip (ftable s ! f)
      in bindE (begin_op c s) (\<lambda>s.
         bindE (ilock c ip s) (\<lambda>s.
         bindE (writei c (the ip) (take n1 src) (f_off (ftable s ! f)) (of_nat n1) s) (\<lambda>(r, s).
           let s = (if r > 0 then set_file f (f_off_update (\<lambda>o'. o' + word_of_int r)) s else s)
           in bindE (iunlock c ip s) (\<lambda>s.
              bindE (end_op c s) (\<lambda>s.
                if r < 0 then Inr (False, s)
                else if r \<noteq> int n1 then Inl (Panic ''short filewrite'')
                else filewrite_loop c f (drop n1 src) s))))))"
  by pat_completeness auto
termination
  by (relation "measure (\<lambda>(c, f, src, s). length src)") (auto simp: write_max_def MAXOPBLOCKS_def)

declare filewrite_loop.simps [simp del]

definition filewrite :: "nat \<Rightarrow> nat \<Rightarrow> uchar list \<Rightarrow> int \<Rightarrow> 'a filest_scheme \<Rightarrow> fault + (int \<times> 'a filest_scheme)" where
  "filewrite c f bytes n s =
     (let x = ftable s ! f
      in if \<not> writable x then Inr (-1, s)
         else case f_type x of
           FD_PIPE \<Rightarrow> bindE (pipewrite c (f_pipe x) bytes n s) no_sleep
         | FD_INODE \<Rightarrow>
             bindE (filewrite_loop c f (take (nat n) bytes) s) (\<lambda>(all, s).
               Inr (if all \<and> n \<ge> 0 then n else -1, s))
         | FD_NONE \<Rightarrow> Inl (Panic ''filewrite''))"

subsection \<open>Sharing and closing the files of a process\<close>

fun fork_files :: "nat \<Rightarrow> nat \<Rightarrow> nat \<Rightarrow> nat list \<Rightarrow> 'a filest_scheme \<Rightarrow> fault + 'a filest_scheme" where
  "fork_files c i np [] s = Inr s"
| "fork_files c i np (fd # fds) s =
     (case ofile (ptable s ! i) ! fd of
        None \<Rightarrow> fork_files c i np fds s
      | Some f \<Rightarrow> bindE (filedup c f s) (\<lambda>(f, s).
          fork_files c i np fds (set_proc np (ofile_update (\<lambda>fs. fs[fd := Some f])) s)))"

definition fork_dup :: "nat \<Rightarrow> nat \<Rightarrow> nat \<Rightarrow> 'a filest_scheme \<Rightarrow> fault + 'a filest_scheme" where
  "fork_dup c i np s =
     bindE (fork_files c i np [0..<NOFILE] s) (\<lambda>s.
       case cwd (ptable s ! i) of None \<Rightarrow> Inl (Panic ''trap'')
       | Some ip \<Rightarrow> bindE (idup c ip s) (\<lambda>(ip, s). Inr (set_proc np (cwd_update (\<lambda>_. Some ip)) s)))"

fun exit_files :: "nat \<Rightarrow> nat \<Rightarrow> nat list \<Rightarrow> 'a filest_scheme \<Rightarrow> fault + 'a filest_scheme" where
  "exit_files c i [] s = Inr s"
| "exit_files c i (fd # fds) s =
     (case ofile (ptable s ! i) ! fd of
        None \<Rightarrow> exit_files c i fds s
      | Some f \<Rightarrow> bindE (fileclose c f s) (\<lambda>s.
          exit_files c i fds (set_proc i (ofile_update (\<lambda>fs. fs[fd := None])) s)))"

definition exit_close :: "nat \<Rightarrow> nat \<Rightarrow> 'a filest_scheme \<Rightarrow> fault + 'a filest_scheme" where
  "exit_close c i s =
     bindE (exit_files c i [0..<NOFILE] s) (\<lambda>s.
     bindE (begin_op c s) (\<lambda>s.
     bindE (case cwd (ptable s ! i) of None \<Rightarrow> Inl (Panic ''trap'') | Some ip \<Rightarrow> iput c ip s) (end_op c)))"

end
