(* ===== verification/Critical.thy ===== *)
theory Critical
  imports Bioinv
begin

text \<open>
  Critical sections of the devices and pipes: what wakeup, sleep and release do for a process that holds
  one spin lock and has taken it in a state where all were free.
\<close>

lemma lockfree_acquired: "lockfree f \<Longrightarrow> f (acquired c l s) = acquired c l (f s)"
proof -
  assume f: "lockfree f"
  have "cpus (pushcli c (f s)) = cpus (pushcli c s)"
    using lockfree_sel[OF f, of s] by (simp add: pushcli_def Let_def set_cpu_def cli_def)
  then show ?thesis using lockfreeD[OF f, of c l s] lockfree_sel[OF f, of s] by (simp add: acquired_upd)
qed

lemma ready_lockfree: "ready c pd s \<Longrightarrow> lockfree f \<Longrightarrow> ptable (f s) = ptable s \<Longrightarrow> ready c pd (f s)"
  using lockfree_sel[of f s] by (intro ready_cong[of c pd s "f s"]) auto

lemma wakeup_acquired:
  assumes "ready c pd s" "l \<noteq> L_ptable"
  shows "wakeup c ch (acquired c l s) = Inr (acquired c l (wakeup1 ch s))"
proof -
  have "steady c (acquired c l s)" by (rule steady_acquired) (rule ready_ok[OF assms(1)])
  moreover have "lock_free L_ptable (acquired c l s)" using ready_free[OF assms(1), of L_ptable] assms(2) by (simp add: lock_free_def)
  ultimately show ?thesis by (simp add: wakeup_steady lockfree_acquired[OF lockfree_wakeup1])
qed

lemma release_ready: "ready c pd s \<Longrightarrow> release c l (acquired c l s) = Inr s"
  by (rule release_lockfree[OF ready_steady ready_free lockfree_id])

lemma curproc_acquired:
  assumes "ready c pd s" "cproc (cpus s c) = Some i"
  shows "curproc c (acquired c l s) = Inr (i, acquired c l s)"
  by (rule steady_curproc[OF steady_acquired[OF ready_ok[OF assms(1)]]]) (simp add: assms(2))

lemma sleep_more:
  fixes s :: "'a procst_scheme"
  assumes "sleep c ch l s = Inr t"
  shows "procst.more t = procst.more s"
proof -
  have m: "procst.more t = procst.more s" if "lockst.more t = lockst.more s" for s t :: "'a procst_scheme"
    using procst_more(8)[OF memst_more(5)[OF that]] .
  have p: "procst.more (set_proc i f s) = procst.more s" for i f and s :: "'a procst_scheme" by (simp add: set_proc_def)
  have my: "lockst.more t = lockst.more s" if "myproc c s = Inr (r, t)" for r and s t :: "'a procst_scheme"
    using that by (auto simp: myproc_def Let_def bindE_eq_Inr dest: popcli_more)
  have sc: "procst.more t = procst.more s" if "sched c k s = Inr t" for k and s t :: "'a procst_scheme"
    using that by (auto simp: sched_def curproc_def bindE_eq_Inr p split: option.splits if_splits dest!: my holding_more m)
  obtain po b where b: "myproc c s = Inr (po, b)" using assms by (cases "myproc c s") (auto simp: sleep_def)
  obtain i k where ik: "po = Some i" "l = Some k" using assms b by (cases po; cases l) (auto simp: sleep_def)
  obtain u where u: "(if k \<noteq> L_ptable then bindE (acquire c L_ptable b) (release c k) else Inr b) = Inr u"
    "sched c (Ctx_sleep k) (set_proc i (\<lambda>p. p\<lparr>chan := ch, pstate := SLEEPING\<rparr>) u) = Inr t"
    using assms b ik by (auto simp: sleep_def bindE_eq_Inr)
  have "lockst.more u = lockst.more b" using u(1) by (auto simp: bindE_eq_Inr split: if_splits dest!: acquire_more release_more)
  then show ?thesis using sc[OF u(2)] m[of u b] m[OF my[OF b]] by (simp add: p)
qed

lemma sleep_acquired:
  fixes s :: "'a procst_scheme"
  assumes "ready c pd s" "cproc (cpus s c) = Some i" "i < length (ptable s)" "l \<noteq> L_ptable"
  obtains t where "sleep c ch (Some l) (acquired c l s) = Inr t" "procst.more t = procst.more s"
    "pstate (ptable t ! i) = SLEEPING" "chan (ptable t ! i) = ch"
proof -
  have q: "quiet s" using assms(1) by (simp add: ready_def)
  obtain b t where t: "bindE (acquire c l s) (sleep c ch (Some l)) = Inr t"
    "ptable t = (ptable s)[i := (ptable s ! i)\<lparr>chan := ch, pstate := SLEEPING, pcontext := Ctx_sleep l b\<rparr>]"
    by (rule sleep_quiet[OF q assms(2,3,4)])
  have a: "acquire c l s = Inr (acquired c l s)" by (rule acquire_section[OF ready_steady[OF assms(1)] ready_free[OF assms(1)]])
  have e: "sleep c ch (Some l) (acquired c l s) = Inr t" using t(1) a by simp
  have "procst.more (acquired c l s) = procst.more s" by (simp add: acquired_upd)
  with sleep_more[OF e] t(2) assms(3) show ?thesis by (intro that[OF e]) simp_all
qed

end
