(* ===== verification/Ring.thy ===== *)
theory Ring
  imports Prelude
begin

text \<open>
  Ring buffers of bytes.  The pipes and the console input buffer keep free-running unsigned read
  and write counters and find the slot of a counter modulo the size of the buffer, a power of
  two.  The bytes between two counters form a list, and the contract of a bounded queue of
  bytes is a locale that both buffers satisfy.
\<close>

subsection \<open>Counters and slots\<close>

definition ring_bytes :: "nat \<Rightarrow> memory \<Rightarrow> uint \<Rightarrow> uint \<Rightarrow> uchar list" where
  "ring_bytes k d r w = map (\<lambda>i. d (unat (take_bit k (r + of_nat i)))) [0..<unat (w - r)]"

lemma ring_bytes_length [simp]: "length (ring_bytes k d r w) = unat (w - r)"
  by (simp add: ring_bytes_def)

lemma ring_bytes_empty [simp]: "ring_bytes k d r r = []"
  by (simp add: ring_bytes_def)

lemma unat_Suc_diff:
  fixes w r :: uint
  assumes "unat (w - r) < 2 ^ k" "k < 32"
  shows "unat (w + 1 - r) = Suc (unat (w - r))"
proof -
  have "(2::nat) ^ k \<le> 2 ^ 31" using assms(2) by (intro power_increasing) auto
  then have "unat (w - r) + 1 < 2 ^ 32" using assms(1) by simp
  moreover have "w + 1 - r = (w - r) + 1" by simp
  ultimately show ?thesis by (simp only: unat_word_ariths) (simp add: take_bit_nat_eq_self)
qed

lemma slots_differ:
  assumes "m < 2 ^ k" "0 < m" "k < 32"
  shows "take_bit k (a + of_nat m) \<noteq> take_bit k (a :: uint)"
proof
  assume "take_bit k (a + of_nat m) = take_bit k a"
  then have "uint (take_bit k (word_of_int (uint a + int m) :: uint)) = uint (take_bit k a)" by simp
  then have "take_bit k (uint a + int m) = take_bit k (uint a)"
    using assms(3) unfolding unsigned_take_bit_eq unsigned_of_int by simp
  then have "take_bit k ((uint a + int m) - uint a) = take_bit k (uint a - uint a)"
    using take_bit_diff[of k "uint a + int m" "uint a"] take_bit_diff[of k "uint a" "uint a"] by simp
  then have "take_bit k (int m) = 0" by simp
  then show False using assms(1,2) by (simp add: take_bit_int_eq_self)
qed

lemma ring_put:
  assumes "unat (w - r) < 2 ^ k" "k < 32"
  shows "ring_bytes k (d(unat (take_bit k w) := b)) r (w + 1) = ring_bytes k d r w @ [b]"
proof -
  let ?n = "unat (w - r)"
  have w: "r + of_nat ?n = w" by simp
  have "take_bit k (r + of_nat i) \<noteq> take_bit k w" if "i < ?n" for i
  proof -
    have "w = (r + of_nat i) + of_nat (?n - i)" using that w by (simp add: of_nat_diff)
    moreover have "?n - i < 2 ^ k" "0 < ?n - i" using that assms(1) by auto
    ultimately show ?thesis using slots_differ[of "?n - i" k "r + of_nat i"] assms(2) by simp
  qed
  then show ?thesis using w by (simp add: ring_bytes_def unat_Suc_diff[OF assms])
qed

lemma ring_get:
  assumes "r \<noteq> w"
  shows "ring_bytes k d r w = d (unat (take_bit k r)) # ring_bytes k d (r + 1) w"
proof -
  have "w - r \<noteq> 0" using assms by simp
  then have n: "unat (w - r) = Suc (unat (w - r - 1))" by (simp add: unat_minus_one unat_gt_0)
  have u: "[0..<unat (w - r)] = 0 # map Suc [0..<unat (w - r - 1)]" unfolding n by (simp add: upt_conv_Cons map_Suc_upt)
  have e: "w - (r + 1) = w - r - 1" "r + of_nat (Suc i) = r + 1 + of_nat i" for i by simp_all
  show ?thesis unfolding ring_bytes_def u e(1) list.map map_map o_def e(2) by simp
qed

lemma ring_unput:
  assumes "r \<noteq> w"
  shows "ring_bytes k d r w = ring_bytes k d r (w - 1) @ [d (unat (take_bit k (w - 1)))]"
proof -
  have "w - r \<noteq> 0" using assms by simp
  then have "unat (w - r) = Suc (unat (w - r - 1))" by (simp add: unat_minus_one unat_gt_0)
  moreover have "w - r - 1 = w - 1 - r" by simp
  ultimately have "unat (w - r) = Suc (unat (w - 1 - r))" by simp
  moreover have "r + of_nat (unat (w - 1 - r)) = w - 1" by simp
  ultimately show ?thesis by (simp add: ring_bytes_def)
qed

lemma ring_split:
  assumes "unat (m - r) + unat (w - m) < 2 ^ 32"
  shows "ring_bytes k d r w = ring_bytes k d r m @ ring_bytes k d m w"
proof -
  have "w - r = (m - r) + (w - m)" by simp
  then have n: "unat (w - r) = unat (m - r) + unat (w - m)"
    using assms by (simp only: unat_word_ariths) (simp add: take_bit_nat_eq_self)
  have u: "[0..<x + y] = [0..<x] @ map (\<lambda>i. i + x) [0..<y]" for x y :: nat
    using upt_add_eq_append[of 0 x y] map_add_upt[of x y] by (simp add: add.commute)
  have "r + of_nat (i + unat (m - r)) = m + of_nat i" for i by simp
  then show ?thesis unfolding ring_bytes_def n u map_append map_map o_def by (simp add: add.commute)
qed

subsection \<open>The contract of a bounded byte queue\<close>

fun take_out :: "('q \<Rightarrow> uchar \<times> 'q) \<Rightarrow> nat \<Rightarrow> 'q \<Rightarrow> uchar list \<times> 'q" where
  "take_out get 0 q = ([], q)"
| "take_out get (Suc n) q = (let (b, q) = get q; (bs, q) = take_out get n q in (b # bs, q))"

locale byte_queue =
  fixes ok :: "'q \<Rightarrow> bool"
    and contents :: "'q \<Rightarrow> uchar list"
    and cap :: nat
    and put :: "uchar \<Rightarrow> 'q \<Rightarrow> 'q"
    and get :: "'q \<Rightarrow> uchar \<times> 'q"
  assumes put_last: "ok q \<Longrightarrow> length (contents q) < cap \<Longrightarrow> ok (put b q) \<and> contents (put b q) = contents q @ [b]"
    and get_first: "ok q \<Longrightarrow> contents q \<noteq> [] \<Longrightarrow>
      fst (get q) = hd (contents q) \<and> ok (snd (get q)) \<and> contents (snd (get q)) = tl (contents q)"
begin

lemma put_all:
  "ok q \<Longrightarrow> length (contents q) + length bs \<le> cap \<Longrightarrow> ok (fold put bs q) \<and> contents (fold put bs q) = contents q @ bs"
  by (induction bs arbitrary: q) (auto simp: put_last)

lemma get_all:
  "ok q \<Longrightarrow> n \<le> length (contents q) \<Longrightarrow>
   \<exists>q'. take_out get n q = (take n (contents q), q') \<and> ok q' \<and> contents q' = drop n (contents q)"
proof (induction n arbitrary: q)
  case (Suc n)
  then have ne: "contents q \<noteq> []" by auto
  obtain b p where g: "get q = (b, p)" by (cases "get q")
  with get_first[OF Suc.prems(1) ne] have p: "b = hd (contents q)" "ok p" "contents p = tl (contents q)" by auto
  have "n \<le> length (contents p)" using Suc.prems(2) p(3) by simp
  from Suc.IH[OF p(2) this] obtain q' where
    "take_out get n p = (take n (contents p), q')" "ok q'" "contents q' = drop n (contents p)" by blast
  then show ?case using g p ne by (cases "contents q") auto
qed simp

end

end
