(* ===== verification/Pipeinv.thy ===== *)
theory Pipeinv
  imports File Critical Ring
begin

text \<open>
  Pipes as streams.  The ring buffer of a pipe holds a list of at most 512 bytes; pipewrite appends to
  it and piperead takes from its front, whatever the free-running counters are, and either
  operation says exactly when it goes to sleep.
\<close>

subsection \<open>The contents of a pipe\<close>

definition pipe_bytes :: "pipe \<Rightarrow> uchar list" where
  "pipe_bytes q = ring_bytes 9 (p_data q) (nread q) (nwrite q)"

definition pipe_ok :: "pipe \<Rightarrow> bool" where
  "pipe_ok q \<longleftrightarrow> unat (nwrite q - nread q) \<le> 512"

definition pipe_get :: "pipe \<Rightarrow> uchar \<times> pipe" where
  "pipe_get q = (p_data q (pslot (nread q)), q\<lparr>nread := nread q + 1\<rparr>)"

lemma pslot_bit: "pslot i = unat (take_bit 9 i)"
  by (simp add: pslot_def PIPESIZE_def take_bit_eq_mod)

lemma pipe_bytes_length: "length (pipe_bytes q) = unat (nwrite q - nread q)"
  by (simp add: pipe_bytes_def)

lemma pipe_bytes_empty: "pipe_bytes q = [] \<longleftrightarrow> nread q = nwrite q"
  unfolding length_0_conv[symmetric] pipe_bytes_length unat_eq_0 right_minus_eq by (rule eq_commute)

lemma pipe_full_iff:
  assumes "pipe_ok q"
  shows "pipe_full q \<longleftrightarrow> length (pipe_bytes q) = 512"
proof -
  have "nwrite q = nread q + 512 \<longleftrightarrow> nwrite q - nread q = 512" by (auto simp: algebra_simps)
  also have "\<dots> \<longleftrightarrow> unat (nwrite q - nread q) = unat (512 :: uint)" by (simp only: unat_eq_iff)
  finally show ?thesis by (simp add: pipe_full_def PIPESIZE_def pipe_bytes_length)
qed

interpretation pq: byte_queue pipe_ok pipe_bytes 512 pipe_put pipe_get
proof
  fix q b
  assume q: "pipe_ok q" "length (pipe_bytes q) < 512"
  then have n: "unat (nwrite q - nread q) < 2 ^ 9" by (simp add: pipe_bytes_length)
  show "pipe_ok (pipe_put b q) \<and> pipe_bytes (pipe_put b q) = pipe_bytes q @ [b]"
    using ring_put[OF n, of "p_data q" b] unat_Suc_diff[OF n] n
    by (simp add: pipe_ok_def pipe_bytes_def pipe_put_def pslot_bit)
next
  fix q
  assume q: "pipe_ok q" "pipe_bytes q \<noteq> []"
  then have ne: "nread q \<noteq> nwrite q" by (simp add: pipe_bytes_empty)
  have "unat (nwrite q - (nread q + 1)) \<le> 512"
    using ring_get[OF ne, of 9 "p_data q"] q by (metis pipe_ok_def ring_bytes_length length_Cons Suc_leD)
  then show "fst (pipe_get q) = hd (pipe_bytes q) \<and> pipe_ok (snd (pipe_get q)) \<and> pipe_bytes (snd (pipe_get q)) = tl (pipe_bytes q)"
    using ring_get[OF ne, of 9 "p_data q"] by (simp add: pipe_get_def pipe_ok_def pipe_bytes_def pslot_bit)
qed

subsection \<open>The loops\<close>

lemma piperead_copy_takes:
  "pipe_ok q \<Longrightarrow> piperead_copy n q = take_out pipe_get (min n (length (pipe_bytes q))) q"
proof (induction n arbitrary: q)
  case (Suc n)
  show ?case
  proof (cases "nread q = nwrite q")
    case True
    then show ?thesis using pipe_bytes_empty[of q] by simp
  next
    case False
    then have ne: "pipe_bytes q \<noteq> []" by (simp add: pipe_bytes_empty)
    obtain b p where g: "pipe_get q = (b, p)" by (cases "pipe_get q")
    with pq.get_first[OF Suc.prems ne] have p: "pipe_ok p" "pipe_bytes p = tl (pipe_bytes q)" by auto
    have m: "min (Suc n) (length (pipe_bytes q)) = Suc (min n (length (pipe_bytes p)))" using ne p(2) by (cases "pipe_bytes q") auto
    show ?thesis unfolding m using Suc.IH[OF p(1)] g False by (simp add: pipe_get_def)
  qed
qed simp

lemma piperead_copy_bytes:
  assumes "pipe_ok q"
  obtains q' where "piperead_copy n q = (take n (pipe_bytes q), q')" "pipe_ok q'" "pipe_bytes q' = drop n (pipe_bytes q)"
proof -
  obtain q' where "take_out pipe_get (min n (length (pipe_bytes q))) q = (take (min n (length (pipe_bytes q))) (pipe_bytes q), q')"
    "pipe_ok q'" "pipe_bytes q' = drop (min n (length (pipe_bytes q))) (pipe_bytes q)"
    using pq.get_all[OF assms, of "min n (length (pipe_bytes q))"] by auto
  then show ?thesis using that[of q'] piperead_copy_takes[OF assms, of n] by (cases "n \<le> length (pipe_bytes q)") auto
qed

lemma set_pipe_sel [simp]:
  "pipes (set_pipe p g s) p = g (pipes s p)" "ptable (set_pipe p g s) = ptable s" "cpus (set_pipe p g s) = cpus s"
  "locks (set_pipe p g s) = locks s" "ftable (set_pipe p g s) = ftable s"
  by (simp_all add: set_pipe_def)

lemma set_pipe_comp: "set_pipe p g (set_pipe p f s) = set_pipe p (\<lambda>q. g (f q)) s" "set_pipe p (\<lambda>q. q) s = s" "set_pipe p id s = s"
  by (simp_all add: set_pipe_def)

text \<open>The writer fills the pipe as far as it goes, and then stands at the end of its bytes or at a full pipe.\<close>

lemma pipewrite_fills:
  assumes "pipe_ok (pipes s p)"
  shows "pipewrite_loop c p n bs s =
    (let k = min (length bs) (512 - length (pipe_bytes (pipes s p)))
     in pipewrite_loop c p n (drop k bs) (set_pipe p (fold pipe_put (take k bs)) s))"
  using assms
proof (induction bs arbitrary: s)
  case Nil
  then show ?case by (simp add: set_pipe_comp)
next
  case (Cons b bs)
  show ?case
  proof (cases "length (pipe_bytes (pipes s p)) < 512")
    case True
    have u: "pipe_ok (pipes (set_pipe p (pipe_put b) s) p)" "length (pipe_bytes (pipes (set_pipe p (pipe_put b) s) p)) = Suc (length (pipe_bytes (pipes s p)))"
      using pq.put_last[OF Cons.prems True] by simp_all
    have k: "min (length (b # bs)) (512 - length (pipe_bytes (pipes s p))) = Suc (min (length bs) (512 - Suc (length (pipe_bytes (pipes s p)))))"
      using True by auto
    have "pipewrite_loop c p n (b # bs) s = pipewrite_loop c p n bs (set_pipe p (pipe_put b) s)"
      using True pipe_full_iff[OF Cons.prems] by simp
    then show ?thesis unfolding k using Cons.IH[OF u(1)] u(2) by (simp add: Let_def set_pipe_comp o_def)
  next
    case False
    then show ?thesis by (simp add: set_pipe_comp)
  qed
qed

subsection \<open>Critical sections\<close>

lemma lockfree_set_pipe: "lockfree (set_pipe p g)"
  by (simp add: lockfree_def set_pipe_def)

lemma filest_more:
  fixes s t :: "'a filest_scheme"
  assumes "procst.more t = procst.more s"
  shows "pipes t = pipes s" "ftable t = ftable s"
  using assms by (cases s; cases t; simp)+

lemma pipes_acquired [simp]: "pipes (acquired c l s) = pipes s"
  by (simp add: acquired_upd)

lemma pipes_wakeup1 [simp]: "pipes (wakeup1 ch s) = pipes s"
  by (simp add: wakeup1_def)

lemma ready_set_pipe [simp]: "ready c pd s \<Longrightarrow> ready c pd (set_pipe p g s)"
  by (rule ready_cong) simp_all

text \<open>The end of pipewrite: all bytes are in, or the pipe is full.\<close>

lemma pipewrite_end:
  fixes s :: "'a filest_scheme"
  assumes r: "ready c pd s" and i: "cproc (cpus s c) = Some i" "i < length (ptable s)"
    and full: "bs \<noteq> [] \<Longrightarrow> pipe_full (pipes s p)"
  shows "\<exists>t res. pipewrite_loop c p n bs (acquired c (L_pipe p) s) = Inr (res, t) \<and> pipes t = pipes s \<and>
     res = (if bs = [] then P_done n
            else if readopen (pipes s p) \<and> \<not> killed (ptable s ! i) then P_asleep bs else P_done (-1))"
proof (cases bs)
  case Nil
  then show ?thesis using wakeup_acquired[OF r] release_ready[OF ready_updates(3)[OF r]] by simp
next
  case (Cons b bs')
  let ?a = "acquired c (L_pipe p) s"
  have f: "pipe_full (pipes s p)" using full Cons by simp
  note cur = curproc_acquired[OF r i(1), of "L_pipe p"] and rel = release_ready[OF r, of "L_pipe p"]
  show ?thesis
  proof (cases "readopen (pipes s p) \<and> \<not> killed (ptable s ! i)")
    case True
    have r': "ready c pd (wakeup1 (Ch_nread p) s)" using r by simp
    have i': "cproc (cpus (wakeup1 (Ch_nread p) s) c) = Some i" "i < length (ptable (wakeup1 (Ch_nread p) s))"
      using i by (simp_all add: wakeup1_def)
    obtain t where t: "sleep c (Ch_nwrite p) (Some (L_pipe p)) (acquired c (L_pipe p) (wakeup1 (Ch_nread p) s)) = Inr t"
      "procst.more t = procst.more (wakeup1 (Ch_nread p) s)"
      by (rule sleep_acquired[OF r' i', of "L_pipe p" "Ch_nwrite p"]) simp
    then show ?thesis using f cur True wakeup_acquired[OF r] filest_more(1)[OF t(2)] by (simp add: Cons)
  next
    case False
    then show ?thesis using f cur rel by (auto simp: Cons)
  qed
qed

text \<open>A machine with an empty pipe whose counters are about to wrap.\<close>

definition demo_pipes :: filest where
  "demo_pipes = \<lparr>ncpu = 2, cpus = (\<lambda>_. demo_cpu\<lparr>cproc := Some 0, intena := True\<rparr>), locks = locks demo_locks, mem = (\<lambda>_. 0),
     kfreelist = 0, use_lock = True, kend = 0x80123450, kpgdir = 0x80300000, kdata = 0x80110000,
     ptable = [demo_proc], nextpid = 2, initproc = Some 0, ticks = 0, forkret_first = False,
     panicked = False, cons_locking = True, uart = True, uartout = [], crt = (\<lambda>_. 0), crtpos = 0,
     inbuf = (\<lambda>_. 0), inr = 0, inw = 0, ine = 0, kbdshift = 0,
     slocks = (\<lambda>_. \<lparr>slk_locked = False, slk_name = [], slk_pid = 0\<rparr>),
     bufs = (\<lambda>_. \<lparr>flags = 0, dev = 0, blockno = 0, refcnt = 0, bprev = 0, bnext = 0, bdata = (\<lambda>_. 0)\<rparr>),
     disk = (\<lambda>_ _. 0), disksize = 1000, dwrites = [],
     log_start = 2, log_size = 30, outstanding = 0, committing = False, log_dev = 1, lh_n = 0, lh_block = (\<lambda>_. 0),
     sb = sb_of (\<lambda>_. 0), icache = [], devsw_read = (\<lambda>_. None), devsw_write = (\<lambda>_. None), ftable = [],
     pipes = (\<lambda>_. \<lparr>p_data = (\<lambda>_. 0), nread = 0xFFFFFFFF, nwrite = 0xFFFFFFFF, readopen = True, writeopen = True\<rparr>)\<rparr>"

lemma demo_pipes_ready: "ready 0 1 demo_pipes" "cproc (cpus demo_pipes 0) = Some 0"
  by (auto simp: ready_def demo_pipes_def quiet_def lock_free_def demo_locks_def demo_cpu_def touch_def set_cpu_def demo_proc_def)

lemma demo_pipes_empty: "pipe_ok (pipes demo_pipes p)" "pipe_bytes (pipes demo_pipes p) = []" "writeopen (pipes demo_pipes p)"
  by (simp_all add: demo_pipes_def pipe_ok_def pipe_bytes_def)

text \<open>C23: Writing to a pipe appends to its byte stream.  From any state of the counters, pipewrite puts the longest
  prefix of its bytes that fits into the 512-byte ring behind the bytes already there, without touching those.  It
  returns \<open>n\<close> when all bytes fitted, goes to sleep with exactly the other bytes still to write when a reader
  may yet come, and returns -1 when the read end is closed or the process was killed.\<close>

theorem pipewrite_appends:
  fixes s :: "'a filest_scheme"
  assumes "ready c pd s" "cproc (cpus s c) = Some i" "pipe_ok (pipes s p)" "n = int (length bs)"
  defines "room \<equiv> 512 - length (pipe_bytes (pipes s p))"
  shows "\<exists>t res. pipewrite c p bs n s = Inr (res, t) \<and> pipe_ok (pipes t p) \<and>
     pipe_bytes (pipes t p) = pipe_bytes (pipes s p) @ take room bs \<and>
     res = (if length bs \<le> room then P_done n
            else if readopen (pipes s p) \<and> \<not> killed (ptable s ! i) then P_asleep (drop room bs) else P_done (-1))"
proof -
  let ?k = "min (length bs) room" and ?u = "set_pipe p (fold pipe_put (take (min (length bs) room) bs)) s"
  have i: "i < length (ptable s)" using assms(1,2) by (auto simp: ready_def)
  have le: "length (pipe_bytes (pipes s p)) \<le> 512" using assms(3) by (simp add: pipe_ok_def pipe_bytes_length)
  from le have fit: "length (pipe_bytes (pipes s p)) + length (take ?k bs) \<le> 512" by (simp add: room_def)
  note u = pq.put_all[OF assms(3) fit]
  have "drop ?k bs = [] \<or> length (pipe_bytes (pipes ?u p)) = 512" using u le by (auto simp: room_def)
  then have full: "pipe_full (pipes ?u p)" if "drop ?k bs \<noteq> []" using that u pipe_full_iff[of "pipes ?u p"] by auto
  have e: "pipewrite c p bs n s = pipewrite_loop c p n (drop ?k bs) (acquired c (L_pipe p) ?u)"
    using acquire_section[OF ready_steady[OF assms(1)] ready_free[OF assms(1)]] assms(4)
      pipewrite_fills[of "acquired c (L_pipe p) s" p c n bs] assms(3)
    by (simp add: pipewrite_def room_def Let_def lockfree_acquired[OF lockfree_set_pipe])
  obtain t res where t: "pipewrite_loop c p n (drop ?k bs) (acquired c (L_pipe p) ?u) = Inr (res, t)" "pipes t = pipes ?u"
    "res = (if drop ?k bs = [] then P_done n
            else if readopen (pipes ?u p) \<and> \<not> killed (ptable ?u ! i) then P_asleep (drop ?k bs) else P_done (-1))"
    using pipewrite_end[of c pd ?u i "drop ?k bs" p n] assms(1,2) i full by auto
  have ro: "readopen (fold pipe_put xs q) = readopen q" for xs q by (induction xs arbitrary: q) (simp_all add: pipe_put_def)
  have k: "take ?k bs = take room bs" "drop ?k bs = drop room bs" by (auto simp: min_def)
  show ?thesis unfolding e using t u ro by (auto simp: k)
qed

theorem pipewrite_appends_witness:
  "\<exists>t. pipewrite 0 4096 [104, 105] 2 demo_pipes = Inr (P_done 2, t) \<and> pipe_bytes (pipes t 4096) = [104, 105]"
  using pipewrite_appends[OF demo_pipes_ready demo_pipes_empty(1), of 2 "[104, 105]" 4096] by (auto simp: demo_pipes_empty(2))

text \<open>C24: Reading from a pipe takes from the front of its byte stream.  When the pipe is empty and its write end open,
  piperead goes to sleep (or returns -1 in a killed process) and takes nothing; otherwise it delivers the first \<open>n\<close>
  bytes, or all there are, in the order they were written, leaves exactly the others, and returns their number, which
  is 0 at the end of the stream.\<close>

theorem piperead_takes:
  fixes s :: "'a filest_scheme"
  assumes "ready c pd s" "cproc (cpus s c) = Some i" "pipe_ok (pipes s p)" "0 \<le> n"
  shows "\<exists>t res. piperead c p n s = Inr (res, t) \<and> pipe_ok (pipes t p) \<and>
     (if pipe_bytes (pipes s p) = [] \<and> writeopen (pipes s p)
      then pipes t = pipes s \<and> res = (if killed (ptable s ! i) then P_done (-1, []) else P_asleep [])
      else pipe_bytes (pipes t p) = drop (nat n) (pipe_bytes (pipes s p)) \<and>
           res = P_done (min n (int (length (pipe_bytes (pipes s p)))), take (nat n) (pipe_bytes (pipes s p))))"
proof -
  let ?a = "acquired c (L_pipe p) s"
  have i: "i < length (ptable s)" using assms(1,2) by (auto simp: ready_def)
  have e: "piperead c p n s = piperead_locked c p n ?a"
    using acquire_section[OF ready_steady[OF assms(1)] ready_free[OF assms(1)]] by (simp add: piperead_def)
  note cur = curproc_acquired[OF assms(1,2), of "L_pipe p"]
  show ?thesis
  proof (cases "pipe_bytes (pipes s p) = [] \<and> writeopen (pipes s p)")
    case True
    obtain t where "sleep c (Ch_nread p) (Some (L_pipe p)) ?a = Inr t" "procst.more t = procst.more s"
      by (rule sleep_acquired[OF assms(1,2) i, of "L_pipe p" "Ch_nread p"]) simp
    then show ?thesis using True cur release_ready[OF assms(1), of "L_pipe p"] filest_more(1)[of t s] assms(3)
      by (auto simp: e piperead_locked_def pipe_bytes_empty)
  next
    case False
    obtain q' where q': "piperead_copy (nat n) (pipes s p) = (take (nat n) (pipe_bytes (pipes s p)), q')" "pipe_ok q'"
      "pipe_bytes q' = drop (nat n) (pipe_bytes (pipes s p))" by (rule piperead_copy_bytes[OF assms(3)])
    let ?u = "set_pipe p (\<lambda>_. q') s"
    have r: "ready c pd ?u" using assms(1) by simp
    have "wakeup c (Ch_nwrite p) (acquired c (L_pipe p) ?u) = Inr (acquired c (L_pipe p) (wakeup1 (Ch_nwrite p) ?u))"
      by (rule wakeup_acquired[OF r]) simp
    moreover have "release c (L_pipe p) (acquired c (L_pipe p) (wakeup1 (Ch_nwrite p) ?u)) = Inr (wakeup1 (Ch_nwrite p) ?u)"
      by (rule release_ready[OF ready_updates(3)[OF r]])
    moreover have "set_pipe p (\<lambda>_. q') ?a = acquired c (L_pipe p) ?u" by (rule lockfree_acquired[OF lockfree_set_pipe])
    moreover have "\<not> (nread (pipes s p) = nwrite (pipes s p) \<and> writeopen (pipes s p))"
      using False pipe_bytes_empty[of "pipes s p"] by blast
    ultimately have "piperead c p n s =
        Inr (P_done (int (length (take (nat n) (pipe_bytes (pipes s p)))), take (nat n) (pipe_bytes (pipes s p))), wakeup1 (Ch_nwrite p) ?u)"
      using q'(1) by (auto simp: e piperead_locked_def simp del: length_take)
    moreover have "int (length (take (nat n) (pipe_bytes (pipes s p)))) = min n (int (length (pipe_bytes (pipes s p))))"
      using assms(4) by auto
    ultimately show ?thesis using q'(2,3) unfolding if_not_P[OF False] by simp
  qed
qed

theorem piperead_takes_witness:
  "\<exists>t res. piperead 0 4096 5 (demo_pipes\<lparr>pipes := (pipes demo_pipes)(4096 := pipe_put 105 (pipe_put 104 (pipes demo_pipes 4096)))\<rparr>) = Inr (res, t) \<and>
     res = P_done (2, [104, 105])"
proof -
  let ?s = "demo_pipes\<lparr>pipes := (pipes demo_pipes)(4096 := pipe_put 105 (pipe_put 104 (pipes demo_pipes 4096)))\<rparr>"
  have r: "ready 0 1 ?s" by (rule ready_cong[OF demo_pipes_ready(1)]) simp_all
  have c: "cproc (cpus ?s 0) = Some 0" using demo_pipes_ready(2) by simp
  have "pipe_ok (fold pipe_put [104, 105] (pipes demo_pipes 4096)) \<and>
    pipe_bytes (fold pipe_put [104, 105] (pipes demo_pipes 4096)) = pipe_bytes (pipes demo_pipes 4096) @ [104, 105]"
    by (rule pq.put_all[OF demo_pipes_empty(1)]) (simp add: demo_pipes_empty(2))
  then have q: "pipe_ok (pipes ?s 4096)" "pipe_bytes (pipes ?s 4096) = [104, 105]" by (simp_all add: demo_pipes_empty(2))
  show ?thesis using piperead_takes[OF r c q(1), of 5] q(2) by auto
qed

end
