(* ===== verification/Consinv.thy ===== *)
theory Consinv
  imports Fs Bioinv Ring
begin

text \<open>
  The console: its output never leaves the screen, and its input buffer is a line editor.  The
  ring buffer between the counters \<open>r\<close> and \<open>w\<close> holds the bytes a reader may take, and between \<open>w\<close>
  and \<open>e\<close> the line being edited.
\<close>

subsection \<open>Output\<close>

definition cursor_ok :: "'a consst_scheme \<Rightarrow> bool" where
  "cursor_ok s \<longleftrightarrow> 0 \<le> crtpos s \<and> crtpos s \<le> 24 * 80"

text \<open>The bytes the serial line gets for one character.\<close>

definition serial :: "int \<Rightarrow> uchar list" where
  "serial ch = (if ch = BACKSPACE then [8, 32, 8] else [word_of_int ch])"

definition printed :: "int list \<Rightarrow> 'a consst_scheme \<Rightarrow> 'a consst_scheme \<Rightarrow> bool" where
  "printed chs s t \<longleftrightarrow> (\<exists>d p. 0 \<le> p \<and> p \<le> 24 * 80 \<and> (\<forall>i \<ge> 25 * 80. d i = crt s i) \<and>
     t = s\<lparr>uartout := (if uart s then uartout s @ concat (map serial chs) else uartout s), crt := d, crtpos := p\<rparr>)"

lemma crt_upds:
  "crt (s\<lparr>crt := m\<rparr>) = m" "crt (s\<lparr>crt := m, crt := d\<rparr>) = d" "crtpos (s\<lparr>crt := m\<rparr>) = crtpos s"
  "s\<lparr>crt := m, crtpos := p, crt := d\<rparr> = s\<lparr>crt := d, crtpos := p\<rparr>"
  "s\<lparr>crt := m, crt := d\<rparr> = s\<lparr>crt := d\<rparr>" "s\<lparr>crt := m, crt := e, crtpos := p, crt := d\<rparr> = s\<lparr>crt := d, crtpos := p\<rparr>"
  by (cases s; simp)+

lemma cgaputc_ok:
  assumes "cursor_ok s"
  obtains p d where "0 \<le> p" "p \<le> 24 * 80" "\<forall>i \<ge> 25 * 80. d i = crt s i"
    "cgaputc ch s = Inr (s\<lparr>crt := d, crtpos := p\<rparr>)"
proof -
  define pos where "pos = (if ch = 10 then crtpos s + (80 - crtpos s mod 80) else if ch = BACKSPACE then
    (if crtpos s > 0 then crtpos s - 1 else crtpos s) else crtpos s + 1)"
  define m where "m = (if ch = 10 \<or> ch = BACKSPACE then crt s else (crt s)(nat (crtpos s) := (word_of_int ch AND 0xff) OR 0x0700))"
  have c: "0 \<le> crtpos s" "crtpos s \<le> 1920" using assms by (auto simp: cursor_ok_def)
  have m: "m i = crt s i" if "i \<ge> 2000" for i using that c by (auto simp: m_def)
  have "0 \<le> crtpos s mod 80" "crtpos s mod 80 < 80" by simp_all
  moreover have "crtpos s + (80 - crtpos s mod 80) \<le> 2000" using c by presburger
  ultimately have p: "0 \<le> pos" "pos \<le> 2000" using c by (auto simp: pos_def)
  have pm: "(if ch = 10 then (crtpos s + (80 - crtpos s mod 80), s)
             else if ch = BACKSPACE then (if crtpos s > 0 then crtpos s - 1 else crtpos s, s)
             else (crtpos s + 1, s\<lparr>crt := (crt s)(nat (crtpos s) := (word_of_int ch AND 0xff) OR 0x0700)\<rparr>)) = (pos, s\<lparr>crt := m\<rparr>)"
    by (simp add: pos_def m_def)
  have no: "(pos < 0 \<or> pos > 25 * 80) = False" using p by simp
  show ?thesis
  proof (cases "pos div 80 \<ge> 24")
    case True
    then have "1920 \<le> pos" by linarith
    then have w: "(pos - 80) mod 65536 = pos - 80" using p by simp
    let ?d = "(\<lambda>i. if nat (pos - 80) \<le> i \<and> i < 24 * 80 then 0 else if i < 23 * 80 then m (i + 80) else m i)(nat (pos - 80) := 0x0720)"
    have e: "cgaputc ch s = Inr (s\<lparr>crt := ?d, crtpos := pos - 80\<rparr>)"
      using w True unfolding cgaputc_def Let_def pm
      by (simp only: prod.case no if_False if_True w simp_thms crt_upds)
    show ?thesis by (rule that[OF _ _ _ e]) (use p \<open>1920 \<le> pos\<close> m in auto)
  next
    case False
    then have "pos < 1920" by linarith
    then have w: "pos mod 65536 = pos" using p by simp
    have e: "cgaputc ch s = Inr (s\<lparr>crt := m(nat pos := 0x0720), crtpos := pos\<rparr>)"
      using w False unfolding cgaputc_def Let_def pm by (simp only: prod.case no if_False w simp_thms crt_upds)
    show ?thesis by (rule that[OF _ _ _ e]) (use p \<open>pos < 1920\<close> m in auto)
  qed
qed

lemma consputc_ok:
  assumes "cursor_ok s" "\<not> panicked s"
  obtains t where "consputc ch s = Inr t" "printed [ch] s t"
proof -
  let ?u = "s\<lparr>uartout := (if uart s then uartout s @ serial ch else uartout s)\<rparr>"
  have u: "(if ch = BACKSPACE then uartputc 8 (uartputc 32 (uartputc 8 s)) else uartputc ch s) = ?u"
    by (simp add: uartputc_def serial_def)
  have "cursor_ok ?u" using assms(1) by (simp add: cursor_ok_def)
  then obtain p d where d: "0 \<le> p" "p \<le> 24 * 80" "\<forall>i \<ge> 25 * 80. d i = crt ?u i" "cgaputc ch ?u = Inr (?u\<lparr>crt := d, crtpos := p\<rparr>)"
    by (rule cgaputc_ok[where ch = ch])
  have "consputc ch s = Inr (?u\<lparr>crt := d, crtpos := p\<rparr>)" using assms(2) d(4) unfolding consputc_def u Let_def by simp
  then show ?thesis by (rule that) (use d in \<open>auto simp: printed_def\<close>)
qed

lemma printedD:
  assumes "printed chs s t"
  shows "cursor_ok t" "panicked t = panicked s" "uart t = uart s" "procst.truncate t = procst.truncate s" "cpus t = cpus s" "locks t = locks s"
    "ptable t = ptable s" "inbuf t = inbuf s" "inr t = inr s" "inw t = inw s" "ine t = ine s" "i \<ge> 25 * 80 \<Longrightarrow> crt t i = crt s i"
  using assms by (auto simp: printed_def cursor_ok_def procst.defs)

lemma printed_trans: "printed xs s t \<Longrightarrow> printed ys t u \<Longrightarrow> printed (xs @ ys) s u"
  unfolding printed_def by auto blast+

lemma printed_nil: "cursor_ok s \<Longrightarrow> printed [] s s"
  unfolding printed_def cursor_ok_def by (intro exI[of _ "crt s"] exI[of _ "crtpos s"]) simp

lemma consputs_ok:
  assumes "cursor_ok s" "\<not> panicked s"
  shows "\<exists>t. consputs chs s = Inr t \<and> printed chs s t"
  using assms
proof (induction chs arbitrary: s)
  case Nil
  then show ?case by (simp add: printed_nil)
next
  case (Cons ch chs)
  obtain u where u: "consputc ch s = Inr u" "printed [ch] s u" by (rule consputc_ok[OF Cons.prems])
  obtain t where "consputs chs u = Inr t" "printed chs u t" using Cons.IH[of u] printedD[OF u(2)] Cons.prems by auto
  then show ?case using u printed_trans[OF u(2), of chs t] by simp
qed

text \<open>C22: Console output stays on the screen.  From any cursor position on the 25 lines of 80 cells up to the start of the
  last line, printing any sequence of characters (newlines, backspaces and anything else) never runs into the panic
  on the cursor position, leaves the cursor in the same range, and changes no memory behind the 2000 cells of the
  screen; the serial line gets exactly the characters, with backspace, space, backspace for an erased one.\<close>

theorem consputs_on_screen:
  assumes "0 \<le> crtpos s" "crtpos s \<le> 24 * 80" "\<not> panicked s"
  shows "\<exists>t. consputs chs s = Inr t \<and> 0 \<le> crtpos t \<and> crtpos t \<le> 24 * 80 \<and> (\<forall>i \<ge> 25 * 80. crt t i = crt s i) \<and>
     uartout t = (if uart s then uartout s @ concat (map serial chs) else uartout s)"
proof -
  have "cursor_ok s" using assms(1,2) by (simp add: cursor_ok_def)
  then obtain t where t: "consputs chs s = Inr t" "printed chs s t" using consputs_ok assms(3) by blast
  then show ?thesis using printedD(1,12)[OF t(2)] by (auto simp: cursor_ok_def printed_def)
qed

subsection \<open>Input\<close>

definition cons_line :: "'a consst_scheme \<Rightarrow> uchar list" where
  "cons_line s = ring_bytes 7 (inbuf s) (inw s) (ine s)"

definition cons_avail :: "'a consst_scheme \<Rightarrow> uchar list" where
  "cons_avail s = ring_bytes 7 (inbuf s) (inr s) (inw s)"

definition cons_ok :: "'a consst_scheme \<Rightarrow> bool" where
  "cons_ok s \<longleftrightarrow> length (cons_avail s) + length (cons_line s) \<le> 128 \<and> 10 \<notin> set (cons_line s)"

text \<open>The line editor: the bytes for the reader and the line being edited.\<close>

fun edit :: "int \<Rightarrow> uchar list \<times> uchar list \<Rightarrow> uchar list \<times> uchar list" where
  "edit ch (a, l) =
     (if ch = 21 then (a, [])
      else if ch = 8 \<or> ch = 127 then (a, butlast l)
      else if ch \<noteq> 0 \<and> length a + length l < 128
      then let l = l @ [if ch = 13 then 10 else word_of_int ch]
           in if ch \<in> {10, 13, 4} \<or> length a + length l = 128 then (a @ l, []) else (a, l)
      else (a, l))"

lemma inslot_bit: "inslot i = unat (take_bit 7 i)"
  by (simp add: inslot_def INPUT_BUF_def take_bit_eq_mod)

lemma cons_printed:
  assumes "printed chs s t"
  shows "cons_line t = cons_line s" "cons_avail t = cons_avail s" "cons_ok t = cons_ok s"
  using printedD[OF assms] by (simp_all add: cons_line_def cons_avail_def cons_ok_def)

lemma cons_total:
  assumes "length (cons_avail s) + length (cons_line s) \<le> 128"
  shows "unat (ine s - inr s) = length (cons_avail s) + length (cons_line s)"
    "cons_avail s @ cons_line s = ring_bytes 7 (inbuf s) (inr s) (ine s)"
proof -
  have "unat (inw s - inr s) + unat (ine s - inw s) < 2 ^ 32" using assms by (simp add: cons_avail_def cons_line_def)
  note r = ring_split[OF this, of 7 "inbuf s"]
  then show "cons_avail s @ cons_line s = ring_bytes 7 (inbuf s) (inr s) (ine s)" by (simp add: cons_avail_def cons_line_def)
  from r show "unat (ine s - inr s) = length (cons_avail s) + length (cons_line s)"
    by (metis cons_avail_def cons_line_def length_append ring_bytes_length)
qed

text \<open>Erasing the last byte of the line, the common step of backspace and kill line.\<close>

lemma cons_erase:
  assumes "cons_ok s" "ine s \<noteq> inw s"
  defines "u \<equiv> s\<lparr>ine := ine s - 1\<rparr>"
  shows "cons_ok u" "cons_line u = butlast (cons_line s)" "cons_avail u = cons_avail s" "length (cons_line s) = Suc (length (cons_line u))"
proof -
  have l: "cons_line s = cons_line u @ [inbuf s (inslot (ine s - 1))]"
    using ring_unput[of "inw s" "ine s" 7 "inbuf s"] assms(2) by (simp add: cons_line_def u_def inslot_bit)
  then show "cons_line u = butlast (cons_line s)" "length (cons_line s) = Suc (length (cons_line u))" by simp_all
  show a: "cons_avail u = cons_avail s" by (simp add: cons_avail_def u_def)
  show "cons_ok u" using assms(1) l by (simp add: cons_ok_def a)
qed

definition cons_inv :: "nat \<Rightarrow> 'b procst_scheme \<Rightarrow> 'a consst_scheme \<Rightarrow> bool" where
  "cons_inv c a s \<longleftrightarrow> cpus s = cpus a \<and> locks s = locks a \<and> map pid (ptable s) = map pid (ptable a) \<and> steady c s \<and> lock_free L_ptable s \<and> \<not> panicked s \<and> cursor_ok s \<and> cons_ok s"

lemma cons_inv_printed: "cons_inv c a s \<Longrightarrow> printed chs s t \<Longrightarrow> cons_inv c a t"
  using printedD[of chs s t] cons_printed[of chs s t] steady_cong[of t s c] by (auto simp: cons_inv_def lock_free_def)

lemma cons_erase_step:
  assumes "cons_inv c a s" "ine s \<noteq> inw s"
  obtains t where "consputc BACKSPACE (s\<lparr>ine := ine s - 1\<rparr>) = Inr t" "cons_inv c a t" "printed [BACKSPACE] (s\<lparr>ine := ine s - 1\<rparr>) t"
    "cons_avail t = cons_avail s" "cons_line t = butlast (cons_line s)"
proof -
  let ?u = "s\<lparr>ine := ine s - 1\<rparr>"
  have ok: "cons_ok s" using assms(1) by (simp add: cons_inv_def)
  note e = cons_erase[OF ok assms(2)]
  have "cursor_ok ?u" "\<not> panicked ?u" using assms(1) by (simp_all add: cons_inv_def cursor_ok_def)
  then obtain t where t: "consputc BACKSPACE ?u = Inr t" "printed [BACKSPACE] ?u t" by (rule consputc_ok)
  have "cons_inv c a ?u" using assms(1) e(1) steady_cong[of ?u s c] by (auto simp: cons_inv_def cursor_ok_def lock_free_def)
  from cons_inv_printed[OF this t(2)] show ?thesis
    using that[OF t(1) _ t(2)] cons_printed[OF t(2)] e(2,3) by simp
qed

lemma kill_line_clears:
  assumes "cons_inv c a s" "length (cons_line s) \<le> n"
  shows "\<exists>t. kill_line n s = Inr t \<and> cons_inv c a t \<and> cons_avail t = cons_avail s \<and> cons_line t = []"
  using assms
proof (induction n arbitrary: s)
  case 0
  then have "ine s = inw s" using ring_unput[of "inw s" "ine s" 7 "inbuf s"] by (fastforce simp: cons_line_def)
  then show ?case using 0 by (subst kill_line.simps) (simp add: cons_line_def)
next
  case (Suc n)
  show ?case
  proof (cases "ine s = inw s")
    case True
    then show ?thesis using Suc.prems by (subst kill_line.simps) (simp add: cons_line_def)
  next
    case False
    have "cons_line s = ring_bytes 7 (inbuf s) (inw s) (ine s - 1) @ [inbuf s (inslot (ine s - 1))]"
      using ring_unput[of "inw s" "ine s" 7 "inbuf s"] False by (simp add: cons_line_def inslot_bit)
    then have nl: "inbuf s (inslot (ine s - 1)) \<noteq> 10" using Suc.prems(1) by (auto simp: cons_inv_def cons_ok_def)
    obtain u where u: "consputc BACKSPACE (s\<lparr>ine := ine s - 1\<rparr>) = Inr u" "cons_inv c a u"
      "printed [BACKSPACE] (s\<lparr>ine := ine s - 1\<rparr>) u" "cons_avail u = cons_avail s" "cons_line u = butlast (cons_line s)"
      by (rule cons_erase_step[OF Suc.prems(1) False])
    then have "length (cons_line u) \<le> n" using Suc.prems(2) by simp
    from Suc.IH[OF u(2) this] obtain t where "kill_line n u = Inr t" "cons_inv c a t" "cons_avail t = cons_avail u" "cons_line t = []" by blast
    then show ?thesis using u(1,4) False nl by (subst kill_line.simps) simp
  qed
qed

lemma cons_put:
  fixes x :: uchar and s :: "'a consst_scheme"
  assumes room: "length (cons_avail s) + length (cons_line s) < 128"
  defines "u \<equiv> s\<lparr>inbuf := (inbuf s)(inslot (ine s) := x), ine := ine s + 1\<rparr>"
  shows "cons_avail u = cons_avail s" "cons_line u = cons_line s @ [x]"
    "unat (ine u - inr u) = Suc (length (cons_avail s) + length (cons_line s))"
proof -
  have n: "unat (ine s - inr s) < 2 ^ 7" using cons_total(1)[OF less_imp_le[OF room]] room by simp
  note p = ring_put[OF n, of "inbuf s" x] unat_Suc_diff[OF n]
  have lw: "unat (inw s - inr s) + unat (ine s - inw s) < 2 ^ 7" using room by (simp add: cons_avail_def cons_line_def)
  then have lw': "unat (ine s - inw s) < 2 ^ 7" by simp
  have e: "unat (ine s + 1 - inw s) = Suc (unat (ine s - inw s))" by (rule unat_Suc_diff[OF lw']) simp
  have "unat (inw s - inr s) + unat (ine s + 1 - inw s) < 2 ^ 32" using lw e by simp
  from ring_split[OF this, of 7 "inbuf u"] p(1)
  have "cons_avail u @ cons_line u = (cons_avail s @ cons_line s) @ [x]"
    using cons_total(2)[OF less_imp_le[OF room]] by (simp add: u_def cons_avail_def cons_line_def inslot_bit)
  moreover have "length (cons_avail u) = length (cons_avail s)" by (simp add: cons_avail_def u_def)
  ultimately show "cons_avail u = cons_avail s" "cons_line u = cons_line s @ [x]" by (simp_all add: append_eq_append_conv)
  show "unat (ine u - inr u) = Suc (length (cons_avail s) + length (cons_line s))"
    using p(2) cons_total(1)[OF less_imp_le[OF room]] by (simp add: u_def)
qed

lemma byte_of_int: "0 \<le> ch \<Longrightarrow> ch < 256 \<Longrightarrow> (word_of_int ch :: uchar) = 10 \<longleftrightarrow> ch = 10"
proof -
  assume "0 \<le> ch" "ch < 256"
  then have "uint (word_of_int ch :: uchar) = ch" by (simp add: unsigned_of_int take_bit_int_eq_self)
  then show ?thesis by auto
qed

lemma commit_line:
  assumes "steady c t" "lock_free L_ptable t" "\<not> panicked t" "cursor_ok t" "length (cons_avail t) + length (cons_line t) \<le> 128"
    "cpus t = cpus a" "locks t = locks a" "map pid (ptable t) = map pid (ptable a)"
  obtains u where "wakeup c Ch_input (t\<lparr>inw := ine t\<rparr>) = Inr u" "cons_inv c a u"
    "cons_avail u = cons_avail t @ cons_line t" "cons_line u = []"
proof -
  let ?u = "t\<lparr>inw := ine t\<rparr>"
  have st: "steady c ?u" "lock_free L_ptable ?u" using assms steady_cong[of ?u t c] by (auto simp: lock_free_def)
  then have e: "wakeup c Ch_input ?u = Inr (wakeup1 Ch_input ?u)" by (rule wakeup_steady)
  have w: "inbuf (wakeup1 Ch_input ?u) = inbuf t" "inr (wakeup1 Ch_input ?u) = inr t" "inw (wakeup1 Ch_input ?u) = ine t"
    "ine (wakeup1 Ch_input ?u) = ine t" "panicked (wakeup1 Ch_input ?u) = panicked t" "crtpos (wakeup1 Ch_input ?u) = crtpos t"
    "cpus (wakeup1 Ch_input ?u) = cpus t" "locks (wakeup1 Ch_input ?u) = locks t"
    "map pid (ptable (wakeup1 Ch_input ?u)) = map pid (ptable t)"
    by (simp_all add: wakeup1_def)
  then have al: "cons_avail (wakeup1 Ch_input ?u) = cons_avail t @ cons_line t" "cons_line (wakeup1 Ch_input ?u) = []"
    using cons_total(2)[OF assms(5)] by (simp_all add: cons_avail_def cons_line_def)
  have "cons_inv c a (wakeup1 Ch_input ?u)" using assms st steady_cong[of "wakeup1 Ch_input ?u" ?u c]
    by (auto simp: cons_inv_def cons_ok_def al cursor_ok_def w lock_free_def)
  with e al show ?thesis by (intro that)
qed

lemma console_char_edits:
  assumes "cons_inv c a s" "0 \<le> ch" "ch < 256"
  shows "\<exists>t. console_char c ch s = Inr t \<and> cons_inv c a t \<and> (cons_avail t, cons_line t) = edit ch (cons_avail s, cons_line s)"
proof -
  have ok: "cons_ok s" using assms(1) by (simp add: cons_inv_def)
  have le: "length (cons_avail s) + length (cons_line s) \<le> 128" using ok by (simp add: cons_ok_def)
  have tot: "ine s - inr s < INPUT_BUF \<longleftrightarrow> length (cons_avail s) + length (cons_line s) < 128"
    using cons_total(1)[OF le] by (simp add: INPUT_BUF_def word_less_nat_alt)
  have empty: "ine s = inw s \<Longrightarrow> cons_line s = []" by (simp add: cons_line_def)
  consider "ch = 21" | "ch = 8 \<or> ch = 127" | "ch \<notin> {21, 8, 127}" "ch = 0 \<or> \<not> ine s - inr s < INPUT_BUF"
    | "ch \<notin> {21, 8, 127, 0}" "ine s - inr s < INPUT_BUF" by auto
  then show ?thesis
  proof cases
    case 1
    have "length (cons_line s) \<le> kill_fuel" using ok by (simp add: cons_ok_def kill_fuel_def)
    from kill_line_clears[OF assms(1) this] show ?thesis using 1 by (auto simp: console_char_def)
  next
    case 2
    show ?thesis
    proof (cases "ine s = inw s")
      case True
      then show ?thesis using 2 assms(1) empty by (auto simp: console_char_def)
    next
      case False
      obtain t where "consputc BACKSPACE (s\<lparr>ine := ine s - 1\<rparr>) = Inr t" "cons_inv c a t" "printed [BACKSPACE] (s\<lparr>ine := ine s - 1\<rparr>) t"
        "cons_avail t = cons_avail s" "cons_line t = butlast (cons_line s)" by (rule cons_erase_step[OF assms(1) False])
      then show ?thesis using 2 False by (auto simp: console_char_def)
    qed
  next
    case 3
    then show ?thesis using assms(1) tot by (auto simp: console_char_def)
  next
    case 4
    define d where "d = (if ch = 13 then 10 else ch)"
    let ?u = "s\<lparr>inbuf := (inbuf s)(inslot (ine s) := word_of_int d), ine := ine s + 1\<rparr>"
    have room: "length (cons_avail s) + length (cons_line s) < 128" using 4(2) tot by simp
    note u = cons_put[OF room, of "word_of_int d"]
    have "cursor_ok ?u" "\<not> panicked ?u" using assms(1) by (simp_all add: cons_inv_def cursor_ok_def)
    then obtain t where t: "consputc d ?u = Inr t" "printed [d] ?u t" by (rule consputc_ok)
    note p = printedD[OF t(2)] cons_printed[OF t(2)]
    have full: "ine t = inr t + INPUT_BUF \<longleftrightarrow> Suc (length (cons_avail s) + length (cons_line s)) = 128"
    proof -
      have "ine t = inr t + INPUT_BUF \<longleftrightarrow> ine t - inr t = 128" by (auto simp: INPUT_BUF_def algebra_simps)
      also have "\<dots> \<longleftrightarrow> unat (ine t - inr t) = unat (128 :: uint)" by (simp only: unat_eq_iff)
      finally show ?thesis using u(3) p by simp
    qed
    have cc: "console_char c ch s = (if d = 10 \<or> d = 4 \<or> ine t = inr t + INPUT_BUF then wakeup c Ch_input (t\<lparr>inw := ine t\<rparr>) else Inr t)"
      using 4 t(1) by (simp add: console_char_def Let_def d_def)
    have st: "steady c t" "lock_free L_ptable t" "\<not> panicked t" "cursor_ok t"
      and ar: "cpus t = cpus a" "locks t = locks a" "map pid (ptable t) = map pid (ptable a)"
      using assms(1) p steady_cong[of t s c] by (auto simp: cons_inv_def lock_free_def)
    have l: "cons_avail t = cons_avail s" "cons_line t = cons_line s @ [word_of_int d]" using p(13,14) u(1,2) by simp_all
    show ?thesis
    proof (cases "d = 10 \<or> d = 4 \<or> ine t = inr t + INPUT_BUF")
      case True
      obtain v where "wakeup c Ch_input (t\<lparr>inw := ine t\<rparr>) = Inr v" "cons_inv c a v" "cons_avail v = cons_avail t @ cons_line t" "cons_line v = []"
        by (rule commit_line[OF st _ ar]) (use room l in simp_all)
      then show ?thesis using 4 True cc l room full by (auto simp: d_def split: if_splits)
    next
      case False
      have "cons_ok t" using ok room l False byte_of_int[OF assms(2,3)] by (auto simp: cons_ok_def d_def split: if_splits)
      then have "cons_inv c a t" using st ar by (simp add: cons_inv_def)
      then show ?thesis using 4 False cc l room full by (auto simp: d_def split: if_splits)
    qed
  qed
qed

lemma console_chars_edit:
  assumes "cons_inv c a s" "\<forall>ch \<in> set cs. 0 \<le> ch \<and> ch < 256 \<and> ch \<noteq> 16"
  shows "\<exists>t. console_chars c cs d s = Inr (d, t) \<and> cons_inv c a t \<and> (cons_avail t, cons_line t) = fold edit cs (cons_avail s, cons_line s)"
  using assms
proof (induction cs arbitrary: s)
  case (Cons ch cs)
  obtain u where u: "console_char c ch s = Inr u" "cons_inv c a u" "(cons_avail u, cons_line u) = edit ch (cons_avail s, cons_line s)"
    using console_char_edits[OF Cons.prems(1), of ch] Cons.prems(2) by auto
  obtain t where "console_chars c cs d u = Inr (d, t)" "cons_inv c a t" "(cons_avail t, cons_line t) = fold edit cs (cons_avail u, cons_line u)"
    using Cons.IH[OF u(2)] Cons.prems(2) by auto
  then show ?case using u Cons.prems(2) by (simp del: edit.simps)
qed simp

lemma consoleintr_chars:
  fixes s :: "'a consst_scheme"
  assumes "ready c pd s" "\<not> panicked s" "cursor_ok s" "cons_ok s" "\<forall>ch \<in> set cs. 0 \<le> ch \<and> ch < 256 \<and> ch \<noteq> 16"
  shows "\<exists>t. consoleintr callers c cs s = Inr t \<and> ready c pd t \<and> cursor_ok t \<and> cons_ok t \<and>
     (cons_avail t, cons_line t) = fold edit cs (cons_avail s, cons_line s)"
proof -
  let ?a = "acquired c L_cons s"
  note rd = ready_steady[OF assms(1)] ready_free[OF assms(1)]
  have sel: "inbuf ?a = inbuf s" "inr ?a = inr s" "inw ?a = inw s" "ine ?a = ine s" "panicked ?a = panicked s" "crtpos ?a = crtpos s"
    by (simp_all add: acquired_upd)
  then have same: "cons_avail ?a = cons_avail s" "cons_line ?a = cons_line s" by (simp_all add: cons_avail_def cons_line_def)
  have "steady c ?a" by (rule steady_acquired) (rule ready_ok[OF assms(1)])
  moreover have "lock_free L_ptable ?a" using rd(2)[of L_ptable] by (simp add: lock_free_def)
  ultimately have "cons_inv c ?a ?a" using assms(2-4) sel same by (simp add: cons_inv_def cursor_ok_def cons_ok_def)
  from console_chars_edit[OF this assms(5), of False] obtain u where
    u: "console_chars c cs False ?a = Inr (False, u)" "cons_inv c ?a u" "(cons_avail u, cons_line u) = fold edit cs (cons_avail s, cons_line s)"
    unfolding same by blast
  let ?t = "u\<lparr>cpus := cpus s, locks := locks s\<rparr>"
  have "release c L_cons u = Inr ?t" using u(2) by (intro release_section[OF rd]) (simp_all add: cons_inv_def)
  then have "consoleintr callers c cs s = Inr ?t" using u(1) by (simp add: consoleintr_def acquire_section[OF rd])
  moreover have "ready c pd ?t" using u(2) by (intro ready_cong[OF assms(1)]) (simp_all add: cons_inv_def)
  moreover have "cons_avail ?t = cons_avail u" "cons_line ?t = cons_line u" by (simp_all add: cons_avail_def cons_line_def)
  moreover have "cursor_ok ?t" "cons_ok ?t" using u(2) calculation(3,4) by (simp_all add: cons_inv_def cursor_ok_def cons_ok_def)
  ultimately show ?thesis using u(3) by auto
qed

text \<open>C21: Console input is a line editor.  For any characters that arrive in one interrupt, consoleintr changes the bytes a
  reader may take and the line being edited exactly as the editor: Control-U empties the line, backspace and
  delete drop its last byte, every other character is appended while the buffer of 128 bytes has room, and newline,
  Control-D or a full buffer hand the line over to the reader.  It never fails, and the free-running counters may
  have any value.\<close>

theorem consoleintr_edits:
  fixes s :: "'a consst_scheme"
  assumes "ready c pd s" "\<not> panicked s" "cursor_ok s" "cons_ok s" "\<forall>ch \<in> set cs. 0 \<le> ch \<and> ch < 256 \<and> ch \<noteq> 16"
  shows "\<exists>t. consoleintr callers c cs s = Inr t \<and> ready c pd t \<and> cursor_ok t \<and> cons_ok t \<and>
     (cons_avail t, cons_line t) = fold edit cs (cons_avail s, cons_line s)"
  using consoleintr_chars[OF assms] .

definition demo_cons :: consst where
  "demo_cons = \<lparr>ncpu = 2, cpus = (\<lambda>_. demo_cpu\<lparr>cproc := Some 0, intena := True\<rparr>), locks = locks demo_locks, mem = (\<lambda>_. 0),
     kfreelist = 0, use_lock = True, kend = 0x80123450, kpgdir = 0x80300000, kdata = 0x80110000,
     ptable = [demo_proc], nextpid = 2, initproc = Some 0, ticks = 0, forkret_first = False,
     panicked = False, cons_locking = True, uart = True, uartout = [], crt = (\<lambda>_. 0), crtpos = 1919,
     inbuf = (\<lambda>_. 0), inr = 0xFFFFFFFE, inw = 0xFFFFFFFE, ine = 0xFFFFFFFE, kbdshift = 0\<rparr>"

lemma demo_cons_ok: "ready 0 1 demo_cons" "\<not> panicked demo_cons" "cursor_ok demo_cons" "cons_ok demo_cons"
    "cons_avail demo_cons = []" "cons_line demo_cons = []" "uart demo_cons" "uartout demo_cons = []"
  by (auto simp: ready_def demo_cons_def quiet_def lock_free_def demo_locks_def demo_cpu_def touch_def set_cpu_def demo_proc_def
      cursor_ok_def cons_ok_def cons_avail_def cons_line_def)

theorem consputs_on_screen_witness:
  "\<exists>t. consputs [72, 256, 10] demo_cons = Inr t \<and> crtpos t \<le> 1920 \<and> uartout t = [72, 8, 32, 8, 10]"
proof -
  have "0 \<le> crtpos demo_cons" "crtpos demo_cons \<le> 24 * 80" using demo_cons_ok(3) by (simp_all add: cursor_ok_def)
  from consputs_on_screen[OF this demo_cons_ok(2), of "[72, 256, 10]"] show ?thesis
    by (auto simp: demo_cons_ok serial_def BACKSPACE_def)
qed

theorem consoleintr_edits_witness:
  "\<exists>t. consoleintr (\<lambda>_. []) 0 [108, 120, 127, 115, 13, 97] demo_cons = Inr t \<and> cons_avail t = [108, 115, 10] \<and> cons_line t = [97]"
  using consoleintr_edits[OF demo_cons_ok(1-4), of "[108, 120, 127, 115, 13, 97]" "\<lambda>_. []"] by (auto simp: demo_cons_ok)

subsection \<open>Reading\<close>

text \<open>What a read of \<open>k\<close> bytes delivers from the bytes handed over: up to the end of the line, nothing more than a
  pending Control-D, or \<open>None\<close> when it waits for more.\<close>

fun line_read :: "nat \<Rightarrow> uchar list \<Rightarrow> uchar list \<Rightarrow> (uchar list \<times> uchar list) option" where
  "line_read 0 acc a = Some (acc, a)"
| "line_read (Suc k) acc [] = None"
| "line_read (Suc k) acc (x # a) =
     (if x = 4 then Some (acc, if acc = [] then a else x # a)
      else if x = 10 then Some (acc @ [x], a)
      else line_read k (acc @ [x]) a)"

lemma consoleread_loop_reads:
  assumes "line_read k acc (cons_avail s) = Some (acc', rest)" "k + length acc < 2 ^ 32" "target = of_nat (k + length acc)"
  shows "\<exists>k' t. consoleread_loop c target k acc s = Inr (False, k', acc', t) \<and> cons_avail t = rest \<and>
    k' + length acc' = k + length acc"
  using assms
proof (induction k arbitrary: acc s)
  case (Suc k)
  obtain x a where a: "cons_avail s = x # a" using Suc.prems(1) by (cases "cons_avail s") auto
  have ne: "inr s \<noteq> inw s" using a by (auto simp: cons_avail_def)
  let ?t = "s\<lparr>inr := inr s + 1\<rparr>"
  have x: "inbuf s (inslot (inr s)) = x" "cons_avail ?t = a"
    using ring_get[OF ne, of 7 "inbuf s"] a by (simp_all add: cons_avail_def inslot_bit)
  have bk: "cons_avail (?t\<lparr>inr := inr ?t - 1\<rparr>) = x # a" using a by (simp add: cons_avail_def)
  have lt: "of_nat (Suc k) < target \<longleftrightarrow> acc \<noteq> []"
  proof -
    have "unat (of_nat (Suc k) :: uint) = Suc k" "unat target = Suc k + length acc"
      using Suc.prems(2,3) by (simp_all add: unat_of_nat take_bit_nat_eq_self del: of_nat_Suc of_nat_add)
    then show ?thesis by (simp add: word_less_nat_alt del: of_nat_Suc)
  qed
  show ?case
  proof (cases "x = 4 \<or> x = 10")
    case True
    then show ?thesis using Suc.prems(1) ne x a bk lt by (auto simp: Let_def simp del: of_nat_Suc)
  next
    case False
    have "line_read k (acc @ [x]) (cons_avail ?t) = Some (acc', rest)" using Suc.prems(1) False a x(2) by simp
    from Suc.IH[OF this] Suc.prems(2,3) show ?thesis using ne x(1) False by (auto simp: Let_def)
  qed
qed simp

definition plain :: "int \<Rightarrow> bool" where
  "plain ch \<longleftrightarrow> 0 < ch \<and> ch < 256 \<and> ch \<notin> {4, 8, 10, 13, 16, 21, 127}"

lemma edit_plain: "\<forall>ch \<in> set cs. plain ch \<Longrightarrow> length l + length cs < 128 \<Longrightarrow> fold edit cs ([], l) = ([], l @ map word_of_int cs)"
  by (induction cs arbitrary: l) (auto simp: plain_def Let_def)

lemma plain_byte: "plain ch \<Longrightarrow> (word_of_int ch :: uchar) \<noteq> 4 \<and> (word_of_int ch :: uchar) \<noteq> 10"
proof -
  assume "plain ch"
  then have "uint (word_of_int ch :: uchar) = ch" "ch \<noteq> 4" "ch \<noteq> 10"
    by (auto simp: plain_def unsigned_of_int take_bit_int_eq_self)
  then show ?thesis by auto
qed

lemma line_read_plain:
  "\<forall>ch \<in> set cs. plain ch \<Longrightarrow> length cs < k \<Longrightarrow>
   line_read k acc (map word_of_int cs @ [10]) = Some (acc @ map word_of_int cs @ [10], [])"
proof (induction cs arbitrary: k acc)
  case Nil
  then show ?case by (cases k) auto
next
  case (Cons ch cs)
  then obtain j where "k = Suc j" by (cases k) auto
  then show ?case using Cons plain_byte[of ch] by simp
qed

text \<open>C20: A line that is typed is the line that is read.  When no input is pending, typing up to 126 ordinary characters
  and Return and then reading with room for them delivers exactly those characters and a newline, and nothing
  stays behind.\<close>

theorem typed_line_is_read:
  fixes s :: "'a consst_scheme"
  assumes "ready c pd s" "\<not> panicked s" "cursor_ok s" "cons_avail s = []" "cons_line s = []"
    and "\<forall>ch \<in> set cs. plain ch" "length cs \<le> 126" "length cs < n" "n < 2 ^ 32"
  shows "\<exists>t k u. consoleintr callers c (cs @ [13]) s = Inr t \<and>
     consoleread_loop c (of_nat n) n [] t = Inr (False, k, map word_of_int cs @ [10], u) \<and> k = n - Suc (length cs) \<and>
     cons_avail u = [] \<and> cons_line t = []"
proof -
  have ok: "cons_ok s" using assms(4,5) by (simp add: cons_ok_def)
  have cs: "\<forall>ch \<in> set (cs @ [13]). 0 \<le> ch \<and> ch < 256 \<and> ch \<noteq> 16"
  proof -
    have "0 \<le> ch \<and> ch < 256 \<and> ch \<noteq> 16" if "plain ch" for ch using that by (simp add: plain_def)
    then show ?thesis using assms(6) by simp
  qed
  from consoleintr_chars[OF assms(1-3) ok cs, of callers] obtain t where
    t: "consoleintr callers c (cs @ [13]) s = Inr t" "(cons_avail t, cons_line t) = fold edit (cs @ [13]) ([], [])"
    unfolding assms(4,5) by blast
  have "fold edit (cs @ [13]) ([], []) = (map word_of_int cs @ [10], [])"
    using edit_plain[OF assms(6), of "[]"] assms(7) by (simp add: Let_def)
  then have a: "cons_avail t = map word_of_int cs @ [10]" "cons_line t = []" using t(2) by simp_all
  have "line_read n [] (cons_avail t) = Some (map word_of_int cs @ [10], [])"
    using line_read_plain[OF assms(6,8), of "[]"] a by simp
  from consoleread_loop_reads[OF this, of "of_nat n" c] assms(8,9) obtain k u where
    "consoleread_loop c (of_nat n) n [] t = Inr (False, k, map word_of_int cs @ [10], u)" "cons_avail u = []" "k = n - Suc (length cs)"
    by auto
  with t(1) a show ?thesis by blast
qed

theorem typed_line_is_read_witness:
  "\<exists>t k u. consoleintr (\<lambda>_. []) 0 [108, 115, 13] demo_cons = Inr t \<and>
     consoleread_loop 0 100 100 [] t = Inr (False, k, [108, 115, 10], u) \<and> k = 97"
  using typed_line_is_read[OF demo_cons_ok(1-3) demo_cons_ok(5,6), of "[108, 115]" 100 "\<lambda>_. []"] by (auto simp: plain_def)

end
