(* ===== verification/Args.thy ===== *)
theory Args
  imports Machine
begin

text \<open>
  The argument routines of syscall.c and the system calls of sysproc.c.  The kernel reads and
  writes user memory at user virtual addresses, through the page table in the CPU's \<open>cr3\<close>; \<open>mmu\<close>
  is the page walk of the processor, with the kernel address of the byte it yields, and an address
  with no mapping is a trap in the kernel.  A fetched string is the list of its bytes.
\<close>

subsection \<open>User memory\<close>

definition mmu :: "nat \<Rightarrow> bool \<Rightarrow> uint \<Rightarrow> 'a memst_scheme \<Rightarrow> uint option" where
  "mmu c w va s =
     (let pde = rd (P2V (cr3 (cpus s c)) + 4 * PDX va) s
      in if pde AND PTE_P = 0 \<or> (w \<and> pde AND PTE_W = 0) then None
         else let pte = rd (P2V (PTE_ADDR pde) + 4 * PTX va) s
              in if pte AND PTE_P = 0 \<or> (w \<and> pte AND PTE_W = 0) then None
                 else Some (P2V (PTE_ADDR pte) + (va AND 0xFFF)))"

definition uget :: "nat \<Rightarrow> uint \<Rightarrow> 'a memst_scheme \<Rightarrow> fault + uchar" where
  "uget c va s = (case mmu c False va s of None \<Rightarrow> Inl (Panic ''trap'') | Some a \<Rightarrow> Inr (mem s (unat a)))"

definition uput :: "nat \<Rightarrow> uint \<Rightarrow> uchar \<Rightarrow> 'a memst_scheme \<Rightarrow> fault + 'a memst_scheme" where
  "uput c va b s =
     (case mmu c True va s of None \<Rightarrow> Inl (Panic ''trap'') | Some a \<Rightarrow> Inr (s\<lparr>mem := (mem s)(unat a := b)\<rparr>))"

fun ugets :: "nat \<Rightarrow> uint \<Rightarrow> nat \<Rightarrow> 'a memst_scheme \<Rightarrow> fault + uchar list" where
  "ugets c va 0 s = Inr []"
| "ugets c va (Suc n) s = bindE (uget c va s) (\<lambda>b. bindE (ugets c (va + 1) n s) (\<lambda>bs. Inr (b # bs)))"

fun uputs :: "nat \<Rightarrow> uint \<Rightarrow> uchar list \<Rightarrow> 'a memst_scheme \<Rightarrow> fault + 'a memst_scheme" where
  "uputs c va [] s = Inr s"
| "uputs c va (b # bs) s = bindE (uput c va b s) (uputs c (va + 1) bs)"

definition word_of_bytes :: "uchar list \<Rightarrow> uint" where
  "word_of_bytes bs = load32 (\<lambda>i. bs ! i) 0"

definition bytes_of_word :: "uint \<Rightarrow> uchar list" where
  "bytes_of_word w = map (store32 (\<lambda>_. 0) 0 w) [0..<4]"

subsection \<open>Fetching arguments\<close>

text \<open>A routine that returns -1 yields \<open>None\<close>, and otherwise the value it stores for its caller.\<close>

definition fetchint :: "nat \<Rightarrow> uint \<Rightarrow> 'a procst_scheme \<Rightarrow> fault + (int option \<times> 'a procst_scheme)" where
  "fetchint c addr s =
     bindE (curproc c s) (\<lambda>(i, s).
       if addr \<ge> sz (ptable s ! i) \<or> addr + 4 > sz (ptable s ! i) then Inr (None, s)
       else bindE (ugets c addr 4 s) (\<lambda>bs. Inr (Some (sint (word_of_bytes bs)), s)))"

text \<open>The scan of fetchstr with \<open>n\<close> bytes left before the end of the process.\<close>

fun fetchstr_loop :: "nat \<Rightarrow> uint \<Rightarrow> nat \<Rightarrow> uchar list \<Rightarrow> 'a procst_scheme \<Rightarrow> fault + uchar list option" where
  "fetchstr_loop c va 0 acc s = Inr None"
| "fetchstr_loop c va (Suc n) acc s =
     bindE (uget c va s) (\<lambda>b. if b = 0 then Inr (Some acc) else fetchstr_loop c (va + 1) n (acc @ [b]) s)"

definition fetchstr :: "nat \<Rightarrow> uint \<Rightarrow> 'a procst_scheme \<Rightarrow> fault + (uchar list option \<times> 'a procst_scheme)" where
  "fetchstr c addr s =
     bindE (curproc c s) (\<lambda>(i, s).
       if addr \<ge> sz (ptable s ! i) then Inr (None, s)
       else bindE (fetchstr_loop c addr (unat (sz (ptable s ! i) - addr)) [] s) (\<lambda>r. Inr (r, s)))"

definition argint :: "nat \<Rightarrow> nat \<Rightarrow> 'a procst_scheme \<Rightarrow> fault + (int option \<times> 'a procst_scheme)" where
  "argint c n s =
     bindE (curproc c s) (\<lambda>(i, s). fetchint c (tf_esp (tf (ptable s ! i)) + 4 + 4 * of_nat n) s)"

definition argptr :: "nat \<Rightarrow> nat \<Rightarrow> int \<Rightarrow> 'a procst_scheme \<Rightarrow> fault + (uint option \<times> 'a procst_scheme)" where
  "argptr c n len s =
     bindE (curproc c s) (\<lambda>(i, s).
     bindE (argint c n s) (\<lambda>(r, s).
       case r of None \<Rightarrow> Inr (None, s)
       | Some v \<Rightarrow>
         let a = word_of_int v
         in if len < 0 \<or> a \<ge> sz (ptable s ! i) \<or> a + word_of_int len > sz (ptable s ! i) then Inr (None, s)
            else Inr (Some a, s)))"

definition argstr :: "nat \<Rightarrow> nat \<Rightarrow> 'a procst_scheme \<Rightarrow> fault + (uchar list option \<times> 'a procst_scheme)" where
  "argstr c n s =
     bindE (argint c n s) (\<lambda>(r, s).
       case r of None \<Rightarrow> Inr (None, s) | Some v \<Rightarrow> fetchstr c (word_of_int v) s)"

subsection \<open>Process system calls\<close>

text \<open>
  How a system call ends: with a value, asleep in the kernel, by ending the process, or, for
  setpriority, by giving up the CPU before it returns a value.
\<close>

datatype sysret = Ret int | Sleeping | Exited | Yielding int

definition of_outcome :: "int outcome \<Rightarrow> sysret" where
  "of_outcome r = (case r of Done v \<Rightarrow> Ret v | Asleep \<Rightarrow> Sleeping)"

definition sys_fork :: "(nat \<Rightarrow> nat \<Rightarrow> 'a procst_scheme \<Rightarrow> fault + 'a procst_scheme) \<Rightarrow> nat \<Rightarrow>
    'a procst_scheme \<Rightarrow> fault + (sysret \<times> 'a procst_scheme)" where
  "sys_fork dup c s = bindE (fork dup c s) (\<lambda>(r, s). Inr (Ret r, s))"

definition sys_exit :: "(nat \<Rightarrow> 'a procst_scheme \<Rightarrow> fault + 'a procst_scheme) \<Rightarrow> nat \<Rightarrow>
    'a procst_scheme \<Rightarrow> fault + (sysret \<times> 'a procst_scheme)" where
  "sys_exit close c s = bindE (exit close c s) (\<lambda>s. Inr (Exited, s))"

definition sys_wait :: "nat \<Rightarrow> 'a procst_scheme \<Rightarrow> fault + (sysret \<times> 'a procst_scheme)" where
  "sys_wait c s = bindE (wait c s) (\<lambda>(r, s). Inr (of_outcome r, s))"

definition sys_setpriority :: "nat \<Rightarrow> 'a procst_scheme \<Rightarrow> fault + (sysret \<times> 'a procst_scheme)" where
  "sys_setpriority c s =
     bindE (argint c 0 s) (\<lambda>(p, s).
       case p of None \<Rightarrow> Inr (Ret (-1), s)
       | Some p \<Rightarrow> bindE (setpriority c p s) (\<lambda>(r, y, s). Inr (if y then Yielding r else Ret r, s)))"

definition sys_waitx :: "nat \<Rightarrow> 'a procst_scheme \<Rightarrow> fault + (sysret \<times> 'a procst_scheme)" where
  "sys_waitx c s =
     bindE (argptr c 0 4 s) (\<lambda>(w, s).
       case w of None \<Rightarrow> Inr (Ret (-1), s)
       | Some w \<Rightarrow>
         bindE (argptr c 1 4 s) (\<lambda>(r, s).
           case r of None \<Rightarrow> Inr (Ret (-1), s)
           | Some r \<Rightarrow>
             bindE (waitx c s) (\<lambda>(res, s).
               case res of Asleep \<Rightarrow> Inr (Sleeping, s)
               | Done (n, wt, rt) \<Rightarrow>
                 bindE (uputs c r (bytes_of_word rt) s) (\<lambda>s.
                 bindE (uputs c w (bytes_of_word wt) s) (\<lambda>s. Inr (Ret n, s))))))"

definition sys_kill :: "nat \<Rightarrow> 'a procst_scheme \<Rightarrow> fault + (sysret \<times> 'a procst_scheme)" where
  "sys_kill c s =
     bindE (argint c 0 s) (\<lambda>(p, s).
       case p of None \<Rightarrow> Inr (Ret (-1), s)
       | Some p \<Rightarrow> bindE (kill c p s) (\<lambda>(r, s). Inr (Ret r, s)))"

definition sys_getpid :: "nat \<Rightarrow> 'a procst_scheme \<Rightarrow> fault + (sysret \<times> 'a procst_scheme)" where
  "sys_getpid c s = bindE (curproc c s) (\<lambda>(i, s). Inr (Ret (pid (ptable s ! i)), s))"

definition sys_sbrk :: "nat \<Rightarrow> 'a procst_scheme \<Rightarrow> fault + (sysret \<times> 'a procst_scheme)" where
  "sys_sbrk c s =
     bindE (argint c 0 s) (\<lambda>(n, s).
       case n of None \<Rightarrow> Inr (Ret (-1), s)
       | Some n \<Rightarrow>
         bindE (curproc c s) (\<lambda>(i, s).
           let addr = sint (sz (ptable s ! i))
           in bindE (growproc c n s) (\<lambda>(r, s). Inr (Ret (if r < 0 then -1 else addr), s))))"

text \<open>One turn of the loop of sys_sleep, entered with the ticks lock held.\<close>

definition sys_sleep_turn :: "nat \<Rightarrow> int \<Rightarrow> uint \<Rightarrow> 'a procst_scheme \<Rightarrow> fault + (sysret \<times> 'a procst_scheme)" where
  "sys_sleep_turn c n ticks0 s =
     (if ticks s - ticks0 < word_of_int n then
        bindE (curproc c s) (\<lambda>(i, s).
          if killed (ptable s ! i) then bindE (release c L_ticks s) (\<lambda>s. Inr (Ret (-1), s))
          else bindE (sleep c Ch_ticks (Some L_ticks) s) (\<lambda>s. Inr (Sleeping, s)))
      else bindE (release c L_ticks s) (\<lambda>s. Inr (Ret 0, s)))"

definition sys_sleep :: "nat \<Rightarrow> 'a procst_scheme \<Rightarrow> fault + (sysret \<times> 'a procst_scheme)" where
  "sys_sleep c s =
     bindE (argint c 0 s) (\<lambda>(n, s).
       case n of None \<Rightarrow> Inr (Ret (-1), s)
       | Some n \<Rightarrow> bindE (acquire c L_ticks s) (\<lambda>s. sys_sleep_turn c n (ticks s) s))"

definition sys_uptime :: "nat \<Rightarrow> 'a procst_scheme \<Rightarrow> fault + (sysret \<times> 'a procst_scheme)" where
  "sys_uptime c s =
     bindE (acquire c L_ticks s) (\<lambda>s.
       let xticks = ticks s
       in bindE (release c L_ticks s) (\<lambda>s. Inr (Ret (sint xticks), s)))"

end
