(* ===== verification/Exec.thy ===== *)
theory Exec
  imports File Args
begin

text \<open>
  exec.c with loaduvm of vm.c: replacing the image of the current process by a program file.  The
  argument strings are lists of bytes, without their final zero.
\<close>

definition ELF_MAGIC :: uint where "ELF_MAGIC = 0x464C457F"
definition ELF_PROG_LOAD :: uint where "ELF_PROG_LOAD = 1"
definition MAXARG :: nat where "MAXARG = 32"

record elfhdr =
  elf_magic :: uint
  elf_entry :: uint
  elf_phoff :: uint
  elf_phnum :: ushort

definition elfhdr_of :: "uchar list \<Rightarrow> elfhdr" where
  "elfhdr_of bs = \<lparr>elf_magic = load32 (byte_at bs) 0, elf_entry = load32 (byte_at bs) 24,
     elf_phoff = load32 (byte_at bs) 28, elf_phnum = load16 (byte_at bs) 44\<rparr>"

record proghdr =
  ph_type :: uint
  ph_off :: uint
  ph_vaddr :: uint
  ph_filesz :: uint
  ph_memsz :: uint

definition proghdr_of :: "uchar list \<Rightarrow> proghdr" where
  "proghdr_of bs = \<lparr>ph_type = load32 (byte_at bs) 0, ph_off = load32 (byte_at bs) 4, ph_vaddr = load32 (byte_at bs) 8,
     ph_filesz = load32 (byte_at bs) 16, ph_memsz = load32 (byte_at bs) 20\<rparr>"

fun loaduvm_loop :: "nat \<Rightarrow> uint \<Rightarrow> uint \<Rightarrow> nat \<Rightarrow> uint \<Rightarrow> uint \<Rightarrow> nat \<Rightarrow> uint \<Rightarrow> 'a fsst_scheme \<Rightarrow>
    fault + (int \<times> 'a fsst_scheme)" where
  "loaduvm_loop c pgd addr ip offset z k i s =
     (if i < z then
        bindE (walkpgdir c pgd (addr + i) False s) (\<lambda>(pte, s).
          if pte = 0 then Inl (Panic ''loaduvm: address should exist'')
          else let pa = PTE_ADDR (rd pte s);
                   n = (if z - i < PGSIZE then z - i else PGSIZE)
               in bindE (readi c ip (offset + i) n s) (\<lambda>(r, bytes, s).
                  let s = s\<lparr>mem := put_bytes bytes (unat (P2V pa)) (mem s)\<rparr>
                  in if word_of_int r \<noteq> n then Inr (-1, s)
                     else case k of 0 \<Rightarrow> Inl Spin
                     | Suc k \<Rightarrow> loaduvm_loop c pgd addr ip offset z k (i + PGSIZE) s))
      else Inr (0, s))"

declare loaduvm_loop.simps [simp del]

definition loaduvm :: "nat \<Rightarrow> uint \<Rightarrow> uint \<Rightarrow> nat \<Rightarrow> uint \<Rightarrow> uint \<Rightarrow> 'a fsst_scheme \<Rightarrow>
    fault + (int \<times> 'a fsst_scheme)" where
  "loaduvm c pgd addr ip offset z s =
     (if addr mod PGSIZE \<noteq> 0 then Inl (Panic ''loaduvm: addr must be page aligned'')
      else loaduvm_loop c pgd addr ip offset z page_fuel 0 s)"

text \<open>The loop over the program headers; \<open>None\<close> is the jump to \<open>bad\<close>.\<close>

fun exec_load :: "nat \<Rightarrow> uint \<Rightarrow> nat \<Rightarrow> nat \<Rightarrow> uint \<Rightarrow> uint \<Rightarrow> 'a fsst_scheme \<Rightarrow>
    fault + (uint option \<times> 'a fsst_scheme)" where
  "exec_load c pgd ip 0 off z s = Inr (Some z, s)"
| "exec_load c pgd ip (Suc k) off z s =
     bindE (readi c ip off 32 s) (\<lambda>(r, bs, s).
       if r \<noteq> 32 then Inr (None, s)
       else let ph = proghdr_of bs
       in if ph_type ph \<noteq> ELF_PROG_LOAD then exec_load c pgd ip k (off + 32) z s
          else if ph_memsz ph < ph_filesz ph then Inr (None, s)
          else if ph_vaddr ph + ph_memsz ph < ph_vaddr ph then Inr (None, s)
          else bindE (allocuvm c pgd z (ph_vaddr ph + ph_memsz ph) s) (\<lambda>(z, s).
            if z = 0 then Inr (None, s)
            else if ph_vaddr ph mod PGSIZE \<noteq> 0 then Inr (None, s)
            else bindE (loaduvm c pgd (ph_vaddr ph) ip (ph_off ph) (ph_filesz ph) s) (\<lambda>(r, s).
              if r < 0 then Inr (None, s) else exec_load c pgd ip k (off + 32) z s)))"

text \<open>Pushing the argument strings: the stack pointer and the addresses pushed, in order.\<close>

fun exec_args :: "nat \<Rightarrow> uint \<Rightarrow> uchar list list \<Rightarrow> uint \<Rightarrow> uint list \<Rightarrow> 'a memst_scheme \<Rightarrow>
    fault + ((uint \<times> uint list) option \<times> 'a memst_scheme)" where
  "exec_args c pgd [] sp us s = Inr (Some (sp, us), s)"
| "exec_args c pgd (a # as) sp us s =
     (if length us \<ge> MAXARG then Inr (None, s)
      else let sp = (sp - (of_nat (length a) + 1)) AND NOT 3
      in bindE (copyout c pgd sp (a @ [0]) s) (\<lambda>(r, s).
           if r < 0 then Inr (None, s) else exec_args c pgd as sp (us @ [sp]) s))"

definition ustack_of :: "uint \<Rightarrow> uint list \<Rightarrow> uint list" where
  "ustack_of sp us = [0xffffffff, of_nat (length us), sp - (of_nat (length us) + 1) * 4] @ us @ [0]"

text \<open>The last path element, which becomes the name of the process.\<close>

fun last_elem :: "uchar list \<Rightarrow> uchar list \<Rightarrow> uchar list" where
  "last_elem l [] = l"
| "last_elem l (b # bs) = last_elem (if b = SLASH then bs else l) bs"

definition bytes_string :: "uchar list \<Rightarrow> string" where
  "bytes_string bs = map (\<lambda>b. char_of (unat b)) bs"

text \<open>The two exits through \<open>bad\<close>: before and after the inode is released.\<close>

definition exec_bad :: "nat \<Rightarrow> uint \<Rightarrow> nat option \<Rightarrow> 'a fsst_scheme \<Rightarrow> fault + (int \<times> 'a fsst_scheme)" where
  "exec_bad c pgd ip s =
     bindE (if pgd \<noteq> 0 then freevm c pgd s else Inr s) (\<lambda>s.
       case ip of None \<Rightarrow> Inr (-1, s)
       | Some i \<Rightarrow> bindE (iunlockput c i s) (\<lambda>s. bindE (end_op c s) (\<lambda>s. Inr (-1, s))))"

definition exec_commit :: "nat \<Rightarrow> nat \<Rightarrow> uchar list \<Rightarrow> uint \<Rightarrow> uint \<Rightarrow> uint \<Rightarrow> uint \<Rightarrow> 'a procst_scheme \<Rightarrow>
    fault + 'a procst_scheme" where
  "exec_commit c i path pgd z entry sp s =
     (let s = set_proc i (pname_update (\<lambda>_. take 15 (bytes_string (last_elem path path)))) s;
          oldpgdir = pgdir (ptable s ! i);
          s = set_proc i (\<lambda>p. p\<lparr>pgdir := pgd, sz := z, tf := (tf p)\<lparr>tf_eip := entry, tf_esp := sp\<rparr>\<rparr>) s
      in bindE (switchuvm c (Some i) s) (freevm c oldpgdir))"

definition exec_stack :: "nat \<Rightarrow> nat \<Rightarrow> uchar list \<Rightarrow> uchar list list \<Rightarrow> uint \<Rightarrow> uint \<Rightarrow> uint \<Rightarrow> 'a fsst_scheme \<Rightarrow>
    fault + (int \<times> 'a fsst_scheme)" where
  "exec_stack c i path argv pgd z entry s =
     (let z = PGROUNDUP z
      in bindE (allocuvm c pgd z (z + 2 * PGSIZE) s) (\<lambda>(z, s).
           if z = 0 then exec_bad c pgd None s
           else bindE (clearpteu c pgd (z - 2 * PGSIZE) s) (\<lambda>s.
                bindE (exec_args c pgd argv z [] s) (\<lambda>(r, s).
                  case r of None \<Rightarrow> exec_bad c pgd None s
                  | Some (sp, us) \<Rightarrow>
                    let st = ustack_of sp us;
                        sp = sp - (3 + of_nat (length us) + 1) * 4
                    in bindE (copyout c pgd sp (concat (map bytes_of_word st)) s) (\<lambda>(r, s).
                       if r < 0 then exec_bad c pgd None s
                       else bindE (exec_commit c i path pgd z entry sp s) (\<lambda>s. Inr (0, s)))))))"

definition exec :: "nat \<Rightarrow> uchar list \<Rightarrow> uchar list list \<Rightarrow> 'a fsst_scheme \<Rightarrow> fault + (int \<times> 'a fsst_scheme)" where
  "exec c path argv s =
     bindE (curproc c s) (\<lambda>(i, s).
     bindE (begin_op c s) (\<lambda>s.
     bindE (namei c path s) (\<lambda>(po, s).
       case po of None \<Rightarrow>
         bindE (end_op c s) (\<lambda>s.
         bindE (cprintf c (Some (''exec: fail'' @ [CHR 0x0A])) [] s) (\<lambda>s. Inr (-1, s)))
       | Some ip \<Rightarrow>
         bindE (ilock c (Some ip) s) (\<lambda>s.
         bindE (readi c ip 0 52 s) (\<lambda>(r, bs, s).
           let elf = elfhdr_of bs
           in if r \<noteq> 52 then exec_bad c 0 (Some ip) s
              else if elf_magic elf \<noteq> ELF_MAGIC then exec_bad c 0 (Some ip) s
              else bindE (setupkvm c s) (\<lambda>(pgd, s).
                if pgd = 0 then exec_bad c 0 (Some ip) s
                else bindE (exec_load c pgd ip (unat (elf_phnum elf)) (elf_phoff elf) 0 s) (\<lambda>(r, s).
                  case r of None \<Rightarrow> exec_bad c pgd (Some ip) s
                  | Some z \<Rightarrow>
                    bindE (iunlockput c ip s) (\<lambda>s.
                    bindE (end_op c s) (\<lambda>s.
                    exec_stack c i path argv pgd z (elf_entry elf) s)))))))))"

end
