(* ===== verification/Sysfile.thy ===== *)
theory Sysfile
  imports Exec
begin

text \<open>
  sysfile.c: the file system calls.  Each takes its arguments from the user stack of the current
  process, works inside a log transaction where it may change the disk, and returns an int.
\<close>

definition O_RDONLY :: uint where "O_RDONLY = 0"
definition O_WRONLY :: uint where "O_WRONLY = 1"
definition O_RDWR :: uint where "O_RDWR = 2"
definition O_CREATE :: uint where "O_CREATE = 0x200"

subsection \<open>Descriptors\<close>

definition argfd :: "nat \<Rightarrow> nat \<Rightarrow> 'a filest_scheme \<Rightarrow> fault + ((nat \<times> nat) option \<times> 'a filest_scheme)" where
  "argfd c n s =
     bindE (argint c n s) (\<lambda>(r, s).
       case r of None \<Rightarrow> Inr (None, s)
       | Some fd \<Rightarrow>
         if fd < 0 \<or> fd \<ge> int NOFILE then Inr (None, s)
         else bindE (curproc c s) (\<lambda>(i, s).
           case ofile (ptable s ! i) ! nat fd of None \<Rightarrow> Inr (None, s)
           | Some f \<Rightarrow> Inr (Some (nat fd, f), s)))"

definition fdalloc :: "nat \<Rightarrow> nat \<Rightarrow> 'a filest_scheme \<Rightarrow> fault + (nat option \<times> 'a filest_scheme)" where
  "fdalloc c f s =
     bindE (curproc c s) (\<lambda>(i, s).
       case find (\<lambda>fd. ofile (ptable s ! i) ! fd = None) [0..<NOFILE] of
         None \<Rightarrow> Inr (None, s)
       | Some fd \<Rightarrow> Inr (Some fd, set_proc i (ofile_update (\<lambda>fs. fs[fd := Some f])) s))"

definition sys_dup :: "nat \<Rightarrow> 'a filest_scheme \<Rightarrow> fault + (int \<times> 'a filest_scheme)" where
  "sys_dup c s =
     bindE (argfd c 0 s) (\<lambda>(r, s).
       case r of None \<Rightarrow> Inr (-1, s)
       | Some (_, f) \<Rightarrow>
         bindE (fdalloc c f s) (\<lambda>(r, s).
           case r of None \<Rightarrow> Inr (-1, s)
           | Some fd \<Rightarrow> bindE (filedup c f s) (\<lambda>(_, s). Inr (int fd, s))))"

text \<open>The three arguments of read and write: file, buffer and length.\<close>

definition rw_args :: "nat \<Rightarrow> 'a filest_scheme \<Rightarrow> fault + ((nat \<times> uint \<times> int) option \<times> 'a filest_scheme)" where
  "rw_args c s =
     bindE (argfd c 0 s) (\<lambda>(r, s).
       case r of None \<Rightarrow> Inr (None, s)
       | Some (_, f) \<Rightarrow>
         bindE (argint c 2 s) (\<lambda>(n, s).
           case n of None \<Rightarrow> Inr (None, s)
           | Some n \<Rightarrow>
             bindE (argptr c 1 n s) (\<lambda>(p, s).
               case p of None \<Rightarrow> Inr (None, s) | Some p \<Rightarrow> Inr (Some (f, p, n), s))))"

definition sys_read :: "nat \<Rightarrow> 'a filest_scheme \<Rightarrow> fault + (int \<times> 'a filest_scheme)" where
  "sys_read c s =
     bindE (rw_args c s) (\<lambda>(r, s).
       case r of None \<Rightarrow> Inr (-1, s)
       | Some (f, p, n) \<Rightarrow>
         bindE (fileread c f n s) (\<lambda>(r, bytes, s). bindE (uputs c p bytes s) (\<lambda>s. Inr (r, s))))"

definition sys_write :: "nat \<Rightarrow> 'a filest_scheme \<Rightarrow> fault + (int \<times> 'a filest_scheme)" where
  "sys_write c s =
     bindE (rw_args c s) (\<lambda>(r, s).
       case r of None \<Rightarrow> Inr (-1, s)
       | Some (f, p, n) \<Rightarrow> bindE (ugets c p (nat n) s) (\<lambda>bytes. filewrite c f bytes n s))"

definition sys_close :: "nat \<Rightarrow> 'a filest_scheme \<Rightarrow> fault + (int \<times> 'a filest_scheme)" where
  "sys_close c s =
     bindE (argfd c 0 s) (\<lambda>(r, s).
       case r of None \<Rightarrow> Inr (-1, s)
       | Some (fd, f) \<Rightarrow>
         bindE (curproc c s) (\<lambda>(i, s).
         bindE (fileclose c f (set_proc i (ofile_update (\<lambda>fs. fs[fd := None])) s)) (\<lambda>s. Inr (0, s))))"

text \<open>struct stat in user memory: twenty bytes, with two bytes of padding after each short.\<close>

definition stat_bytes :: "stat \<Rightarrow> (nat \<times> uchar list) list" where
  "stat_bytes st =
     [(4, bytes_of_word (st_dev st)), (8, bytes_of_word (st_ino st)),
      (0, take 2 (bytes_of_word (ucast (st_type st)))), (12, take 2 (bytes_of_word (ucast (st_nlink st)))),
      (16, bytes_of_word (st_size st))]"

fun put_fields :: "nat \<Rightarrow> uint \<Rightarrow> (nat \<times> uchar list) list \<Rightarrow> 'a memst_scheme \<Rightarrow> fault + 'a memst_scheme" where
  "put_fields c a [] s = Inr s"
| "put_fields c a ((o', bs) # fs) s = bindE (uputs c (a + of_nat o') bs s) (put_fields c a fs)"

definition sys_fstat :: "nat \<Rightarrow> 'a filest_scheme \<Rightarrow> fault + (int \<times> 'a filest_scheme)" where
  "sys_fstat c s =
     bindE (argfd c 0 s) (\<lambda>(r, s).
       case r of None \<Rightarrow> Inr (-1, s)
       | Some (_, f) \<Rightarrow>
         bindE (argptr c 1 20 s) (\<lambda>(p, s).
           case p of None \<Rightarrow> Inr (-1, s)
           | Some p \<Rightarrow>
             bindE (filestat c f s) (\<lambda>(st, s).
               case st of None \<Rightarrow> Inr (-1, s)
               | Some st \<Rightarrow> bindE (put_fields c p (stat_bytes st) s) (\<lambda>s. Inr (0, s)))))"

subsection \<open>Links\<close>

definition end_with :: "nat \<Rightarrow> int \<Rightarrow> 'a logst_scheme \<Rightarrow> fault + (int \<times> 'a logst_scheme)" where
  "end_with c r s = bindE (end_op c s) (\<lambda>s. Inr (r, s))"

definition add_nlink :: "nat \<Rightarrow> nat \<Rightarrow> ushort \<Rightarrow> 'a inost_scheme \<Rightarrow> fault + 'a inost_scheme" where
  "add_nlink c i d s = iupdate c i (set_inode i (i_nlink_update (\<lambda>n. n + d)) s)"

definition link_bad :: "nat \<Rightarrow> nat \<Rightarrow> 'a filest_scheme \<Rightarrow> fault + (int \<times> 'a filest_scheme)" where
  "link_bad c ip s =
     bindE (ilock c (Some ip) s) (\<lambda>s.
     bindE (add_nlink c ip (-1) s) (\<lambda>s.
     bindE (iunlockput c ip s) (end_with c (-1))))"

definition sys_link :: "nat \<Rightarrow> 'a filest_scheme \<Rightarrow> fault + (int \<times> 'a filest_scheme)" where
  "sys_link c s =
     bindE (argstr c 0 s) (\<lambda>(old, s). case old of None \<Rightarrow> Inr (-1, s) | Some old \<Rightarrow>
     bindE (argstr c 1 s) (\<lambda>(new, s). case new of None \<Rightarrow> Inr (-1, s) | Some new \<Rightarrow>
     bindE (begin_op c s) (\<lambda>s.
     bindE (namei c old s) (\<lambda>(r, s). case r of None \<Rightarrow> end_with c (-1) s | Some ip \<Rightarrow>
     bindE (ilock c (Some ip) s) (\<lambda>s.
       if i_type (icache s ! ip) = T_DIR then bindE (iunlockput c ip s) (end_with c (-1))
       else bindE (add_nlink c ip 1 s) (\<lambda>s.
            bindE (iunlock c (Some ip) s) (\<lambda>s.
            bindE (nameiparent c new s) (\<lambda>(r, name, s). case r of None \<Rightarrow> link_bad c ip s | Some dp \<Rightarrow>
            bindE (ilock c (Some dp) s) (\<lambda>s.
            bindE (if i_dev (icache s ! dp) \<noteq> i_dev (icache s ! ip) then Inr (-1, s)
                   else dirlink c dp name (inum (icache s ! ip)) s) (\<lambda>(r, s).
              if r < 0 then bindE (iunlockput c dp s) (link_bad c ip)
              else bindE (iunlockput c dp s) (\<lambda>s.
                   bindE (iput c ip s) (end_with c 0))))))))))))"

fun isdirempty_loop :: "nat \<Rightarrow> nat \<Rightarrow> nat \<Rightarrow> uint \<Rightarrow> 'a fsst_scheme \<Rightarrow> fault + (bool \<times> 'a fsst_scheme)" where
  "isdirempty_loop c dp n off s =
     (if off < i_size (icache s ! dp) then
        bindE (readi c dp off 16 s) (\<lambda>(r, de, s).
          if r \<noteq> 16 then Inl (Panic ''isdirempty: readi'')
          else if de_inum de \<noteq> 0 then Inr (False, s)
          else case n of 0 \<Rightarrow> Inl Spin | Suc k \<Rightarrow> isdirempty_loop c dp k (off + 16) s)
      else Inr (True, s))"

declare isdirempty_loop.simps [simp del]

definition isdirempty :: "nat \<Rightarrow> nat \<Rightarrow> 'a fsst_scheme \<Rightarrow> fault + (bool \<times> 'a fsst_scheme)" where
  "isdirempty c dp s = isdirempty_loop c dp dir_fuel (2 * 16) s"

definition unlink_bad :: "nat \<Rightarrow> nat \<Rightarrow> 'a filest_scheme \<Rightarrow> fault + (int \<times> 'a filest_scheme)" where
  "unlink_bad c dp s = bindE (iunlockput c dp s) (end_with c (-1))"

definition unlink_entry :: "nat \<Rightarrow> nat \<Rightarrow> nat \<Rightarrow> uint \<Rightarrow> 'a filest_scheme \<Rightarrow> fault + (int \<times> 'a filest_scheme)" where
  "unlink_entry c dp ip off s =
     bindE (writei c dp (replicate 16 0) off 16 s) (\<lambda>(r, s).
       if r \<noteq> 16 then Inl (Panic ''unlink: writei'')
       else bindE (if i_type (icache s ! ip) = T_DIR then add_nlink c dp (-1) s else Inr s) (\<lambda>s.
            bindE (iunlockput c dp s) (\<lambda>s.
            bindE (add_nlink c ip (-1) s) (\<lambda>s.
            bindE (iunlockput c ip s) (end_with c 0)))))"

definition sys_unlink :: "nat \<Rightarrow> 'a filest_scheme \<Rightarrow> fault + (int \<times> 'a filest_scheme)" where
  "sys_unlink c s =
     bindE (argstr c 0 s) (\<lambda>(path, s). case path of None \<Rightarrow> Inr (-1, s) | Some path \<Rightarrow>
     bindE (begin_op c s) (\<lambda>s.
     bindE (nameiparent c path s) (\<lambda>(r, name, s). case r of None \<Rightarrow> end_with c (-1) s | Some dp \<Rightarrow>
     bindE (ilock c (Some dp) s) (\<lambda>s.
       if namecmp name [46] = 0 \<or> namecmp name [46, 46] = 0 then unlink_bad c dp s
       else bindE (dirlookup c dp name s) (\<lambda>(r, s). case r of None \<Rightarrow> unlink_bad c dp s | Some (ip, off) \<Rightarrow>
            bindE (ilock c (Some ip) s) (\<lambda>s.
              if sint (i_nlink (icache s ! ip)) < 1 then Inl (Panic ''unlink: nlink < 1'')
              else bindE (if i_type (icache s ! ip) = T_DIR then isdirempty c ip s else Inr (True, s)) (\<lambda>(e, s).
                if \<not> e then bindE (iunlockput c ip s) (unlink_bad c dp)
                else unlink_entry c dp ip off s)))))))"

subsection \<open>Creating and opening\<close>

definition create_new :: "nat \<Rightarrow> nat \<Rightarrow> uchar list \<Rightarrow> ushort \<Rightarrow> ushort \<Rightarrow> ushort \<Rightarrow> 'a filest_scheme \<Rightarrow>
    fault + (nat option \<times> 'a filest_scheme)" where
  "create_new c dp name ty mj mn s =
     bindE (ialloc c (i_dev (icache s ! dp)) ty s) (\<lambda>(ip, s).
     bindE (ilock c (Some ip) s) (\<lambda>s.
     bindE (iupdate c ip (set_inode ip (\<lambda>x. x\<lparr>i_major := mj, i_minor := mn, i_nlink := 1\<rparr>) s)) (\<lambda>s.
     bindE (if ty = T_DIR then
              bindE (add_nlink c dp 1 s) (\<lambda>s.
              bindE (dirlink c ip [46] (inum (icache s ! ip)) s) (\<lambda>(r, s).
                if r < 0 then Inl (Panic ''create dots'')
                else bindE (dirlink c ip [46, 46] (inum (icache s ! dp)) s) (\<lambda>(r, s).
                  if r < 0 then Inl (Panic ''create dots'') else Inr s)))
            else Inr s) (\<lambda>s.
     bindE (dirlink c dp name (inum (icache s ! ip)) s) (\<lambda>(r, s).
       if r < 0 then Inl (Panic ''create: dirlink'')
       else bindE (iunlockput c dp s) (\<lambda>s. Inr (Some ip, s)))))))"

definition create :: "nat \<Rightarrow> uchar list \<Rightarrow> ushort \<Rightarrow> ushort \<Rightarrow> ushort \<Rightarrow> 'a filest_scheme \<Rightarrow>
    fault + (nat option \<times> 'a filest_scheme)" where
  "create c path ty mj mn s =
     bindE (nameiparent c path s) (\<lambda>(r, name, s). case r of None \<Rightarrow> Inr (None, s) | Some dp \<Rightarrow>
     bindE (ilock c (Some dp) s) (\<lambda>s.
     bindE (dirlookup c dp name s) (\<lambda>(r, s).
       case r of
         Some (ip, _) \<Rightarrow>
           bindE (iunlockput c dp s) (\<lambda>s.
           bindE (ilock c (Some ip) s) (\<lambda>s.
             if ty = T_FILE \<and> i_type (icache s ! ip) = T_FILE then Inr (Some ip, s)
             else bindE (iunlockput c ip s) (\<lambda>s. Inr (None, s))))
       | None \<Rightarrow> create_new c dp name ty mj mn s)))"

text \<open>The locked inode that open works on; \<open>None\<close> when it has none to open.\<close>

definition open_inode :: "nat \<Rightarrow> uchar list \<Rightarrow> uint \<Rightarrow> 'a filest_scheme \<Rightarrow> fault + (nat option \<times> 'a filest_scheme)" where
  "open_inode c path omode s =
     (if omode AND O_CREATE \<noteq> 0 then create c path T_FILE 0 0 s
      else bindE (namei c path s) (\<lambda>(r, s).
        case r of None \<Rightarrow> Inr (None, s)
        | Some ip \<Rightarrow>
          bindE (ilock c (Some ip) s) (\<lambda>s.
            if i_type (icache s ! ip) = T_DIR \<and> omode \<noteq> O_RDONLY
            then bindE (iunlockput c ip s) (\<lambda>s. Inr (None, s)) else Inr (Some ip, s))))"

definition open_fd :: "nat \<Rightarrow> 'a filest_scheme \<Rightarrow> fault + ((nat \<times> nat) option \<times> 'a filest_scheme)" where
  "open_fd c s =
     bindE (filealloc c s) (\<lambda>(r, s). case r of None \<Rightarrow> Inr (None, s) | Some f \<Rightarrow>
     bindE (fdalloc c f s) (\<lambda>(r, s).
       case r of None \<Rightarrow> bindE (fileclose c f s) (\<lambda>s. Inr (None, s)) | Some fd \<Rightarrow> Inr (Some (f, fd), s)))"

definition sys_open :: "nat \<Rightarrow> 'a filest_scheme \<Rightarrow> fault + (int \<times> 'a filest_scheme)" where
  "sys_open c s =
     bindE (argstr c 0 s) (\<lambda>(path, s). case path of None \<Rightarrow> Inr (-1, s) | Some path \<Rightarrow>
     bindE (argint c 1 s) (\<lambda>(om, s). case om of None \<Rightarrow> Inr (-1, s) | Some om \<Rightarrow>
       let omode = word_of_int om
       in bindE (begin_op c s) (\<lambda>s.
          bindE (open_inode c path omode s) (\<lambda>(r, s). case r of None \<Rightarrow> end_with c (-1) s | Some ip \<Rightarrow>
          bindE (open_fd c s) (\<lambda>(r, s).
            case r of None \<Rightarrow> bindE (iunlockput c ip s) (end_with c (-1))
            | Some (f, fd) \<Rightarrow>
              bindE (iunlock c (Some ip) s) (\<lambda>s.
              bindE (end_op c s) (\<lambda>s.
                Inr (int fd, set_file f (\<lambda>x. x\<lparr>f_type := FD_INODE, f_ip := Some ip, f_off := 0,
                  readable := omode AND O_WRONLY = 0,
                  writable := omode AND O_WRONLY \<noteq> 0 \<or> omode AND O_RDWR \<noteq> 0\<rparr>) s)))))))) "

definition create_call :: "nat \<Rightarrow> uchar list \<Rightarrow> ushort \<Rightarrow> ushort \<Rightarrow> ushort \<Rightarrow> 'a filest_scheme \<Rightarrow>
    fault + (int \<times> 'a filest_scheme)" where
  "create_call c path ty mj mn s =
     bindE (create c path ty mj mn s) (\<lambda>(r, s).
       case r of None \<Rightarrow> end_with c (-1) s | Some ip \<Rightarrow> bindE (iunlockput c ip s) (end_with c 0))"

definition sys_mkdir :: "nat \<Rightarrow> 'a filest_scheme \<Rightarrow> fault + (int \<times> 'a filest_scheme)" where
  "sys_mkdir c s =
     bindE (begin_op c s) (\<lambda>s.
     bindE (argstr c 0 s) (\<lambda>(path, s). case path of None \<Rightarrow> end_with c (-1) s
     | Some path \<Rightarrow> create_call c path T_DIR 0 0 s))"

definition sys_mknod :: "nat \<Rightarrow> 'a filest_scheme \<Rightarrow> fault + (int \<times> 'a filest_scheme)" where
  "sys_mknod c s =
     bindE (begin_op c s) (\<lambda>s.
     bindE (argstr c 0 s) (\<lambda>(path, s). case path of None \<Rightarrow> end_with c (-1) s | Some path \<Rightarrow>
     bindE (argint c 1 s) (\<lambda>(mj, s). case mj of None \<Rightarrow> end_with c (-1) s | Some mj \<Rightarrow>
     bindE (argint c 2 s) (\<lambda>(mn, s). case mn of None \<Rightarrow> end_with c (-1) s | Some mn \<Rightarrow>
       create_call c path T_DEV (word_of_int mj) (word_of_int mn) s))))"

definition sys_chdir :: "nat \<Rightarrow> 'a filest_scheme \<Rightarrow> fault + (int \<times> 'a filest_scheme)" where
  "sys_chdir c s =
     bindE (curproc c s) (\<lambda>(i, s).
     bindE (begin_op c s) (\<lambda>s.
     bindE (argstr c 0 s) (\<lambda>(path, s). case path of None \<Rightarrow> end_with c (-1) s | Some path \<Rightarrow>
     bindE (namei c path s) (\<lambda>(r, s). case r of None \<Rightarrow> end_with c (-1) s | Some ip \<Rightarrow>
     bindE (ilock c (Some ip) s) (\<lambda>s.
       if i_type (icache s ! ip) \<noteq> T_DIR then bindE (iunlockput c ip s) (end_with c (-1))
       else bindE (iunlock c (Some ip) s) (\<lambda>s.
            bindE (case cwd (ptable s ! i) of None \<Rightarrow> Inl (Panic ''trap'') | Some old \<Rightarrow> iput c old s) (\<lambda>s.
            bindE (end_op c s) (\<lambda>s. Inr (0, set_proc i (cwd_update (\<lambda>_. Some ip)) s)))))))))"

subsection \<open>Exec and pipe\<close>

text \<open>The argument vector from index \<open>i\<close> on, with room for \<open>k\<close> more pointers.\<close>

fun exec_argv :: "nat \<Rightarrow> uint \<Rightarrow> nat \<Rightarrow> nat \<Rightarrow> 'a procst_scheme \<Rightarrow>
    fault + (uchar list list option \<times> 'a procst_scheme)" where
  "exec_argv c uargv i 0 s = Inr (None, s)"
| "exec_argv c uargv i (Suc k) s =
     bindE (fetchint c (uargv + 4 * of_nat i) s) (\<lambda>(r, s). case r of None \<Rightarrow> Inr (None, s) | Some uarg \<Rightarrow>
       if uarg = 0 then Inr (Some [], s)
       else bindE (fetchstr c (word_of_int uarg) s) (\<lambda>(r, s). case r of None \<Rightarrow> Inr (None, s) | Some a \<Rightarrow>
            bindE (exec_argv c uargv (Suc i) k s) (\<lambda>(r, s). Inr (map_option ((#) a) r, s))))"

definition sys_exec :: "nat \<Rightarrow> 'a filest_scheme \<Rightarrow> fault + (int \<times> 'a filest_scheme)" where
  "sys_exec c s =
     bindE (argstr c 0 s) (\<lambda>(path, s). case path of None \<Rightarrow> Inr (-1, s) | Some path \<Rightarrow>
     bindE (argint c 1 s) (\<lambda>(u, s). case u of None \<Rightarrow> Inr (-1, s) | Some u \<Rightarrow>
     bindE (exec_argv c (word_of_int u) 0 MAXARG s) (\<lambda>(r, s). case r of None \<Rightarrow> Inr (-1, s)
     | Some argv \<Rightarrow> exec c path argv s)))"

definition pipe_bad :: "nat \<Rightarrow> nat option \<Rightarrow> nat \<Rightarrow> nat \<Rightarrow> 'a filest_scheme \<Rightarrow> fault + (int \<times> 'a filest_scheme)" where
  "pipe_bad c fd0 fr fw s =
     bindE (case fd0 of None \<Rightarrow> Inr s
            | Some fd \<Rightarrow> bindE (curproc c s) (\<lambda>(i, s). Inr (set_proc i (ofile_update (\<lambda>fs. fs[fd := None])) s))) (\<lambda>s.
     bindE (fileclose c fr s) (\<lambda>s.
     bindE (fileclose c fw s) (\<lambda>s. Inr (-1, s))))"

definition sys_pipe :: "nat \<Rightarrow> 'a filest_scheme \<Rightarrow> fault + (int \<times> 'a filest_scheme)" where
  "sys_pipe c s =
     bindE (argptr c 0 8 s) (\<lambda>(fd, s). case fd of None \<Rightarrow> Inr (-1, s) | Some fd \<Rightarrow>
     bindE (pipealloc c s) (\<lambda>(r, s). case r of None \<Rightarrow> Inr (-1, s) | Some (fr, fw) \<Rightarrow>
     bindE (fdalloc c fr s) (\<lambda>(r, s). case r of None \<Rightarrow> pipe_bad c None fr fw s | Some fd0 \<Rightarrow>
     bindE (fdalloc c fw s) (\<lambda>(r, s). case r of None \<Rightarrow> pipe_bad c (Some fd0) fr fw s | Some fd1 \<Rightarrow>
     bindE (uputs c fd (bytes_of_word (of_nat fd0)) s) (\<lambda>s.
     bindE (uputs c (fd + 4) (bytes_of_word (of_nat fd1)) s) (\<lambda>s. Inr (0, s)))))))"

end
