(* ===== verification/Kbd.thy ===== *)
theory Kbd
  imports Console
begin

text \<open>
  kbd.c and kbd.h: from keyboard scan codes to characters.  The key maps are lists of 256 codes;
  the static variable shift of kbdgetc is the field \<open>kbdshift\<close> of the console state.
\<close>

definition SHIFT :: uint where "SHIFT = 1"
definition CTL :: uint where "CTL = 2"
definition ALT :: uint where "ALT = 4"
definition CAPSLOCK :: uint where "CAPSLOCK = 8"
definition NUMLOCK :: uint where "NUMLOCK = 16"
definition SCROLLLOCK :: uint where "SCROLLLOCK = 32"
definition E0ESC :: uint where "E0ESC = 64"

definition sparse :: "uchar list \<Rightarrow> (nat \<times> uchar) list \<Rightarrow> uchar list" where
  "sparse pre us = fold (\<lambda>(i, v) t. t[i := v]) us (pre @ replicate (256 - length pre) 0)"

definition shiftcode :: "uchar list" where
  "shiftcode = sparse [] [(0x1D, ucast CTL), (0x2A, ucast SHIFT), (0x36, ucast SHIFT), (0x38, ucast ALT),
     (0x9D, ucast CTL), (0xB8, ucast ALT)]"

definition togglecode :: "uchar list" where
  "togglecode = sparse [] [(0x3A, ucast CAPSLOCK), (0x45, ucast NUMLOCK), (0x46, ucast SCROLLLOCK)]"

definition normalmap :: "uchar list" where
  "normalmap = sparse
     [0, 27, 49, 50, 51, 52, 53, 54, 55, 56, 57, 48, 45, 61, 8, 9,
      113, 119, 101, 114, 116, 121, 117, 105, 111, 112, 91, 93, 10, 0, 97, 115,
      100, 102, 103, 104, 106, 107, 108, 59, 39, 96, 0, 92, 122, 120, 99, 118,
      98, 110, 109, 44, 46, 47, 0, 42, 0, 32, 0, 0, 0, 0, 0, 0,
      0, 0, 0, 0, 0, 0, 0, 55, 56, 57, 45, 52, 53, 54, 43, 49,
      50, 51, 48, 46, 0, 0, 0, 0]
     [(156, 10), (181, 47), (200, 226), (208, 227),
      (201, 230), (209, 231), (203, 228), (205, 229), (151, 224),
      (207, 225), (210, 232), (211, 233)]"

definition shiftmap :: "uchar list" where
  "shiftmap = sparse
     [0, 27, 33, 64, 35, 36, 37, 94, 38, 42, 40, 41, 95, 43, 8, 9,
      81, 87, 69, 82, 84, 89, 85, 73, 79, 80, 123, 125, 10, 0, 65, 83,
      68, 70, 71, 72, 74, 75, 76, 58, 34, 126, 0, 124, 90, 88, 67, 86,
      66, 78, 77, 60, 62, 63, 0, 42, 0, 32, 0, 0, 0, 0, 0, 0,
      0, 0, 0, 0, 0, 0, 0, 55, 56, 57, 45, 52, 53, 54, 43, 49,
      50, 51, 48, 46, 0, 0, 0, 0]
     [(156, 10), (181, 47), (200, 226), (208, 227),
      (201, 230), (209, 231), (203, 228), (205, 229), (151, 224),
      (207, 225), (210, 232), (211, 233)]"

definition ctlmap :: "uchar list" where
  "ctlmap = sparse
     [0, 0, 0, 0, 0, 0, 0, 0, 0, 0, 0, 0, 0, 0, 0, 0,
      17, 23, 5, 18, 20, 25, 21, 9, 15, 16, 0, 0, 13, 0, 1, 19,
      4, 6, 7, 8, 10, 11, 12, 0, 0, 0, 0, 28, 26, 24, 3, 22,
      2, 14, 13, 0, 0, 239, 0, 0]
     [(156, 13), (181, 239), (200, 226), (208, 227),
      (201, 230), (209, 231), (203, 228), (205, 229), (151, 224),
      (207, 225), (210, 232), (211, 233)]"

definition charcode :: "uint \<Rightarrow> uchar list" where
  "charcode k = [normalmap, shiftmap, ctlmap, ctlmap] ! unat k"

text \<open>The value kbdgetc returns and the new shift state, for a scan code read from the data port.\<close>

definition kbdgetc_code :: "uchar \<Rightarrow> uint \<Rightarrow> int \<times> uint" where
  "kbdgetc_code data shift =
     (if data = 0xE0 then (0, shift OR E0ESC)
      else if data AND 0x80 \<noteq> 0
      then let data = (if shift AND E0ESC \<noteq> 0 then data else data AND 0x7F)
           in (0, shift AND NOT (ucast (shiftcode ! unat data) OR E0ESC))
      else let (data, shift) =
             (if shift AND E0ESC \<noteq> 0 then (data OR 0x80, shift AND NOT E0ESC) else (data, shift));
             shift = shift OR ucast (shiftcode ! unat data);
             shift = xor shift (ucast (togglecode ! unat data));
             ch = charcode (shift AND (CTL OR SHIFT)) ! unat data;
             ch = (if shift AND CAPSLOCK \<noteq> 0
                   then if 97 \<le> ch \<and> ch \<le> 122 then ch - 32
                        else if 65 \<le> ch \<and> ch \<le> 90 then ch + 32 else ch
                   else ch)
           in (uint ch, shift))"

definition kbdgetc :: "uchar option \<Rightarrow> 'a consst_scheme \<Rightarrow> int \<times> 'a consst_scheme" where
  "kbdgetc port s =
     (case port of None \<Rightarrow> (-1, s)
      | Some data \<Rightarrow> let (ch, shift) = kbdgetc_code data (kbdshift s) in (ch, s\<lparr>kbdshift := shift\<rparr>))"

text \<open>The values kbdgetc returns for the scan codes waiting in the controller, up to the first -1.\<close>

fun kbd_chars :: "uchar list \<Rightarrow> 'a consst_scheme \<Rightarrow> int list \<times> 'a consst_scheme" where
  "kbd_chars [] s = (let (ch, s) = kbdgetc None s in ([ch], s))"
| "kbd_chars (d # ds) s =
     (let (ch, s) = kbdgetc (Some d) s; (cs, s) = kbd_chars ds s in (ch # cs, s))"

definition kbdintr :: "(nat \<Rightarrow> uint list) \<Rightarrow> nat \<Rightarrow> uchar list \<Rightarrow> 'a consst_scheme \<Rightarrow> fault + 'a consst_scheme" where
  "kbdintr callers c ds s = (let (cs, s) = kbd_chars ds s in consoleintr callers c cs s)"

text \<open>The serial port's receive interrupt: the bytes waiting in the port, up to the first -1.\<close>

fun uart_chars :: "uchar list \<Rightarrow> 'a consst_scheme \<Rightarrow> int list" where
  "uart_chars [] s = [uartgetc False 0 s]"
| "uart_chars (d # ds) s = uartgetc True d s # uart_chars ds s"

definition uartintr :: "(nat \<Rightarrow> uint list) \<Rightarrow> nat \<Rightarrow> uchar list \<Rightarrow> 'a consst_scheme \<Rightarrow> fault + 'a consst_scheme" where
  "uartintr callers c ds s = consoleintr callers c (uart_chars ds s) s"

end
