(* ===== verification/Trap.thy ===== *)
theory Trap
  imports Sysfile Kbd
begin

text \<open>
  The system call table and dispatcher of syscall.c and the trap handler of trap.c.  A trap ends
  by returning, with the process asleep in the kernel, with the process ended, or at the yield on
  a clock tick, after which \<open>trap_rest\<close> runs.  The device inputs of an interrupt (scan codes,
  serial bytes), the register \<open>cr2\<close> and the saved return addresses are arguments; \<open>vectors\<close> is the
  generated table of entry points.
\<close>

subsection \<open>The system call table\<close>

datatype sysfn = Sys_fork | Sys_exit | Sys_wait | Sys_waitx | Sys_pipe | Sys_read | Sys_kill | Sys_exec
  | Sys_fstat | Sys_chdir | Sys_dup | Sys_getpid | Sys_sbrk | Sys_sleep | Sys_uptime | Sys_open
  | Sys_write | Sys_mknod | Sys_unlink | Sys_link | Sys_mkdir | Sys_close

definition SYS_setpriority :: int where "SYS_setpriority = 23"

definition syscalls :: "(int \<times> sysfn) list" where
  "syscalls = [(1, Sys_fork), (2, Sys_exit), (3, Sys_wait), (22, Sys_waitx), (4, Sys_pipe), (5, Sys_read),
     (6, Sys_kill), (7, Sys_exec), (8, Sys_fstat), (9, Sys_chdir), (10, Sys_dup), (11, Sys_getpid),
     (12, Sys_sbrk), (13, Sys_sleep), (14, Sys_uptime), (15, Sys_open), (16, Sys_write), (17, Sys_mknod),
     (18, Sys_unlink), (19, Sys_link), (20, Sys_mkdir), (21, Sys_close)]"

definition NELEM_syscalls :: int where
  "NELEM_syscalls = 1 + Max (fst ` set syscalls)"

definition ret :: "(nat \<Rightarrow> 's \<Rightarrow> fault + (int \<times> 's)) \<Rightarrow> nat \<Rightarrow> 's \<Rightarrow> fault + (sysret \<times> 's)" where
  "ret f c s = bindE (f c s) (\<lambda>(r, s). Inr (Ret r, s))"

fun run_sys :: "sysfn \<Rightarrow> nat \<Rightarrow> 'a filest_scheme \<Rightarrow> fault + (sysret \<times> 'a filest_scheme)" where
  "run_sys Sys_fork c s = sys_fork (fork_dup c) c s"
| "run_sys Sys_exit c s = sys_exit (exit_close c) c s"
| "run_sys Sys_wait c s = sys_wait c s"
| "run_sys Sys_waitx c s = sys_waitx c s"
| "run_sys Sys_pipe c s = ret sys_pipe c s"
| "run_sys Sys_read c s = ret sys_read c s"
| "run_sys Sys_kill c s = sys_kill c s"
| "run_sys Sys_exec c s = ret sys_exec c s"
| "run_sys Sys_fstat c s = ret sys_fstat c s"
| "run_sys Sys_chdir c s = ret sys_chdir c s"
| "run_sys Sys_dup c s = ret sys_dup c s"
| "run_sys Sys_getpid c s = sys_getpid c s"
| "run_sys Sys_sbrk c s = sys_sbrk c s"
| "run_sys Sys_sleep c s = sys_sleep c s"
| "run_sys Sys_uptime c s = sys_uptime c s"
| "run_sys Sys_open c s = ret sys_open c s"
| "run_sys Sys_write c s = ret sys_write c s"
| "run_sys Sys_mknod c s = ret sys_mknod c s"
| "run_sys Sys_unlink c s = ret sys_unlink c s"
| "run_sys Sys_link c s = ret sys_link c s"
| "run_sys Sys_mkdir c s = ret sys_mkdir c s"
| "run_sys Sys_close c s = ret sys_close c s"

definition set_eax :: "nat \<Rightarrow> int \<Rightarrow> 'a procst_scheme \<Rightarrow> 'a procst_scheme" where
  "set_eax i v s = set_proc i (tf_update (tf_eax_update (\<lambda>_. word_of_int v))) s"

definition syscall :: "nat \<Rightarrow> 'a filest_scheme \<Rightarrow> fault + (sysret \<times> 'a filest_scheme)" where
  "syscall c s =
     bindE (curproc c s) (\<lambda>(i, s).
       let num = sint (tf_eax (tf (ptable s ! i)));
           fn = (if num > 0 \<and> num < NELEM_syscalls then map_of syscalls num else None)
       in case fn of
            Some fn \<Rightarrow>
              bindE (run_sys fn c s) (\<lambda>(r, s).
                case r of Ret v \<Rightarrow> Inr (Ret v, set_eax i v s) | _ \<Rightarrow> Inr (r, s))
          | None \<Rightarrow>
              bindE (cprintf c (Some (''%d %s: unknown sys call %d'' @ [CHR 0x0A]))
                [A_word (word_of_int (pid (ptable s ! i))), A_str (Some (pname (ptable s ! i))),
                 A_word (word_of_int num)] s) (\<lambda>s. Inr (Ret (-1), set_eax i (-1) s)))"

subsection \<open>Traps\<close>

definition T_SYSCALL :: uint where "T_SYSCALL = 64"
definition T_IRQ0 :: uint where "T_IRQ0 = 32"
definition IRQ_TIMER :: uint where "IRQ_TIMER = 0"
definition IRQ_KBD :: uint where "IRQ_KBD = 1"
definition IRQ_COM1 :: uint where "IRQ_COM1 = 4"
definition IRQ_IDE :: uint where "IRQ_IDE = 14"
definition IRQ_SPURIOUS :: uint where "IRQ_SPURIOUS = 31"
definition SEG_KCODE :: uint where "SEG_KCODE = 1"

definition STS_IG32 :: uint where "STS_IG32 = 0xE"
definition STS_TG32 :: uint where "STS_TG32 = 0xF"

record gatedesc =
  gd_off_15_0 :: uint
  gd_cs :: uint
  gd_args :: uint
  gd_rsv1 :: uint
  gd_type :: uint
  gd_s :: uint
  gd_dpl :: uint
  gd_p :: uint
  gd_off_31_16 :: uint

record trapst = filest +
  idt :: "nat \<Rightarrow> gatedesc"
  idt_loaded :: "nat \<Rightarrow> bool"

definition SETGATE :: "bool \<Rightarrow> uint \<Rightarrow> uint \<Rightarrow> uint \<Rightarrow> gatedesc" where
  "SETGATE istrap sel off d = \<lparr>gd_off_15_0 = off AND 0xffff, gd_cs = sel, gd_args = 0, gd_rsv1 = 0,
     gd_type = (if istrap then STS_TG32 else STS_IG32), gd_s = 0, gd_dpl = d, gd_p = 1,
     gd_off_31_16 = drop_bit 16 off\<rparr>"

definition tvinit :: "(nat \<Rightarrow> uint) \<Rightarrow> 'a trapst_scheme \<Rightarrow> 'a trapst_scheme" where
  "tvinit vectors s =
     (let s = s\<lparr>idt := (\<lambda>i. if i < 256 then SETGATE False (push_bit 3 SEG_KCODE) (vectors i) 0 else idt s i)\<rparr>;
          s = s\<lparr>idt := (idt s)(unat T_SYSCALL :=
                SETGATE True (push_bit 3 SEG_KCODE) (vectors (unat T_SYSCALL)) (ucast DPL_USER))\<rparr>
      in initlock L_ticks ''time'' s)"

definition idtinit :: "nat \<Rightarrow> 'a trapst_scheme \<Rightarrow> 'a trapst_scheme" where
  "idtinit c s = s\<lparr>idt_loaded := (idt_loaded s)(c := True)\<rparr>"

datatype trapres = T_return | T_asleep | T_exited | T_yield

definition from_user :: "trapframe \<Rightarrow> bool" where
  "from_user t \<longleftrightarrow> tf_cs t AND 3 = DPL_USER"

definition clock_tick :: "nat \<Rightarrow> 'a procst_scheme \<Rightarrow> fault + 'a procst_scheme" where
  "clock_tick c s =
     (if c = 0 then
        bindE (acquire c L_ticks s) (\<lambda>s.
        bindE (wakeup c Ch_ticks (s\<lparr>ticks := ticks s + 1\<rparr>)) (release c L_ticks))
      else Inr s)"

text \<open>An end of the handler that exits the process if it was killed and the trap came from user space.\<close>

definition exit_killed :: "nat \<Rightarrow> trapframe \<Rightarrow> 'a filest_scheme \<Rightarrow> fault + (bool \<times> 'a filest_scheme)" where
  "exit_killed c t s =
     bindE (myproc c s) (\<lambda>(po, s).
       case po of None \<Rightarrow> Inr (False, s)
       | Some i \<Rightarrow>
         if killed (ptable s ! i) \<and> from_user t
         then bindE (exit (exit_close c) c s) (\<lambda>s. Inr (True, s)) else Inr (False, s))"

definition trap_syscall :: "nat \<Rightarrow> trapframe \<Rightarrow> 'a filest_scheme \<Rightarrow> fault + (trapres \<times> 'a filest_scheme)" where
  "trap_syscall c t s =
     bindE (curproc c s) (\<lambda>(i, s).
       if killed (ptable s ! i) then bindE (exit (exit_close c) c s) (\<lambda>s. Inr (T_exited, s))
       else bindE (syscall c (set_proc i (tf_update (\<lambda>_. t)) s)) (\<lambda>(r, s).
         case r of
           Ret _ \<Rightarrow> bindE (curproc c s) (\<lambda>(i, s).
             if killed (ptable s ! i) then bindE (exit (exit_close c) c s) (\<lambda>s. Inr (T_exited, s))
             else Inr (T_return, s))
         | Sleeping \<Rightarrow> Inr (T_asleep, s)
         | Exited \<Rightarrow> Inr (T_exited, s)
         | Yielding _ \<Rightarrow> Inr (T_yield, s)))"

definition unexpected_trap :: "nat \<Rightarrow> uint \<Rightarrow> trapframe \<Rightarrow> 'a filest_scheme \<Rightarrow> fault + 'a filest_scheme" where
  "unexpected_trap c cr2 t s =
     bindE (myproc c s) (\<lambda>(po, s).
       if po = None \<or> tf_cs t AND 3 = 0
       then bindE (cprintf c (Some (''unexpected trap %d from cpu %d eip %x (cr2=0x%x)'' @ [CHR 0x0A]))
              (map A_word [tf_trapno t, of_nat c, tf_eip t, cr2]) s) (\<lambda>s. Inl (Panic ''trap''))
       else let i = the po
       in bindE (cprintf c (Some (''pid %d %s: trap %d err %d on cpu %d eip 0x%x addr 0x%x--kill proc'' @ [CHR 0x0A]))
            ([A_word (word_of_int (pid (ptable s ! i))), A_str (Some (pname (ptable s ! i)))] @
             map A_word [tf_trapno t, tf_err t, of_nat c, tf_eip t, cr2]) s) (\<lambda>s.
          Inr (set_proc i (killed_update (\<lambda>_. True)) s)))"

definition trap_irq :: "(nat \<Rightarrow> uint list) \<Rightarrow> uchar list \<Rightarrow> uchar list \<Rightarrow> uint \<Rightarrow> nat \<Rightarrow> trapframe \<Rightarrow>
    'a filest_scheme \<Rightarrow> fault + 'a filest_scheme" where
  "trap_irq callers kbd_in uart_in cr2 c t s =
     (let n = tf_trapno t
      in if n = T_IRQ0 + IRQ_TIMER then clock_tick c s
         else if n = T_IRQ0 + IRQ_IDE \<or> n = T_IRQ0 + IRQ_IDE + 1 then Inr s
         else if n = T_IRQ0 + IRQ_KBD then kbdintr callers c kbd_in s
         else if n = T_IRQ0 + IRQ_COM1 then uartintr callers c uart_in s
         else if n = T_IRQ0 + 7 \<or> n = T_IRQ0 + IRQ_SPURIOUS
         then cprintf c (Some (''cpu%d: spurious interrupt at %x:%x'' @ [CHR 0x0A]))
                (map A_word [of_nat c, ucast (tf_cs t), tf_eip t]) s
         else unexpected_trap c cr2 t s)"

text \<open>What is left of the handler after the yield: the second check for a killed process.\<close>

definition trap_rest :: "nat \<Rightarrow> trapframe \<Rightarrow> 'a filest_scheme \<Rightarrow> fault + (trapres \<times> 'a filest_scheme)" where
  "trap_rest c t s =
     bindE (exit_killed c t s) (\<lambda>(e, s). Inr (if e then T_exited else T_return, s))"

definition trap :: "string \<Rightarrow> (nat \<Rightarrow> uint list) \<Rightarrow> uchar list \<Rightarrow> uchar list \<Rightarrow> uint \<Rightarrow> nat \<Rightarrow> trapframe \<Rightarrow>
    'a filest_scheme \<Rightarrow> fault + (trapres \<times> 'a filest_scheme)" where
  "trap flag callers kbd_in uart_in cr2 c t s =
     (if tf_trapno t = T_SYSCALL then trap_syscall c t s
      else bindE (trap_irq callers kbd_in uart_in cr2 c t s) (\<lambda>s.
        bindE (exit_killed c t s) (\<lambda>(e, s).
          if e then Inr (T_exited, s)
          else bindE (myproc c s) (\<lambda>(po, s).
            case po of
              Some i \<Rightarrow>
                if pstate (ptable s ! i) = RUNNING \<and> tf_trapno t = T_IRQ0 + IRQ_TIMER \<and> flag ! 0 \<noteq> CHR ''F''
                then bindE (yield c s) (\<lambda>s. Inr (T_yield, s))
                else trap_rest c t s
            | None \<Rightarrow> trap_rest c t s))))"

text \<open>setpriority has a number and an entry in usys.S but none in the table, so the dispatcher refuses it.\<close>

lemma setpriority_refused:
  assumes "curproc c s = Inr (i, u)" "sint (tf_eax (tf (ptable u ! i))) = SYS_setpriority" "syscall c s = Inr (r, t)"
  shows "r = Ret (-1)"
proof -
  have "map_of syscalls SYS_setpriority = None" by (simp add: syscalls_def SYS_setpriority_def)
  then show ?thesis using assms by (auto simp: syscall_def bindE_eq_Inr Let_def split: if_splits)
qed

end
