(* ===== verification/Ulib.thy ===== *)
theory Ulib
  imports Prelude
begin

text \<open>
  The user library routines that do input and output: gets of ulib.c, printf.c, and the number
  parser of time.c.  A C string is the list of its bytes before the terminating NUL.  What a
  descriptor delivers is a list of chunks, one per write to a pipe or per line of the console; a
  disk file is one chunk.  A read takes at most the bytes it asks for from the first chunk and
  returns 0 at the end of the list or on an empty chunk.  printf returns the bytes it writes, in
  order.
\<close>

subsection \<open>Reading\<close>

fun chunk_read :: "nat \<Rightarrow> uchar list list \<Rightarrow> uchar list \<times> uchar list list" where
  "chunk_read k [] = ([], [])"
| "chunk_read k (b # bs) = (take k b, if length b \<le> k then bs else drop k b # bs)"

lemma chunk_read_shrinks:
  "chunk_read k inp = (r, inp') \<Longrightarrow> r \<noteq> [] \<Longrightarrow> length (concat inp') < length (concat inp)"
  by (cases inp) (auto split: if_splits)

lemma chunk_read_concat: "chunk_read k inp = (r, inp') \<Longrightarrow> concat inp = r @ concat inp'"
  by (cases inp) (auto split: if_splits)

lemma chunk_read_length: "chunk_read k inp = (r, inp') \<Longrightarrow> length r \<le> k"
  by (cases inp) auto

text \<open>The loop of gets; \<open>n\<close> is \<open>max - 1 - i\<close>, the bytes that still fit before the NUL.\<close>

fun gets_loop :: "nat \<Rightarrow> uchar list list \<Rightarrow> uchar list \<times> uchar list list" where
  "gets_loop 0 inp = ([], inp)"
| "gets_loop (Suc n) inp =
     (case chunk_read 1 inp of
        ([], inp) \<Rightarrow> ([], inp)
      | (c # _, inp) \<Rightarrow>
          if c = 10 \<or> c = 13 then ([c], inp)
          else let (cs, inp) = gets_loop n inp in (c # cs, inp))"

definition gets :: "int \<Rightarrow> uchar list list \<Rightarrow> uchar list \<times> uchar list list" where
  "gets mx inp = gets_loop (nat (mx - 1)) inp"

subsection \<open>printf\<close>

definition byte :: "char \<Rightarrow> uchar" where
  "byte ch = of_char ch"

definition udigit :: "uint \<Rightarrow> uchar" where
  "udigit d = byte (''0123456789ABCDEF'' ! unat d)"

text \<open>The digits printint collects in its buffer, last one first; \<open>n\<close> is the room left there.\<close>

fun udigits :: "nat \<Rightarrow> uint \<Rightarrow> uint \<Rightarrow> uchar list" where
  "udigits 0 base x = []"
| "udigits (Suc n) base x =
     udigit (x mod base) # (if x div base \<noteq> 0 then udigits n base (x div base) else [])"

definition uprintint :: "uint \<Rightarrow> uint \<Rightarrow> bool \<Rightarrow> uchar list" where
  "uprintint xx base sg =
     (let neg = (sg \<and> xx <s 0);
          x = (if neg then - xx else xx);
          b = udigits 16 base x @ (if neg then [byte (CHR ''-'')] else [])
      in rev b)"

text \<open>
  The loop of printf over the format: \<open>st\<close> says that the last character was a percent sign, \<open>k\<close> is
  the index of the next argument word; \<open>ap\<close> are the argument words on the stack and \<open>str\<close> the
  string at an address.
\<close>

fun printf_loop :: "(uint \<Rightarrow> uchar list) \<Rightarrow> (nat \<Rightarrow> uint) \<Rightarrow> bool \<Rightarrow> nat \<Rightarrow> string \<Rightarrow> uchar list" where
  "printf_loop str ap st k [] = []"
| "printf_loop str ap False k (c # fmt) =
     (if c = CHR ''%'' then printf_loop str ap True k fmt
      else byte c # printf_loop str ap False k fmt)"
| "printf_loop str ap True k (c # fmt) =
     (if c = CHR ''d'' then uprintint (ap k) 10 True @ printf_loop str ap False (k + 1) fmt
      else if c = CHR ''x'' \<or> c = CHR ''p'' then uprintint (ap k) 16 False @ printf_loop str ap False (k + 1) fmt
      else if c = CHR ''s''
      then (if ap k = 0 then map byte ''(null)'' else str (ap k)) @ printf_loop str ap False (k + 1) fmt
      else if c = CHR ''c'' then ucast (ap k) # printf_loop str ap False (k + 1) fmt
      else if c = CHR ''%'' then byte c # printf_loop str ap False k fmt
      else byte (CHR ''%'') # byte c # printf_loop str ap False k fmt)"

definition printf :: "(uint \<Rightarrow> uchar list) \<Rightarrow> string \<Rightarrow> (nat \<Rightarrow> uint) \<Rightarrow> uchar list" where
  "printf str fmt ap = printf_loop str ap False 0 fmt"

subsection \<open>The number parser of time.c\<close>

text \<open>The second loop of toint, on the bytes from the last to the first; chars are signed.\<close>

fun toint_loop :: "uchar list \<Rightarrow> uint \<Rightarrow> uint \<Rightarrow> uint" where
  "toint_loop [] ans ex = ans"
| "toint_loop (x # xs) ans ex = toint_loop xs (ans + (scast x - 48) * ex) (ex * 10)"

definition toint :: "uchar list \<Rightarrow> uint" where
  "toint str = toint_loop (rev str) 0 1"

subsection \<open>Printing and parsing numbers\<close>

lemma udigit_value: "d < 10 \<Longrightarrow> scast (udigit d) - 48 = (d :: uint)"
proof -
  assume "d < 10"
  then have "unat d < 10" by (simp add: word_less_nat_alt)
  then have "unat d \<in> {0, 1, 2, 3, 4, 5, 6, 7, 8, 9}" by auto
  then have "(word_of_nat (unat d) :: uint) \<in> word_of_nat ` {0, 1, 2, 3, 4, 5, 6, 7, 8, 9}" by (rule imageI)
  then have "d \<in> {0, 1, 2, 3, 4, 5, 6, 7, 8, 9}" by simp
  then show ?thesis by (auto simp: udigit_def byte_def)
qed

lemma toint_digits: "unat x < 10 ^ n \<Longrightarrow> 0 < n \<Longrightarrow> toint_loop (udigits n 10 x) ans ex = ans + x * ex"
proof (induction n arbitrary: x ans ex)
  case (Suc n)
  have d: "scast (udigit (x mod 10)) - 48 = x mod 10" by (rule udigit_value) (simp add: word_mod_less_divisor)
  have e: "x = 10 * (x div 10) + x mod 10" using mult_div_mod_eq[of 10 x] by simp
  show ?case
  proof (cases "x div 10 = 0")
    case True
    then have "x mod 10 = x" using e by simp
    then show ?thesis using True d by simp
  next
    case False
    then have "unat (x div 10) \<noteq> 0" using unat_eq_iff[of "x div 10" 0] by simp
    then have "0 < n" using Suc.prems(1) by (cases n) (auto simp: unat_div)
    moreover have "unat (x div 10) < 10 ^ n" using Suc.prems(1) by (simp add: unat_div less_mult_imp_div_less mult.commute)
    ultimately have "toint_loop (udigits (Suc n) 10 x) ans ex = ans + (x mod 10) * ex + (x div 10) * (ex * 10)"
      using Suc.IH False d by simp
    also have "\<dots> = ans + (10 * (x div 10) + x mod 10) * ex" by (simp add: algebra_simps)
    finally show ?thesis using e by simp
  qed
qed simp

text \<open>C40: Printing and parsing numbers are inverse: what printf writes for \<open>%d\<close> of a non-negative int, toint
  of time.c reads back as the same number, over the whole range of the type.\<close>

theorem printf_toint_roundtrip:
  assumes "0 \<le>s ap 0"
  shows "toint (printf str ''%d'' ap) = ap 0"
proof -
  have "unat (ap 0) < 10 ^ 16" using unat_lt32[of "ap 0"] by simp
  moreover have "\<not> ap 0 <s 0" using assms by (simp add: word_sless_alt word_sle_eq)
  ultimately show ?thesis using toint_digits[of "ap 0" 16 0 1] by (simp add: toint_def printf_def uprintint_def del: udigits.simps)
qed

theorem printf_toint_roundtrip_witness: "toint (printf (\<lambda>_. []) ''%d'' (\<lambda>_. 2147483647)) = 2147483647"
  by (rule printf_toint_roundtrip) (simp add: word_sle_eq)

end
