(* ===== verification/Textutil.thy ===== *)
theory Textutil
  imports Ulib
begin

text \<open>
  The user programs grep.c and wc.c, with their input as chunks and strings as byte lists.  The
  matcher is compared with the language of its patterns, and the line loop of grep with the
  filter it stands for.  A \<open>main\<close> gets its files through the parameter \<open>op\<close>: what opening the path at
  an address delivers, or \<open>None\<close> when open fails.
\<close>

subsection \<open>The matcher of grep\<close>

function matchhere :: "uchar list \<Rightarrow> uchar list \<Rightarrow> bool"
  and matchstar :: "uchar \<Rightarrow> uchar list \<Rightarrow> uchar list \<Rightarrow> bool" where
  "matchhere re text =
     (if re = [] then True
      else if tl re \<noteq> [] \<and> hd (tl re) = 42 then matchstar (hd re) (tl (tl re)) text
      else if hd re = 36 \<and> tl re = [] then text = []
      else if text \<noteq> [] \<and> (hd re = 46 \<or> hd re = hd text) then matchhere (tl re) (tl text)
      else False)"
| "matchstar c re text =
     (if matchhere re text then True
      else if text \<noteq> [] \<and> (hd text = c \<or> c = 46) then matchstar c re (tl text)
      else False)"
  by pat_completeness auto
termination
  by (relation "inv_image (less_than <*lex*> less_than <*lex*> less_than)
       (\<lambda>x. case x of Inl (re, t) \<Rightarrow> (length re, length t, 0) | Inr (c, re, t) \<Rightarrow> (length re, length t, 1))") auto

declare matchhere.simps [simp del] matchstar.simps [simp del]

fun match_from :: "uchar list \<Rightarrow> uchar list \<Rightarrow> bool" where
  "match_from re [] = matchhere re []"
| "match_from re (x # xs) = (if matchhere re (x # xs) then True else match_from re xs)"

definition match :: "uchar list \<Rightarrow> uchar list \<Rightarrow> bool" where
  "match re text = (if re \<noteq> [] \<and> hd re = 94 then matchhere (tl re) text else match_from re text)"

subsection \<open>The lines of grep\<close>

text \<open>strchr(p, newline) on a buffer with a NUL after its last byte.\<close>

fun nl_index :: "uchar list \<Rightarrow> nat option" where
  "nl_index [] = None"
| "nl_index (x # xs) = (if x = 0 then None else if x = 10 then Some 0 else map_option Suc (nl_index xs))"

lemma nl_index_less: "nl_index p = Some i \<Longrightarrow> i < length p"
  by (induction p arbitrary: i) (auto split: if_splits)

text \<open>The inner loop of grep: what it writes for the complete lines at \<open>p\<close>, and the bytes left.\<close>

function grep_lines :: "uchar list \<Rightarrow> uchar list \<Rightarrow> uchar list \<times> uchar list" where
  "grep_lines pattern p =
     (case nl_index p of None \<Rightarrow> ([], p)
      | Some i \<Rightarrow> let (out, rest) = grep_lines pattern (drop (i + 1) p)
                 in ((if match pattern (take i p) then take (i + 1) p else []) @ out, rest))"
  by pat_completeness auto
termination by (relation "measure (\<lambda>(_, p). length p)") (auto dest: nl_index_less)

declare grep_lines.simps [simp del]

definition GREPBUF :: nat where "GREPBUF = 1024"

text \<open>grep() with the \<open>m\<close> bytes already in its buffer as a list; the result is what it writes.\<close>

function grep :: "uchar list \<Rightarrow> uchar list \<Rightarrow> uchar list list \<Rightarrow> uchar list" where
  "grep pattern b inp =
     (let (r, inp') = chunk_read (GREPBUF - length b - 1) inp
      in if r = [] then []
         else let p = b @ r;
                  (out, rest) = grep_lines pattern p
              in out @ grep pattern (if length rest = length p then [] else rest) inp')"
  by pat_completeness auto
termination
  by (relation "measure (\<lambda>(_, _, inp). length (concat inp))") (auto dest: chunk_read_shrinks[OF sym])

declare grep.simps [simp del]

subsection \<open>wc\<close>

text \<open>The counters of wc: lines, words, characters (32-bit integers) and inword.\<close>

type_synonym wc_state = "uint \<times> uint \<times> uint \<times> bool"

fun wc_bytes :: "uchar list \<Rightarrow> wc_state \<Rightarrow> wc_state" where
  "wc_bytes [] st = st"
| "wc_bytes (x # xs) (l, w, c, inword) =
     (let c = c + 1;
          l = (if x = 10 then l + 1 else l)
      in if x \<in> {32, 13, 9, 10, 11} then wc_bytes xs (l, w, c, False)
         else if \<not> inword then wc_bytes xs (l, w + 1, c, True)
         else wc_bytes xs (l, w, c, inword))"

definition WCBUF :: nat where "WCBUF = 512"

function wc_loop :: "wc_state \<Rightarrow> uchar list list \<Rightarrow> wc_state" where
  "wc_loop st inp =
     (let (r, inp') = chunk_read WCBUF inp
      in if r = [] then st else wc_loop (wc_bytes r st) inp')"
  by pat_completeness auto
termination
  by (relation "measure (\<lambda>(_, inp). length (concat inp))") (auto dest: chunk_read_shrinks[OF sym])

declare wc_loop.simps [simp del]

definition wc :: "(uint \<Rightarrow> uchar list) \<Rightarrow> uchar list list \<Rightarrow> uint \<Rightarrow> uchar list" where
  "wc str inp name =
     (let (l, w, c, inword) = wc_loop (0, 0, 0, False) inp
      in printf str (''%d %d %d %s'' @ [CHR 0x0A]) (\<lambda>k. [l, w, c, name] ! k))"

fun wc_files :: "(uint \<Rightarrow> uchar list) \<Rightarrow> (uint \<Rightarrow> uchar list list option) \<Rightarrow> uint list \<Rightarrow> uchar list" where
  "wc_files str op [] = []"
| "wc_files str op (a # as) =
     (case op a of
        None \<Rightarrow> printf str (''wc: cannot open %s'' @ [CHR 0x0A]) (\<lambda>_. a)
      | Some inp \<Rightarrow> wc str inp a @ wc_files str op as)"

definition wc_main ::
  "(uint \<Rightarrow> uchar list) \<Rightarrow> (uint \<Rightarrow> uchar list list option) \<Rightarrow> uchar list list \<Rightarrow> uint \<Rightarrow> uint list \<Rightarrow> uchar list" where
  "wc_main str op stdin noname args = (if args = [] then wc str stdin noname else wc_files str op args)"

subsection \<open>main of grep\<close>

text \<open>The writes of the program: the descriptor and the bytes.\<close>

fun grep_files :: "(uint \<Rightarrow> uchar list) \<Rightarrow> (uint \<Rightarrow> uchar list list option) \<Rightarrow> uchar list \<Rightarrow> uint list \<Rightarrow> (nat \<times> uchar list) list" where
  "grep_files str op pattern [] = []"
| "grep_files str op pattern (a # as) =
     (case op a of
        None \<Rightarrow> [(1, printf str (''grep: cannot open %s'' @ [CHR 0x0A]) (\<lambda>_. a))]
      | Some inp \<Rightarrow> (1, grep pattern [] inp) # grep_files str op pattern as)"

definition grep_main ::
  "(uint \<Rightarrow> uchar list) \<Rightarrow> (uint \<Rightarrow> uchar list list option) \<Rightarrow> uchar list list \<Rightarrow> uint list \<Rightarrow> (nat \<times> uchar list) list" where
  "grep_main str op stdin args =
     (case args of
        [] \<Rightarrow> [(2, printf str (''usage: grep pattern [file ...]'' @ [CHR 0x0A]) (\<lambda>_. 0))]
      | pattern # files \<Rightarrow>
          if files = [] then [(1, grep (str pattern) [] stdin)]
          else grep_files str op (str pattern) files)"

subsection \<open>The language of a pattern\<close>

text \<open>
  A pattern is a sequence of character classes, each taken once or any number of times, with
  an optional anchor at either end.
\<close>

datatype item = One "uchar set" | Many "uchar set"

definition cls :: "uchar \<Rightarrow> uchar set" where
  "cls r = (if r = 46 then UNIV else {r})"

fun items :: "uchar list \<Rightarrow> item list" where
  "items [] = []"
| "items [r] = (if r = 36 then [] else [One (cls r)])"
| "items (r # x # re) = (if x = 42 then Many (cls r) # items re else One (cls r) # items (x # re))"

fun at_end :: "uchar list \<Rightarrow> bool" where
  "at_end [] = False"
| "at_end [r] = (r = 36)"
| "at_end (r # x # re) = (if x = 42 then at_end re else at_end (x # re))"

fun lang :: "item list \<Rightarrow> uchar list set" where
  "lang [] = {[]}"
| "lang (One k # is) = {x # w | x w. x \<in> k \<and> w \<in> lang is}"
| "lang (Many k # is) = {u @ w | u w. u \<in> lists k \<and> w \<in> lang is}"

definition here :: "uchar list \<Rightarrow> uchar list \<Rightarrow> bool" where
  "here re t \<longleftrightarrow> (\<exists>v w. t = v @ w \<and> v \<in> lang (items re) \<and> (at_end re \<longrightarrow> w = []))"

lemma here_Nil: "here [] t"
  by (auto simp: here_def)

lemma here_dollar: "here [36] t \<longleftrightarrow> t = []"
  by (auto simp: here_def)

lemma here_one:
  assumes "re \<noteq> [] \<Longrightarrow> hd re \<noteq> 42" "re \<noteq> [] \<or> r \<noteq> 36"
  shows "here (r # re) t \<longleftrightarrow> t \<noteq> [] \<and> hd t \<in> cls r \<and> here re (tl t)"
proof -
  have "items (r # re) = One (cls r) # items re" "at_end (r # re) = at_end re"
    using assms by (cases re; auto)+
  then have "here (r # re) t \<longleftrightarrow> (\<exists>x v w. t = x # v @ w \<and> x \<in> cls r \<and> v \<in> lang (items re) \<and> (at_end re \<longrightarrow> w = []))"
    unfolding here_def by simp (metis append_Cons)
  then show ?thesis unfolding here_def by (cases t) auto
qed

lemma append_regroup:
  "(\<exists>v w. t = v @ w \<and> (\<exists>u x. v = u @ x \<and> P u \<and> Q x) \<and> R w) \<longleftrightarrow>
   (\<exists>u s. t = u @ s \<and> P u \<and> (\<exists>x w. s = x @ w \<and> Q x \<and> R w))"
proof
  assume "\<exists>v w. t = v @ w \<and> (\<exists>u x. v = u @ x \<and> P u \<and> Q x) \<and> R w"
  then obtain u x w where "t = u @ x @ w" "P u" "Q x" "R w" by auto
  then show "\<exists>u s. t = u @ s \<and> P u \<and> (\<exists>x w. s = x @ w \<and> Q x \<and> R w)" by blast
next
  assume "\<exists>u s. t = u @ s \<and> P u \<and> (\<exists>x w. s = x @ w \<and> Q x \<and> R w)"
  then obtain u x w where "t = (u @ x) @ w" "P u" "Q x" "R w" by auto
  then show "\<exists>v w. t = v @ w \<and> (\<exists>u x. v = u @ x \<and> P u \<and> Q x) \<and> R w" by blast
qed

lemma append_step:
  "(\<exists>u s. x # xs = u @ s \<and> u \<in> lists k \<and> P s) \<longleftrightarrow> P (x # xs) \<or> x \<in> k \<and> (\<exists>u s. xs = u @ s \<and> u \<in> lists k \<and> P s)"
  (is "?l \<longleftrightarrow> ?a \<or> ?b")
proof
  assume ?l
  then obtain u s where u: "x # xs = u @ s" "u \<in> lists k" "P s" by blast
  then show "?a \<or> ?b" by (cases u) auto
next
  have "?l" if ?a using that by (intro exI[of _ "[]"] exI[of _ "x # xs"]) simp
  moreover have "?l" if ?b
  proof -
    from that obtain u s where "xs = u @ s" "u \<in> lists k" "P s" "x \<in> k" by blast
    then show ?l by (intro exI[of _ "x # u"] exI[of _ s]) simp
  qed
  ultimately show "?a \<or> ?b \<Longrightarrow> ?l" by blast
qed

lemma here_many: "here (r # 42 # re) t \<longleftrightarrow> here re t \<or> (t \<noteq> [] \<and> hd t \<in> cls r \<and> here (r # 42 # re) (tl t))"
proof (cases t)
  case Nil
  then show ?thesis by (auto simp: here_def)
next
  case (Cons x xs)
  have "here (r # 42 # re) t \<longleftrightarrow> (\<exists>u s. t = u @ s \<and> u \<in> lists (cls r) \<and> here re s)" for t
    unfolding here_def items.simps at_end.simps lang.simps if_True simp_thms mem_Collect_eq by (rule append_regroup)
  then show ?thesis by (simp only: Cons append_step list.sel) simp
qed

lemma match_here:
  "matchhere re t \<longleftrightarrow> here re t" "matchstar c re t \<longleftrightarrow> here (c # 42 # re) t"
proof (induction re t and c re t rule: matchhere_matchstar.induct)
  case (1 re t)
  show ?case
  proof (cases re)
    case Nil
    then show ?thesis by (subst matchhere.simps) (simp add: here_Nil)
  next
    case re: (Cons r rs)
    consider "rs \<noteq> [] \<and> hd rs = 42" | "r = 36 \<and> rs = []" | "\<not> (rs \<noteq> [] \<and> hd rs = 42)" "\<not> (r = 36 \<and> rs = [])" by blast
    then show ?thesis
    proof cases
      case 1
      then have "rs = 42 # tl rs" by (cases rs) auto
      then show ?thesis using "1.IH"(1) 1 re by (subst matchhere.simps) simp
    next
      case 2
      then show ?thesis by (subst matchhere.simps) (simp add: re here_dollar)
    next
      case 3
      then have h: "here re t \<longleftrightarrow> t \<noteq> [] \<and> hd t \<in> cls r \<and> here rs (tl t)" using here_one[of rs r t] re by blast
      show ?thesis using "1.IH"(2) 3 by (subst matchhere.simps, subst h) (auto simp: re cls_def split: if_splits)
    qed
  qed
next
  case (2 c re t)
  then show ?case by (subst matchstar.simps, subst here_many) (auto simp: cls_def split: if_splits)
qed

text \<open>C37: The matcher of grep is right and total: on every pattern and every text it answers whether some
  part of the text is in the language of the pattern, where a caret pins that part to the beginning and a
  final dollar pins it to the end; a dot stands for any character and a star for any number of the one before it.\<close>

theorem match_language:
  "match re t \<longleftrightarrow>
     (let anchored = (re \<noteq> [] \<and> hd re = 94); body = (if anchored then tl re else re)
      in \<exists>u v w. t = u @ v @ w \<and> v \<in> lang (items body) \<and> (anchored \<longrightarrow> u = []) \<and> (at_end body \<longrightarrow> w = []))"
proof -
  have f: "match_from re t \<longleftrightarrow> (\<exists>u s. t = u @ s \<and> here re s)" for re t
  proof (induction t)
    case (Cons x xs)
    then show ?case using append_step[of x xs UNIV "here re"] by (simp add: match_here)
  qed (simp add: match_here)
  show ?thesis by (auto simp: match_def f match_here(1) here_def Let_def)
qed

theorem match_language_witness: "match [94, 97, 98, 42, 36] [97, 98, 98]"
proof -
  have "[98, 98] \<in> lang (items [98, 42, 36])" by (auto simp: cls_def)
  then have "[97, 98, 98] \<in> lang (items [97, 98, 42, 36])" by (simp add: cls_def)
  then show ?thesis unfolding match_language Let_def
    by (intro exI[of _ "[]"] exI[of _ "[97, 98, 98]"]) (simp del: items.simps(3))
qed

subsection \<open>The lines of a text\<close>

function complete_lines :: "uchar list \<Rightarrow> uchar list list" where
  "complete_lines t =
     (if 10 \<in> set t then takeWhile (\<lambda>x. x \<noteq> 10) t # complete_lines (tl (dropWhile (\<lambda>x. x \<noteq> 10) t)) else [])"
  by pat_completeness auto
termination
proof (relation "measure length")
  fix t :: "uchar list" assume "10 \<in> set t"
  then have "dropWhile (\<lambda>x. x \<noteq> 10) t \<noteq> []" by (simp add: dropWhile_eq_Nil_conv)
  then have "length (tl (dropWhile (\<lambda>x. x \<noteq> 10) t)) < length (dropWhile (\<lambda>x. x \<noteq> 10) t)" by simp
  also have "\<dots> \<le> length t" by (rule length_dropWhile_le)
  finally show "(tl (dropWhile (\<lambda>x. x \<noteq> 10) t), t) \<in> measure length" by simp
qed simp

declare complete_lines.simps [simp del]

definition last_part :: "uchar list \<Rightarrow> uchar list" where
  "last_part t = rev (takeWhile (\<lambda>x. x \<noteq> 10) (rev t))"

lemma complete_lines_none [simp]: "10 \<notin> set t \<Longrightarrow> complete_lines t = []"
  by (subst complete_lines.simps) simp

lemma complete_lines_line [simp]:
  assumes "10 \<notin> set l"
  shows "complete_lines (l @ 10 # t) = l # complete_lines t"
proof -
  have "takeWhile (\<lambda>x. x \<noteq> 10) (l @ 10 # t) = l" "dropWhile (\<lambda>x. x \<noteq> 10) (l @ 10 # t) = 10 # t"
    using assms by (simp_all add: takeWhile_append dropWhile_append)
  then show ?thesis by (subst complete_lines.simps) simp
qed

lemma last_part_none [simp]: "10 \<notin> set t \<Longrightarrow> last_part t = t"
proof -
  assume "10 \<notin> set t"
  then have "takeWhile (\<lambda>x. x \<noteq> 10) (rev t) = rev t" by (subst takeWhile_eq_all_conv) auto
  then show ?thesis unfolding last_part_def by (simp only: rev_rev_ident)
qed

lemma last_part_line [simp]: "last_part (l @ 10 # t) = last_part t"
proof (cases "10 \<in> set t")
  case False
  then have "last_part (l @ 10 # t) = t" by (auto simp: last_part_def takeWhile_append)
  then show ?thesis using False by simp
qed (auto simp: last_part_def takeWhile_append)

lemma last_part_set [simp]: "10 \<notin> set (last_part t)" "set (last_part t) \<subseteq> set t"
  by (auto simp: last_part_def dest: set_takeWhileD)

lemma last_part_length: "10 \<in> set t \<Longrightarrow> length (last_part t) < length t"
proof -
  assume t: "10 \<in> set t"
  have "length (last_part t) \<le> length t" by (simp add: last_part_def) (metis length_rev length_takeWhile_le)
  moreover have "length (last_part t) \<noteq> length t"
  proof
    assume "length (last_part t) = length t"
    then have "takeWhile (\<lambda>x. x \<noteq> 10) (rev t) = rev t" by (metis last_part_def length_rev takeWhile_eq_take take_all order_refl)
    then have "\<forall>x \<in> set (rev t). x \<noteq> 10" by (subst takeWhile_eq_all_conv[symmetric])
    then show False using t by auto
  qed
  ultimately show ?thesis by simp
qed

lemma first_line:
  assumes "(10 :: uchar) \<in> set t"
  obtains l r where "t = l @ 10 # r" "10 \<notin> set l"
  using split_list_first[OF assms] by blast

lemma complete_lines_append:
  "complete_lines (s @ t) = complete_lines s @ complete_lines (last_part s @ t)"
proof (induction s rule: length_induct)
  case (1 s)
  show ?case
  proof (cases "10 \<in> set s")
    case True
    then obtain l r where "s = l @ 10 # r" "10 \<notin> set l" by (rule first_line)
    then show ?thesis using 1 by simp
  qed simp
qed

lemma nl_index_line: "10 \<notin> set l \<Longrightarrow> 0 \<notin> set l \<Longrightarrow> nl_index (l @ 10 # r) = Some (length l)"
  by (induction l) auto

lemma nl_index_none: "10 \<notin> set l \<Longrightarrow> nl_index l = None"
  by (induction l) auto

text \<open>What grep is to write.\<close>

definition grep_filter :: "uchar list \<Rightarrow> uchar list list \<Rightarrow> uchar list" where
  "grep_filter pattern ls = concat (map (\<lambda>l. l @ [10]) (filter (match pattern) ls))"

lemma grep_filter_simps [simp]:
  "grep_filter p [] = []" "grep_filter p (l # ls) = (if match p l then l @ [10] else []) @ grep_filter p ls"
  "grep_filter p (ls @ ls') = grep_filter p ls @ grep_filter p ls'"
  by (simp_all add: grep_filter_def)

lemma grep_lines_filter:
  "0 \<notin> set t \<Longrightarrow> grep_lines pattern t = (grep_filter pattern (complete_lines t), last_part t)"
proof (induction t rule: length_induct)
  case (1 t)
  show ?case
  proof (cases "10 \<in> set t")
    case True
    then obtain l r where t: "t = l @ 10 # r" "10 \<notin> set l" by (rule first_line)
    then have "nl_index t = Some (length l)" "grep_lines pattern r = (grep_filter pattern (complete_lines r), last_part r)"
      using nl_index_line[of l r] 1 by auto
    then show ?thesis using t by (subst grep_lines.simps) simp
  next
    case False
    then show ?thesis by (subst grep_lines.simps) (simp add: nl_index_none)
  qed
qed

lemma grep_file:
  assumes "10 \<notin> set b" "length b < 1023" "0 \<notin> set (b @ x)" "\<forall>l \<in> set (complete_lines (b @ x)). length l < 1023"
  shows "grep pattern b [x] = grep_filter pattern (complete_lines (b @ x))"
  using assms
proof (induction x arbitrary: b rule: length_induct)
  case (1 x)
  let ?k = "1023 - length b"
  define p where "p = b @ take ?k x"
  have k: "GREPBUF - length b - 1 = ?k" by (simp add: GREPBUF_def)
  have none: "grep pattern c [] = []" for c by (subst grep.simps) simp
  have gl: "grep_lines pattern p = (grep_filter pattern (complete_lines p), last_part p)"
    using 1(4) set_take_subset[of ?k x] by (intro grep_lines_filter) (auto simp: p_def)
  have bx: "b @ x = p @ drop ?k x" by (simp add: p_def)
  have lines: "complete_lines (b @ x) = complete_lines p @ complete_lines (last_part p @ drop ?k x)"
    unfolding bx by (rule complete_lines_append)
  consider "x = []" | "x \<noteq> []" "length x \<le> ?k" | "x \<noteq> []" "?k < length x" "10 \<in> set p" | "x \<noteq> []" "?k < length x" "10 \<notin> set p"
    by fastforce
  then show ?case
  proof cases
    case 1
    then show ?thesis using \<open>10 \<notin> set b\<close> by (subst grep.simps) simp
  next
    case 2
    then have "p = b @ x" by (simp add: p_def)
    then show ?thesis using 2 k none gl by (subst grep.simps) (simp add: Let_def)
  next
    case 3
    note l = last_part_length[OF 3(3)]
    have "length p = 1023" using 3(2) 1(3) by (simp add: p_def)
    with l have l': "length (last_part p) < 1023" by simp
    have z: "0 \<notin> set (last_part p @ drop ?k x)" using 1(4) last_part_set(2)[of p] unfolding bx set_append by blast
    have "length (drop ?k x) < length x" using 3(2) 1(3) by simp
    from 1(1)[rule_format, OF this last_part_set(1) l' z] 1(5) lines
    have "grep pattern (last_part p) [drop ?k x] = grep_filter pattern (complete_lines (last_part p @ drop ?k x))" by simp
    then show ?thesis using 3 1(3) k gl lines l by (subst grep.simps) (simp add: Let_def flip: p_def)
  next
    case 4
    have p: "length p = 1023" using 4(2) 1(3) by (simp add: p_def)
    have no: "10 \<notin> set (b @ x)"
    proof
      assume "10 \<in> set (b @ x)"
      then obtain l r where lr: "b @ x = l @ 10 # r" "10 \<notin> set l" by (rule first_line)
      then have "length l < 1023" using 1(5) by simp
      then have "(b @ x) ! length l \<in> set p" using p bx by (metis nth_append nth_mem)
      then show False using lr 4(3) by simp
    qed
    have "length (drop ?k x) < length x" using 4(2) 1(3) by simp
    moreover have "0 \<notin> set ([] @ drop ?k x)" "10 \<notin> set (drop ?k x)" using 1(4) no set_drop_subset[of ?k x] by auto
    ultimately have "grep pattern [] [drop ?k x] = []" using 1(1)[rule_format, of "drop ?k x" "[]"] by simp
    then show ?thesis using 4 1(3) k gl no by (subst grep.simps) (simp add: Let_def flip: p_def)
  qed
qed

text \<open>C38: grep on a file: when no line has more than 1022 bytes and the file has no NUL byte, grep writes exactly
  the lines that match the pattern, each once, in their order and with their newlines, however the lines lie across
  its reads into the 1024-byte buffer.  A last line without newline is never written.\<close>

theorem grep_filters_lines:
  assumes "0 \<notin> set input" "\<forall>l \<in> set (complete_lines input). length l \<le> 1022"
  shows "grep pattern [] [input] = concat (map (\<lambda>l. l @ [10]) (filter (match pattern) (complete_lines input)))"
  using grep_file[of "[]" input "pattern"] assms by (force simp: grep_filter_def)

theorem grep_filters_lines_witness:
  "grep [98] [] [[97, 98, 10, 97, 10, 98, 10, 98]] = [97, 98, 10, 98, 10]"
proof -
  have c: "complete_lines [97, 98, 10, 97, 10, 98, 10, 98] = [[97, 98], [97], [98]]"
    by (simp add: complete_lines.simps[of "_ # _"])
  have m: "match [98] [97, 98]" "\<not> match [98] [97]" "match [98] [98]"
    by (simp_all add: match_def matchhere.simps[of "_ # _"] matchhere.simps[of "[]"])
  show ?thesis by (subst grep_filters_lines) (simp_all add: c m)
qed

text \<open>
  A line that reaches grep in two reads before its newline is seen is cut: the first part is thrown
  away when the buffer holds no newline.  Here \<open>he\<close> and \<open>llo\<close> arrive separately, as from a pipe.
\<close>

lemma grep_loses_split_line:
  "grep [104] [] [[104, 101], [108, 108, 111, 10]] = []" "grep [104] [] [[104, 101, 108, 108, 111, 10]] = [104, 101, 108, 108, 111, 10]"
  by (simp_all add: grep.simps grep_lines.simps GREPBUF_def match_def matchhere.simps)

subsection \<open>Counting\<close>

definition blank :: "uchar \<Rightarrow> bool" where
  "blank x \<longleftrightarrow> x \<in> {32, 13, 9, 10, 11}"

text \<open>The places of a text where a word starts, after a character that is in a word or not.\<close>

definition word_starts :: "bool \<Rightarrow> uchar list \<Rightarrow> nat set" where
  "word_starts b t = {i. i < length t \<and> \<not> blank (t ! i) \<and> (if i = 0 then \<not> b else blank (t ! (i - 1)))}"

lemma word_starts_Nil [simp]: "word_starts b [] = {}"
  by (simp add: word_starts_def)

lemma word_starts_Cons:
  "card (word_starts b (x # t)) = (if blank x then card (word_starts False t) else of_bool (\<not> b) + card (word_starts True t))"
proof -
  have "word_starts b (x # t) = (if \<not> blank x \<and> \<not> b then {0} else {}) \<union> Suc ` word_starts (\<not> blank x) t"
  proof (rule set_eqI)
    fix i
    show "i \<in> word_starts b (x # t) \<longleftrightarrow> i \<in> (if \<not> blank x \<and> \<not> b then {0} else {}) \<union> Suc ` word_starts (\<not> blank x) t"
      by (cases i; cases "i - 1") (auto simp: word_starts_def image_iff)
  qed
  moreover have "finite (word_starts b t)" for b by (simp add: word_starts_def)
  ultimately show ?thesis by (auto simp: card_image card_insert_if)
qed

lemma wc_bytes_counts:
  "wc_bytes t (l, w, c, b) =
     (l + of_nat (count_list t 10), w + of_nat (card (word_starts b t)), c + of_nat (length t),
      if t = [] then b else \<not> blank (last t))"
proof (induction t arbitrary: l w c b)
  case Nil
  then show ?case by simp
next
  case (Cons x t)
  show ?case by (auto simp: Cons Let_def word_starts_Cons blank_def)
qed

lemma wc_bytes_append: "wc_bytes (s @ t) st = wc_bytes t (wc_bytes s st)"
  by (induction s st rule: wc_bytes.induct) (simp_all add: Let_def)

lemma wc_loop_concat: "[] \<notin> set inp \<Longrightarrow> wc_loop st inp = wc_bytes (concat inp) st"
proof (induction st inp rule: wc_loop.induct)
  case (1 st inp)
  obtain r inp' where r: "chunk_read WCBUF inp = (r, inp')" by (cases "chunk_read WCBUF inp")
  have "[] \<notin> set inp'" using r 1(2) by (cases inp) (auto split: if_splits)
  moreover have "r = [] \<Longrightarrow> concat inp = []" using r 1(2) by (cases inp) (auto simp: WCBUF_def split: if_splits)
  ultimately show ?case using 1(1) r chunk_read_concat[OF r]
    by (subst wc_loop.simps) (auto simp: wc_bytes_append[of r] simp del: concat_eq_Nil_conv)
qed

text \<open>C39: wc counts what it says: for input in any number of pieces the three numbers printed are, modulo the
  32 bits of an int, the newlines, the word beginnings and the bytes of the whole text; how the text is cut into reads
  makes no difference.\<close>

theorem wc_counts:
  assumes "[] \<notin> set inp"
  defines "t \<equiv> concat inp"
  shows "wc str inp name = printf str (''%d %d %d %s'' @ [CHR 0x0A])
     (\<lambda>k. [of_nat (count_list t 10),
           of_nat (card {i. i < length t \<and> \<not> blank (t ! i) \<and> (i = 0 \<or> blank (t ! (i - 1)))}),
           of_nat (length t), name] ! k)"
proof -
  have "word_starts False t = {i. i < length t \<and> \<not> blank (t ! i) \<and> (i = 0 \<or> blank (t ! (i - 1)))}"
    by (auto simp: word_starts_def)
  then show ?thesis using wc_loop_concat[OF assms(1)] by (simp add: wc_def wc_bytes_counts t_def)
qed

theorem wc_counts_witness:
  "wc (\<lambda>_. []) [[97, 98], [32, 99, 10]] 4096 = printf (\<lambda>_. []) (''%d %d %d %s'' @ [CHR 0x0A]) (\<lambda>k. [1, 2, 5, 4096] ! k)"
proof -
  have "{i. i < length t \<and> \<not> blank (t ! i) \<and> (i = 0 \<or> blank (t ! (i - 1)))} = word_starts False t" for t
    by (auto simp: word_starts_def)
  moreover have "card (word_starts False [97, 98, 32, 99, 10]) = 2" by (simp add: word_starts_Cons blank_def)
  ultimately show ?thesis by (subst wc_counts) (simp, simp only:, simp)
qed

end
