(* ===== verification/Shell.thy ===== *)
theory Shell
  imports Ulib
begin

text \<open>
  The shell sh.c.  The command line is the list \<open>bs\<close> of the bytes before its terminating NUL, and a
  pointer into it is an index; the byte at the end is the NUL.  The parser works on indices like the
  source and stops with the message of its panic.  Its four mutually recursive functions take a bound on
  the depth of their calls; the depth \<open>parse_depth\<close> is enough for every line.  A command is run as the list
  of the system calls of its process, with the calls of a child inside its fork.
\<close>

subsection \<open>Commands\<close>

text \<open>A string of a command is the pair of the pointers to its first byte and behind its last.\<close>

datatype cmd =
    EXEC "(nat \<times> nat) list"
  | REDIR cmd "nat \<times> nat" uint int
  | PIPE cmd cmd
  | LIST cmd cmd
  | BACK cmd

definition MAXARGS :: nat where "MAXARGS = 10"
definition sh_RDONLY :: uint where "sh_RDONLY = 0"
definition sh_WRCREATE :: uint where "sh_WRCREATE = 0x001 OR 0x200"

subsection \<open>Tokens\<close>

definition at :: "uchar list \<Rightarrow> nat \<Rightarrow> uchar" where
  "at bs s = (if s < length bs then bs ! s else 0)"

definition whitespace :: "uchar list" where "whitespace = [32, 9, 13, 10, 11]"
definition symbols :: "uchar list" where "symbols = [60, 124, 62, 38, 59, 40, 41]"

text \<open>The loops over whitespace and over the bytes of a word; \<open>n\<close> is the distance to the end of the line.\<close>

fun skip_while :: "(uchar \<Rightarrow> bool) \<Rightarrow> uchar list \<Rightarrow> nat \<Rightarrow> nat \<Rightarrow> nat" where
  "skip_while P bs 0 s = s"
| "skip_while P bs (Suc n) s = (if P (at bs s) then skip_while P bs n (s + 1) else s)"

definition skip_space :: "uchar list \<Rightarrow> nat \<Rightarrow> nat" where
  "skip_space bs s = skip_while (\<lambda>x. x \<in> set whitespace) bs (length bs - s) s"

definition skip_word :: "uchar list \<Rightarrow> nat \<Rightarrow> nat" where
  "skip_word bs s = skip_while (\<lambda>x. x \<notin> set whitespace \<and> x \<notin> set symbols) bs (length bs - s) s"

text \<open>gettoken returns the kind of the token, its two pointers and the place behind it.\<close>

definition gettoken :: "uchar list \<Rightarrow> nat \<Rightarrow> uchar \<times> nat \<times> nat \<times> nat" where
  "gettoken bs s =
     (let s = skip_space bs s;
          q = s;
          (ret, s) =
            (if at bs s = 0 then (0, s)
             else if at bs s \<in> {124, 40, 41, 59, 38, 60} then (at bs s, s + 1)
             else if at bs s = 62 then (if at bs (s + 1) = 62 then (43, s + 2) else (62, s + 1))
             else (97, skip_word bs s))
      in (ret, q, s, skip_space bs s))"

definition peek :: "uchar list \<Rightarrow> uchar list \<Rightarrow> nat \<Rightarrow> bool \<times> nat" where
  "peek toks bs s = (let s = skip_space bs s in (at bs s \<noteq> 0 \<and> at bs s \<in> set toks, s))"

lemma skip_while_ge: "s \<le> skip_while P bs n s"
proof (induction n arbitrary: s)
  case (Suc n)
  from Suc.IH[of "s + 1"] show ?case by simp
qed simp

lemma skip_while_le: "skip_while P bs n s \<le> s + n"
proof (induction n arbitrary: s)
  case (Suc n)
  from Suc.IH[of "s + 1"] show ?case by simp
qed simp

lemma skip_space_bounds: "s \<le> skip_space bs s" "s \<le> length bs \<Longrightarrow> skip_space bs s \<le> length bs"
  using skip_while_ge[of s "\<lambda>x. x \<in> set whitespace" bs "length bs - s"] skip_while_le[of "\<lambda>x. x \<in> set whitespace" bs "length bs - s" s]
  by (auto simp: skip_space_def)

lemma skip_word_bounds: "s \<le> skip_word bs s" "s \<le> length bs \<Longrightarrow> skip_word bs s \<le> length bs"
  using skip_while_ge[of s "\<lambda>x. x \<notin> set whitespace \<and> x \<notin> set symbols" bs "length bs - s"]
    skip_while_le[of "\<lambda>x. x \<notin> set whitespace \<and> x \<notin> set symbols" bs "length bs - s" s]
  by (auto simp: skip_word_def)

lemma skip_while_stop:
  "s + n = length bs \<Longrightarrow> at bs (skip_while P bs n s) = 0 \<or> \<not> P (at bs (skip_while P bs n s))"
proof (induction n arbitrary: s)
  case 0
  then show ?case by (simp add: at_def)
next
  case (Suc n)
  from Suc.IH[of "s + 1"] Suc.prems show ?case by simp
qed

lemma skip_space_stop: "s \<le> length bs \<Longrightarrow> at bs (skip_space bs s) \<notin> set whitespace"
  using skip_while_stop[of s "length bs - s" bs "\<lambda>x. x \<in> set whitespace"] by (auto simp: skip_space_def whitespace_def)

lemma at_nonzero: "at bs s \<noteq> 0 \<Longrightarrow> s < length bs"
  by (simp add: at_def split: if_splits)

lemma skip_word_progress:
  assumes "s < length bs" "at bs s \<notin> set whitespace" "at bs s \<notin> set symbols"
  shows "s < skip_word bs s"
proof -
  obtain n where n: "length bs - s = Suc n" using assms(1) by (metis Suc_diff_Suc)
  then show ?thesis
    using skip_while_ge[of "s + 1" "\<lambda>x. x \<notin> set whitespace \<and> x \<notin> set symbols" bs n] assms by (simp add: skip_word_def)
qed

text \<open>A token lies between its pointers, and every token but the end of the line moves the parser on.\<close>

lemma gettoken_bounds:
  assumes "gettoken bs s = (ret, q, eq, s')" "s \<le> length bs"
  shows "s \<le> q" "q \<le> eq" "eq \<le> s'" "s' \<le> length bs" "ret \<noteq> 0 \<Longrightarrow> q < eq" "ret = 0 \<Longrightarrow> q = length bs \<or> bs ! q = 0"
proof -
  define p where "p = skip_space bs s"
  have p: "s \<le> p" "p \<le> length bs" "at bs p \<notin> set whitespace"
    using skip_space_bounds[of s bs] skip_space_stop[of s bs] assms(2) by (simp_all add: p_def)
  define e where "e = (if at bs p = 0 then p else if at bs p \<in> {124, 40, 41, 59, 38, 60} then p + 1
      else if at bs p = 62 then (if at bs (p + 1) = 62 then p + 2 else p + 1) else skip_word bs p)"
  have q: "q = p" "eq = e" "s' = skip_space bs e" "ret \<noteq> 0 \<longleftrightarrow> at bs p \<noteq> 0"
    using assms(1) by (auto simp: gettoken_def Let_def p_def e_def split: if_splits)
  have w: "p < skip_word bs p" if "at bs p \<noteq> 0" "at bs p \<notin> {124, 40, 41, 59, 38, 60, 62}"
    using that p(3) at_nonzero[of bs p] by (intro skip_word_progress) (auto simp: symbols_def)
  have e: "p \<le> e" "e \<le> length bs" "at bs p \<noteq> 0 \<Longrightarrow> p < e"
    using w skip_word_bounds[of p bs] p(2) at_nonzero[of bs p] at_nonzero[of bs "p + 1"] by (auto simp: e_def)
  show "s \<le> q" "q \<le> eq" "eq \<le> s'" "s' \<le> length bs" "ret \<noteq> 0 \<Longrightarrow> q < eq" using p e q skip_space_bounds[of e bs] by auto
  show "ret = 0 \<Longrightarrow> q = length bs \<or> bs ! q = 0" using q p(2) by (auto simp: at_def split: if_splits)
qed

lemma skip_space_id: "at bs s \<notin> set whitespace \<Longrightarrow> skip_space bs s = s"
  by (cases "length bs - s") (simp_all add: skip_space_def)

lemma peek_bounds:
  assumes "peek toks bs s = (b, s')"
  shows "s \<le> s'" "s \<le> length bs \<Longrightarrow> s' \<le> length bs" "s \<le> length bs \<Longrightarrow> at bs s' \<notin> set whitespace"
  using assms skip_space_bounds[of s bs] skip_space_stop[of s bs] by (auto simp: peek_def Let_def)

lemma peek_true:
  assumes "peek toks bs s = (True, s')"
  shows "s \<le> s'" "s' < length bs" "at bs s' \<in> set toks" "at bs s' \<notin> set whitespace"
proof -
  have "at bs s' \<noteq> 0" "at bs s' \<in> set toks" using assms by (auto simp: peek_def Let_def)
  then show "s' < length bs" "at bs s' \<in> set toks" by (auto dest: at_nonzero)
  then have "s \<le> length bs" using peek_bounds(1)[OF assms] by simp
  then show "s \<le> s'" "at bs s' \<notin> set whitespace" using peek_bounds[OF assms] by simp_all
qed

text \<open>The token after a successful peek is not empty.\<close>

lemma peek_gettoken:
  assumes "peek toks bs s = (True, s1)" "gettoken bs s1 = (ret, q, eq, s2)"
  shows "s < s2" "s2 \<le> length bs" "q = s1" "ret \<noteq> 0"
proof -
  note p = peek_true[OF assms(1)]
  have "at bs s1 \<noteq> 0" using assms(1) by (auto simp: peek_def Let_def)
  then show "ret \<noteq> 0" "q = s1" using assms(2) skip_space_id[OF p(4)] by (auto simp: gettoken_def Let_def split: if_splits)
  then show "s < s2" "s2 \<le> length bs" using gettoken_bounds[OF assms(2)] p by auto
qed

lemma redir_progress:
  assumes "peek toks bs s = (True, s1)" "gettoken bs s1 = (tok, q1, e1, s2)" "gettoken bs s2 = (t, q, eq, s3)"
  shows "s < s3" "s3 \<le> length bs"
  using peek_gettoken[OF assms(1,2)] gettoken_bounds[OF assms(3)] by auto

subsection \<open>The parser\<close>

datatype sh_err = Sh_panic string | Deep

type_synonym redir = "(nat \<times> nat) \<times> uint \<times> int"

definition redircmd :: "redir \<Rightarrow> cmd \<Rightarrow> cmd" where
  "redircmd r c = (case r of (f, mode, fd) \<Rightarrow> REDIR c f mode fd)"

text \<open>
  parseredirs puts redirections around the command it is given; an exec command gets its arguments
  only later, through the pointer to it, so the redirections are returned as a list, the innermost first.
\<close>

function parseredirs :: "uchar list \<Rightarrow> nat \<Rightarrow> sh_err + (redir list \<times> nat)" where
  "parseredirs bs s =
     (let (p, s1) = peek [60, 62] bs s
      in if \<not> p then Inr ([], s1)
         else let (tok, q1, e1, s2) = gettoken bs s1;
                  (t, q, eq, s3) = gettoken bs s2
              in if t \<noteq> 97 then Inl (Sh_panic ''missing file for redirection'')
                 else bindE (parseredirs bs s3) (\<lambda>(rs, s4).
                   Inr ((if tok = 60 then [((q, eq), sh_RDONLY, 0)]
                         else if tok = 62 \<or> tok = 43 then [((q, eq), sh_WRCREATE, 1)]
                         else []) @ rs, s4)))"
  by pat_completeness auto
termination
proof (relation "measure (\<lambda>(bs, s). length bs - s)", goal_cases)
  case (2 bs s x p s1 y tok y1 q1 y2 e1 s2 z t z1 q z2 e s3)
  then have "peek [60, 62] bs s = (True, s1)" "gettoken bs s1 = (tok, q1, e1, s2)" "gettoken bs s2 = (t, q, e, s3)" by auto
  from redir_progress[OF this] show ?case by simp
qed simp

declare parseredirs.simps [simp del]

text \<open>The loop of parseexec over the arguments, with the arguments and redirections so far.\<close>

function parseargs :: "uchar list \<Rightarrow> (nat \<times> nat) list \<Rightarrow> redir list \<Rightarrow> nat \<Rightarrow> sh_err + (cmd \<times> nat)" where
  "parseargs bs argv rs s =
     (let (p, s1) = peek [124, 41, 38, 59] bs s
      in if p then Inr (fold redircmd rs (EXEC argv), s1)
         else let (tok, q, eq, s2) = gettoken bs s1
              in if tok = 0 then Inr (fold redircmd rs (EXEC argv), s2)
                 else if tok \<noteq> 97 then Inl (Sh_panic ''syntax'')
                 else let argv = argv @ [(q, eq)]
                      in if length argv \<ge> MAXARGS then Inl (Sh_panic ''too many args'')
                         else bindE (parseredirs bs s2) (\<lambda>(rs', s3). parseargs bs argv (rs @ rs') s3))"
  by pat_completeness auto
termination
proof (relation "measure (\<lambda>(bs, argv, rs, s). MAXARGS - length argv)", goal_cases)
  case (2 bs argv rs s)
  then show ?case by simp
qed simp

declare parseargs.simps [simp del]

text \<open>The loop of parseline over the ampersands.\<close>

function parsebacks :: "uchar list \<Rightarrow> cmd \<Rightarrow> nat \<Rightarrow> cmd \<times> nat" where
  "parsebacks bs c s =
     (let (p, s1) = peek [38] bs s
      in if \<not> p then (c, s1)
         else let (tok, q, eq, s2) = gettoken bs s1 in parsebacks bs (BACK c) s2)"
  by pat_completeness auto
termination
proof (relation "measure (\<lambda>(bs, c, s). length bs - s)", goal_cases)
  case (2 bs c s x p s1 y tok y1 q y2 e s2)
  then have "peek [38] bs s = (True, s1)" "gettoken bs s1 = (tok, q, e, s2)" by auto
  from peek_gettoken[OF this] show ?case by simp
qed simp

declare parsebacks.simps [simp del]

definition skip_token :: "uchar list \<Rightarrow> nat \<Rightarrow> nat" where
  "skip_token bs s = (case gettoken bs s of (tok, q, eq, s') \<Rightarrow> s')"

fun parseline :: "nat \<Rightarrow> uchar list \<Rightarrow> nat \<Rightarrow> sh_err + (cmd \<times> nat)"
  and parsepipe :: "nat \<Rightarrow> uchar list \<Rightarrow> nat \<Rightarrow> sh_err + (cmd \<times> nat)"
  and parseexec :: "nat \<Rightarrow> uchar list \<Rightarrow> nat \<Rightarrow> sh_err + (cmd \<times> nat)"
  and parseblock :: "nat \<Rightarrow> uchar list \<Rightarrow> nat \<Rightarrow> sh_err + (cmd \<times> nat)" where
  "parseline 0 bs s = Inl Deep"
| "parseline (Suc d) bs s =
     bindE (parsepipe d bs s) (\<lambda>(c, s).
       let (c, s) = parsebacks bs c s;
           (p, s) = peek [59] bs s
       in if p then bindE (parseline d bs (skip_token bs s)) (\<lambda>(r, s). Inr (LIST c r, s))
          else Inr (c, s))"
| "parsepipe 0 bs s = Inl Deep"
| "parsepipe (Suc d) bs s =
     bindE (parseexec d bs s) (\<lambda>(c, s).
       let (p, s) = peek [124] bs s
       in if p then bindE (parsepipe d bs (skip_token bs s)) (\<lambda>(r, s). Inr (PIPE c r, s))
          else Inr (c, s))"
| "parseexec 0 bs s = Inl Deep"
| "parseexec (Suc d) bs s =
     (let (p, s) = peek [40] bs s
      in if p then parseblock d bs s
         else bindE (parseredirs bs s) (\<lambda>(rs, s). parseargs bs [] rs s))"
| "parseblock 0 bs s = Inl Deep"
| "parseblock (Suc d) bs s =
     (let (p, s) = peek [40] bs s
      in if \<not> p then Inl (Sh_panic ''parseblock'')
         else bindE (parseline d bs (skip_token bs s)) (\<lambda>(c, s).
           let (p, s) = peek [41] bs s
           in if \<not> p then Inl (Sh_panic ''syntax - missing )'')
              else bindE (parseredirs bs (skip_token bs s)) (\<lambda>(rs, s). Inr (fold redircmd rs c, s))))"

definition parse_depth :: "uchar list \<Rightarrow> nat" where
  "parse_depth bs = 4 * length bs + 4"

text \<open>The commands of a line, and the line with the strings of the command terminated.\<close>

fun nulterminate :: "cmd \<Rightarrow> uchar list \<Rightarrow> uchar list" where
  "nulterminate (EXEC argv) b = fold (\<lambda>(q, eq) b. b[eq := 0]) argv b"
| "nulterminate (REDIR c f mode fd) b = (nulterminate c b)[snd f := 0]"
| "nulterminate (PIPE l r) b = nulterminate r (nulterminate l b)"
| "nulterminate (LIST l r) b = nulterminate r (nulterminate l b)"
| "nulterminate (BACK c) b = nulterminate c b"

definition parsecmd :: "uchar list \<Rightarrow> sh_err + (cmd \<times> uchar list)" where
  "parsecmd bs =
     bindE (parseline (parse_depth bs) bs 0) (\<lambda>(c, s).
       if snd (peek [] bs s) \<noteq> length bs then Inl (Sh_panic ''syntax'')
       else Inr (c, nulterminate c (bs @ [0])))"

subsection \<open>Running a command\<close>

text \<open>
  The system calls of a process that runs a command.  A process that cannot open a file or make a pipe
  or a child prints a message and exits, and so does one whose exec fails.  \<open>Close_p\<close> and \<open>Dup_p\<close> name an end
  of the pipe the process made: \<open>False\<close> is \<open>p[0]\<close> and \<open>True\<close> is \<open>p[1]\<close>.
\<close>

datatype act =
    Exit
  | Exec "(nat \<times> nat) list"
  | Close int
  | Open "nat \<times> nat" uint
  | Mkpipe
  | Close_p bool
  | Dup_p bool
  | Fork "act list"
  | Wait

fun runcmd :: "cmd \<Rightarrow> act list" where
  "runcmd (EXEC argv) = (if argv = [] then [Exit] else [Exec argv, Exit])"
| "runcmd (REDIR c f mode fd) = [Close fd, Open f mode] @ runcmd c"
| "runcmd (LIST l r) = [Fork (runcmd l), Wait] @ runcmd r"
| "runcmd (PIPE l r) =
     [Mkpipe,
      Fork ([Close 1, Dup_p True, Close_p False, Close_p True] @ runcmd l),
      Fork ([Close 0, Dup_p False, Close_p False, Close_p True] @ runcmd r),
      Close_p False, Close_p True, Wait, Wait, Exit]"
| "runcmd (BACK c) = [Fork (runcmd c), Exit]"

text \<open>What the shell does with a line of input: change its directory, or run the line in a child.\<close>

datatype sh_event = Chdir "uchar list" | Run "uchar list" | Eof

definition getcmd :: "uchar list list \<Rightarrow> uchar list option \<times> uchar list list" where
  "getcmd inp =
     (let (b, inp) = gets 100 inp
      in (if b = [] \<or> hd b = 0 then None else Some (takeWhile (\<lambda>x. x \<noteq> 0) b), inp))"

definition sh_line :: "uchar list \<Rightarrow> sh_event" where
  "sh_line b =
     (if length b \<ge> 3 \<and> b ! 0 = 99 \<and> b ! 1 = 100 \<and> b ! 2 = 32 then Chdir (drop 3 (butlast b)) else Run b)"

lemma gets_loop_concat: "gets_loop n inp = (b, inp') \<Longrightarrow> concat inp = b @ concat inp'"
proof (induction n arbitrary: inp b inp')
  case (Suc n)
  obtain r rest where r: "chunk_read 1 inp = (r, rest)" by (cases "chunk_read 1 inp")
  note c = chunk_read_concat[OF r] chunk_read_length[OF r]
  show ?case
  proof (cases r)
    case Nil
    then show ?thesis using Suc.prems r c by simp
  next
    case (Cons x xs)
    then show ?thesis using Suc r c by (auto split: if_splits prod.splits)
  qed
qed simp

function sh_main :: "uchar list list \<Rightarrow> sh_event list" where
  "sh_main inp =
     (case getcmd inp of
        (None, inp') \<Rightarrow> [Eof]
      | (Some b, inp') \<Rightarrow> sh_line b # sh_main inp')"
  by pat_completeness auto
termination
proof (relation "measure (\<lambda>inp. length (concat inp))", goal_cases)
  case (2 inp o' inp' b)
  then obtain l where l: "gets_loop 99 inp = (l, inp')" "l \<noteq> []"
    by (auto simp: getcmd_def gets_def Let_def split: prod.splits if_splits)
  from gets_loop_concat[OF l(1)] l(2) show ?case by simp
qed simp

declare sh_main.simps [simp del]

subsection \<open>Well-formed commands\<close>

lemma parseredirs_unfold:
  "peek [60, 62] bs s = (False, s1) \<Longrightarrow> parseredirs bs s = Inr ([], s1)"
  "peek [60, 62] bs s = (True, s1) \<Longrightarrow> gettoken bs s1 = (tok, q1, e1, s2) \<Longrightarrow> gettoken bs s2 = (t, q, e, s3) \<Longrightarrow>
   parseredirs bs s = (if t \<noteq> 97 then Inl (Sh_panic ''missing file for redirection'')
     else bindE (parseredirs bs s3) (\<lambda>(rs, s4).
       Inr ((if tok = 60 then [((q, e), sh_RDONLY, 0)] else if tok = 62 \<or> tok = 43 then [((q, e), sh_WRCREATE, 1)] else []) @ rs, s4)))"
  by (subst parseredirs.simps, simp)+

text \<open>What the redirections of a line satisfy: an induction rule that follows the loop of parseredirs.\<close>

lemma parseredirs_rule:
  assumes "parseredirs bs s = Inr (rs, s')" "s \<le> length bs"
    and stop: "\<And>s s1. s \<le> length bs \<Longrightarrow> peek [60, 62] bs s = (False, s1) \<Longrightarrow> P s [] s1"
    and step: "\<And>s s1 tok q1 e1 s2 q e s3 rs s4. s \<le> length bs \<Longrightarrow> peek [60, 62] bs s = (True, s1) \<Longrightarrow>
      gettoken bs s1 = (tok, q1, e1, s2) \<Longrightarrow> gettoken bs s2 = (97, q, e, s3) \<Longrightarrow> s < s3 \<Longrightarrow> s3 \<le> length bs \<Longrightarrow>
      P s3 rs s4 \<Longrightarrow>
      P s ((if tok = 60 then [((q, e), sh_RDONLY, 0)] else if tok = 62 \<or> tok = 43 then [((q, e), sh_WRCREATE, 1)] else []) @ rs) s4"
  shows "P s rs s'"
  using assms(1,2)
proof (induction "length bs - s" arbitrary: s rs s' rule: less_induct)
  case less
  obtain p s1 where p: "peek [60, 62] bs s = (p, s1)" by (cases "peek [60, 62] bs s")
  show ?case
  proof (cases p)
    case False
    then show ?thesis using less.prems p parseredirs_unfold(1)[of bs s s1] stop by simp
  next
    case True
    then have p': "peek [60, 62] bs s = (True, s1)" using p by simp
    obtain tok q1 e1 s2 where g: "gettoken bs s1 = (tok, q1, e1, s2)" by (cases "gettoken bs s1")
    obtain t q e s3 where h: "gettoken bs s2 = (t, q, e, s3)" by (cases "gettoken bs s2")
    note r = redir_progress[OF p' g h]
    obtain rs' where rs': "parseredirs bs s3 = Inr (rs', s')" "t = 97"
      "rs = (if tok = 60 then [((q, e), sh_RDONLY, 0)] else if tok = 62 \<or> tok = 43 then [((q, e), sh_WRCREATE, 1)] else []) @ rs'"
      using less.prems(1) unfolding parseredirs_unfold(2)[OF p' g h] by (auto simp: bindE_eq_Inr split: if_splits)
    have "P s3 rs' s'" using r less.prems(2) by (intro less.hyps[OF _ rs'(1)]) auto
    then show ?thesis unfolding rs'(3) using step[OF less.prems(2) p' g] h rs'(2) r by simp
  qed
qed

text \<open>
  A word of a command is a nonempty stretch of bytes that are neither whitespace nor symbols, and ends
  where such a byte follows or the line ends.  A well-formed command has words only, fewer than
  \<open>MAXARGS\<close> arguments, and redirections of the standard input for reading or of the standard output for
  writing.
\<close>

definition word_byte :: "uchar \<Rightarrow> bool" where
  "word_byte x \<longleftrightarrow> x \<notin> set whitespace \<and> x \<notin> set symbols"

definition is_word :: "uchar list \<Rightarrow> nat \<times> nat \<Rightarrow> bool" where
  "is_word bs w \<longleftrightarrow> fst w < snd w \<and> snd w \<le> length bs \<and> (\<forall>i\<in>{fst w..<snd w}. word_byte (bs ! i)) \<and>
     (snd w < length bs \<longrightarrow> \<not> word_byte (bs ! snd w) \<or> bs ! snd w = 0)"

definition redir_ok :: "uint \<Rightarrow> int \<Rightarrow> bool" where
  "redir_ok mode fd \<longleftrightarrow> mode = sh_RDONLY \<and> fd = 0 \<or> mode = sh_WRCREATE \<and> fd = 1"

fun cmd_ok :: "uchar list \<Rightarrow> cmd \<Rightarrow> bool" where
  "cmd_ok bs (EXEC argv) = (length argv < MAXARGS \<and> list_all (is_word bs) argv)"
| "cmd_ok bs (REDIR c f mode fd) = (cmd_ok bs c \<and> is_word bs f \<and> redir_ok mode fd)"
| "cmd_ok bs (PIPE l r) = (cmd_ok bs l \<and> cmd_ok bs r)"
| "cmd_ok bs (LIST l r) = (cmd_ok bs l \<and> cmd_ok bs r)"
| "cmd_ok bs (BACK c) = cmd_ok bs c"

lemma skip_while_all: "i \<in> {s..<skip_while P bs n s} \<Longrightarrow> P (at bs i)"
proof (induction n arbitrary: s)
  case (Suc n)
  show ?case
  proof (cases "i = s")
    case False
    then show ?thesis using Suc.prems Suc.IH[of "s + 1"] by (simp split: if_splits)
  qed (use Suc.prems in \<open>simp split: if_splits\<close>)
qed simp

lemma gettoken_word:
  assumes "gettoken bs s = (97, q, e, s')" "s \<le> length bs"
  shows "is_word bs (q, e)"
proof -
  note b = gettoken_bounds[OF assms]
  have e: "e = skip_while word_byte bs (length bs - q) q"
    using assms(1) by (auto simp: gettoken_def Let_def skip_word_def word_byte_def[abs_def] split: if_splits)
  have "\<forall>i\<in>{q..<e}. word_byte (bs ! i)"
    using skip_while_all[of _ q word_byte bs "length bs - q"] b(3,4) unfolding e by (fastforce simp: at_def split: if_splits)
  moreover have "at bs e = 0 \<or> \<not> word_byte (at bs e)"
    using skip_while_stop[of q "length bs - q" bs word_byte] b unfolding e by simp
  ultimately show ?thesis using b by (auto simp: is_word_def at_def split: if_splits)
qed

definition redirs_ok :: "uchar list \<Rightarrow> redir list \<Rightarrow> bool" where
  "redirs_ok bs rs \<longleftrightarrow> (\<forall>(f, mode, fd)\<in>set rs. is_word bs f \<and> redir_ok mode fd)"

lemma parseredirs_ok:
  assumes "parseredirs bs s = Inr (rs, s')" "s \<le> length bs"
  shows "s \<le> s' \<and> s' \<le> length bs \<and> redirs_ok bs rs"
  by (rule parseredirs_rule[OF assms, where P = "\<lambda>s rs s'. s \<le> s' \<and> s' \<le> length bs \<and> redirs_ok bs rs"])
    (auto dest: peek_bounds simp: redirs_ok_def redir_ok_def intro: gettoken_word dest: peek_gettoken(2))

lemma redircmd_ok: "cmd_ok bs c \<Longrightarrow> redirs_ok bs rs \<Longrightarrow> cmd_ok bs (fold redircmd rs c)"
  by (induction rs arbitrary: c) (auto simp: redirs_ok_def redircmd_def)

lemma parseargs_ok:
  "parseargs bs argv rs s = Inr (c, s') \<Longrightarrow> s \<le> length bs \<Longrightarrow> cmd_ok bs (EXEC argv) \<Longrightarrow> redirs_ok bs rs \<Longrightarrow>
   s \<le> s' \<and> s' \<le> length bs \<and> cmd_ok bs c"
proof (induction "MAXARGS - length argv" arbitrary: argv rs s rule: less_induct)
  case less
  obtain p s1 where p: "peek [124, 41, 38, 59] bs s = (p, s1)" by (cases "peek [124, 41, 38, 59] bs s")
  obtain tok q e s2 where g: "gettoken bs s1 = (tok, q, e, s2)" by (cases "gettoken bs s1")
  note b = peek_bounds[OF p] gettoken_bounds[OF g]
  show ?case
  proof (cases "p \<or> tok = 0")
    case True
    then have "c = fold redircmd rs (EXEC argv)" "s' = s1 \<or> s' = s2"
      using less.prems(1) p g by (subst (asm) parseargs.simps, auto split: if_splits)+
    then show ?thesis using b less.prems(2) redircmd_ok[OF less.prems(3,4)] by auto
  next
    case False
    obtain rs' s3 where r: "tok = 97" "length (argv @ [(q, e)]) < MAXARGS" "parseredirs bs s2 = Inr (rs', s3)"
      "parseargs bs (argv @ [(q, e)]) (rs @ rs') s3 = Inr (c, s')"
      using less.prems(1) p g False by (subst (asm) parseargs.simps) (auto simp: bindE_eq_Inr not_le split: if_splits)
    have s2: "s \<le> s2" "s2 \<le> length bs" using b less.prems(2) by auto
    note s3 = parseredirs_ok[OF r(3) s2(2)]
    have "is_word bs (q, e)" using g b(2) less.prems(2) by (intro gettoken_word) (auto simp: r(1))
    then have "s3 \<le> s' \<and> s' \<le> length bs \<and> cmd_ok bs c"
      using r(2) s3 less.prems(3,4) by (intro less.hyps[OF _ r(4)]) (auto simp: redirs_ok_def)
    then show ?thesis using s2 s3 by auto
  qed
qed

lemma parsebacks_ok:
  "parsebacks bs c s = (c', s') \<Longrightarrow> s \<le> length bs \<Longrightarrow> cmd_ok bs c \<Longrightarrow> s \<le> s' \<and> s' \<le> length bs \<and> cmd_ok bs c'"
proof (induction "length bs - s" arbitrary: c s rule: less_induct)
  case less
  obtain p s1 where p: "peek [38] bs s = (p, s1)" by (cases "peek [38] bs s")
  obtain tok q e s2 where g: "gettoken bs s1 = (tok, q, e, s2)" by (cases "gettoken bs s1")
  show ?case
  proof (cases p)
    case False
    then show ?thesis using less.prems p peek_bounds[OF p] by (subst (asm) parsebacks.simps) auto
  next
    case True
    then have p': "peek [38] bs s = (True, s1)" using p by simp
    note k = peek_gettoken[OF p' g]
    have e: "parsebacks bs (BACK c) s2 = (c', s')" using less.prems(1) p' g by (subst (asm) parsebacks.simps) auto
    have "s2 \<le> s' \<and> s' \<le> length bs \<and> cmd_ok bs c'"
      by (rule less.hyps[OF _ e]) (use k less.prems(3) in auto)
    then show ?thesis using k(1) by simp
  qed
qed

lemma skip_token_bounds: "peek toks bs s = (True, s1) \<Longrightarrow> s < skip_token bs s1 \<and> skip_token bs s1 \<le> length bs"
  using peek_gettoken[of toks bs s s1] by (cases "gettoken bs s1") (auto simp: skip_token_def)

lemma parse_ok:
  "s \<le> length bs \<Longrightarrow> parseline d bs s = Inr (c, s') \<Longrightarrow> s \<le> s' \<and> s' \<le> length bs \<and> cmd_ok bs c"
  "s \<le> length bs \<Longrightarrow> parsepipe d bs s = Inr (c, s') \<Longrightarrow> s \<le> s' \<and> s' \<le> length bs \<and> cmd_ok bs c"
  "s \<le> length bs \<Longrightarrow> parseexec d bs s = Inr (c, s') \<Longrightarrow> s \<le> s' \<and> s' \<le> length bs \<and> cmd_ok bs c"
  "s \<le> length bs \<Longrightarrow> parseblock d bs s = Inr (c, s') \<Longrightarrow> s \<le> s' \<and> s' \<le> length bs \<and> cmd_ok bs c"
proof (induction d arbitrary: s c s')
  case 0
  { case 1 then show ?case by simp next case 2 then show ?case by simp next
    case 3 then show ?case by simp next case 4 then show ?case by simp }
next
  case (Suc d)
  { case 1
    then obtain c1 s1 where a: "parsepipe d bs s = Inr (c1, s1)" by (auto simp: bindE_eq_Inr)
    obtain c2 s2 where b: "parsebacks bs c1 s1 = (c2, s2)" by (cases "parsebacks bs c1 s1")
    obtain p s3 where k: "peek [59] bs s2 = (p, s3)" by (cases "peek [59] bs s2")
    note u = Suc.IH(2)[OF 1(1) a]
    note v = parsebacks_ok[OF b]
    show ?case
    proof (cases p)
      case False
      then have "c = c2" "s' = s3" using 1 a b k by auto
      then show ?thesis using u v peek_bounds[OF k] by auto
    next
      case True
      then have k': "peek [59] bs s2 = (True, s3)" using k by simp
      obtain r where r: "parseline d bs (skip_token bs s3) = Inr (r, s')" "c = LIST c2 r"
        using 1(2) a b k' by (auto simp: bindE_eq_Inr)
      from Suc.IH(1)[OF _ r(1)] r(2) skip_token_bounds[OF k'] u v show ?thesis by auto
    qed }
  { case 2
    then obtain c1 s1 where a: "parseexec d bs s = Inr (c1, s1)" by (auto simp: bindE_eq_Inr)
    obtain p s2 where k: "peek [124] bs s1 = (p, s2)" by (cases "peek [124] bs s1")
    note u = Suc.IH(3)[OF 2(1) a]
    show ?case
    proof (cases p)
      case False
      then have "c = c1" "s' = s2" using 2 a k by auto
      then show ?thesis using u peek_bounds[OF k] by auto
    next
      case True
      then have k': "peek [124] bs s1 = (True, s2)" using k by simp
      obtain r where r: "parsepipe d bs (skip_token bs s2) = Inr (r, s')" "c = PIPE c1 r"
        using 2(2) a k' by (auto simp: bindE_eq_Inr)
      from Suc.IH(2)[OF _ r(1)] r(2) skip_token_bounds[OF k'] u show ?thesis by auto
    qed }
  { case 3
    obtain p s1 where k: "peek [40] bs s = (p, s1)" by (cases "peek [40] bs s")
    note u = peek_bounds[OF k]
    show ?case
    proof (cases p)
      case True
      then have e: "parseblock d bs s1 = Inr (c, s')" using 3(2) k by simp
      have le: "s1 \<le> length bs" using u(2) 3(1) by simp
      show ?thesis using Suc.IH(4)[OF le e] u(1) by simp
    next
      case False
      then obtain rs s2 where "parseredirs bs s1 = Inr (rs, s2)" "parseargs bs [] rs s2 = Inr (c, s')"
        using 3(2) k by (auto simp: bindE_eq_Inr)
      then show ?thesis
        using parseredirs_ok[of bs s1 rs s2] parseargs_ok[of bs "[]" rs s2 c s'] u(1,2) 3(1) by (simp add: MAXARGS_def)
    qed }
  { case 4
    obtain p s1 where k: "peek [40] bs s = (p, s1)" by (cases "peek [40] bs s")
    then have k': "peek [40] bs s = (True, s1)" using 4(2) by (cases p) simp_all
    then obtain c1 s2 where a: "parseline d bs (skip_token bs s1) = Inr (c1, s2)" using 4(2) by (auto simp: bindE_eq_Inr)
    obtain p2 s3 where k2: "peek [41] bs s2 = (p2, s3)" by (cases "peek [41] bs s2")
    then have a3: "peek [41] bs s2 = (True, s3)" using 4(2) k' a by (cases p2) simp_all
    then obtain rs where a4: "parseredirs bs (skip_token bs s3) = Inr (rs, s')" "c = fold redircmd rs c1"
      using 4(2) k' a by (auto simp: bindE_eq_Inr)
    note u = skip_token_bounds[OF k'] and v = skip_token_bounds[OF a3]
    have "skip_token bs s1 \<le> s2 \<and> s2 \<le> length bs \<and> cmd_ok bs c1" using Suc.IH(1)[OF _ a] u by simp
    moreover have "skip_token bs s3 \<le> s' \<and> s' \<le> length bs \<and> redirs_ok bs rs" using parseredirs_ok[OF a4(1)] v by simp
    ultimately show ?case using u v redircmd_ok[of bs c1 rs] a4(2) by auto }
qed

subsection \<open>The parser returns\<close>

text \<open>The bound on the depth is never reached when it is four times the bytes to go and a little more.\<close>

lemma parseredirs_not_deep: "parseredirs bs s \<noteq> Inl Deep"
proof (induction "length bs - s" arbitrary: s rule: less_induct)
  case less
  obtain p s1 where p: "peek [60, 62] bs s = (p, s1)" by (cases "peek [60, 62] bs s")
  obtain tok q1 e1 s2 where g: "gettoken bs s1 = (tok, q1, e1, s2)" by (cases "gettoken bs s1")
  obtain t q e s3 where h: "gettoken bs s2 = (t, q, e, s3)" by (cases "gettoken bs s2")
  show ?case
  proof (cases p)
    case False
    then show ?thesis using p parseredirs_unfold(1)[of bs s s1] by simp
  next
    case True
    then have p': "peek [60, 62] bs s = (True, s1)" using p by simp
    have "parseredirs bs s3 \<noteq> Inl Deep" using redir_progress[OF p' g h] by (intro less.hyps) simp
    then show ?thesis unfolding parseredirs_unfold(2)[OF p' g h] by (auto simp: bindE_eq_Inl)
  qed
qed

lemma parseargs_not_deep: "parseargs bs argv rs s \<noteq> Inl Deep"
proof (induction "MAXARGS - length argv" arbitrary: argv rs s rule: less_induct)
  case less
  obtain p s1 where p: "peek [124, 41, 38, 59] bs s = (p, s1)" by (cases "peek [124, 41, 38, 59] bs s")
  obtain tok q e s2 where g: "gettoken bs s1 = (tok, q, e, s2)" by (cases "gettoken bs s1")
  have "parseargs bs (argv @ [(q, e)]) rs' s' \<noteq> Inl Deep" if "length (argv @ [(q, e)]) < MAXARGS" for rs' s'
    by (rule less.hyps) (use that in auto)
  then show ?case using p g parseredirs_not_deep[of bs s2] by (subst parseargs.simps) (auto simp: bindE_eq_Inl not_le)
qed

lemma parse_not_deep:
  "s \<le> length bs \<Longrightarrow> 4 * (length bs - s) + 4 \<le> d \<Longrightarrow> parseline d bs s \<noteq> Inl Deep"
  "s \<le> length bs \<Longrightarrow> 4 * (length bs - s) + 3 \<le> d \<Longrightarrow> parsepipe d bs s \<noteq> Inl Deep"
  "s \<le> length bs \<Longrightarrow> 4 * (length bs - s) + 2 \<le> d \<Longrightarrow> parseexec d bs s \<noteq> Inl Deep"
  "s \<le> length bs \<Longrightarrow> 4 * (length bs - s) + 1 \<le> d \<Longrightarrow> parseblock d bs s \<noteq> Inl Deep"
proof (induction d arbitrary: s)
  case (Suc d)
  { case 1
    have a: "parsepipe d bs s \<noteq> Inl Deep" using 1 by (intro Suc.IH(2)) auto
    have "parseline d bs (skip_token bs s3) \<noteq> Inl Deep"
      if "parsepipe d bs s = Inr (c1, s1)" "parsebacks bs c1 s1 = (c2, s2)" "peek [59] bs s2 = (True, s3)" for c1 s1 c2 s2 s3
      using parse_ok(2)[OF 1(1) that(1)] parsebacks_ok[OF that(2)] skip_token_bounds[OF that(3)] 1 by (intro Suc.IH(1)) auto
    with a show ?case by (auto simp: bindE_eq_Inl split: prod.splits) }
  { case 2
    have a: "parseexec d bs s \<noteq> Inl Deep" using 2 by (intro Suc.IH(3)) auto
    have "parsepipe d bs (skip_token bs s2) \<noteq> Inl Deep"
      if "parseexec d bs s = Inr (c1, s1)" "peek [124] bs s1 = (True, s2)" for c1 s1 s2
      using parse_ok(3)[OF 2(1) that(1)] skip_token_bounds[OF that(2)] 2 by (intro Suc.IH(2)) auto
    with a show ?case by (auto simp: bindE_eq_Inl split: prod.splits) }
  { case 3
    obtain p s1 where k: "peek [40] bs s = (p, s1)" by (cases "peek [40] bs s")
    have "parseblock d bs s1 \<noteq> Inl Deep" using peek_bounds[OF k] 3 by (intro Suc.IH(4)) auto
    then show ?case using k parseredirs_not_deep[of bs s1] parseargs_not_deep by (auto simp: bindE_eq_Inl) }
  { case 4
    obtain p s1 where k: "peek [40] bs s = (p, s1)" by (cases "peek [40] bs s")
    have "parseline d bs (skip_token bs s1) \<noteq> Inl Deep" if p
      using skip_token_bounds[of "[40]" bs s s1] k that 4 by (intro Suc.IH(1)) auto
    then show ?case using k parseredirs_not_deep by (auto simp: bindE_eq_Inl split: prod.splits) }
qed simp_all

text \<open>C30: The parser of the shell returns on every command line: it gives a command or stops with the
  message of one of its panics, and the bound on the depth of its recursion is never what stops it.
\<close>

theorem parsecmd_returns: "(\<exists>c b. parsecmd bs = Inr (c, b)) \<or> (\<exists>m. parsecmd bs = Inl (Sh_panic m))"
proof -
  have "parseline (parse_depth bs) bs 0 \<noteq> Inl Deep" by (rule parse_not_deep) (simp_all add: parse_depth_def)
  then have "parsecmd bs \<noteq> Inl Deep" by (auto simp: parsecmd_def bindE_eq_Inl)
  then show ?thesis by (metis sh_err.exhaust sum.exhaust surj_pair)
qed

subsection \<open>The strings of a command\<close>

fun cmd_words :: "cmd \<Rightarrow> (nat \<times> nat) list" where
  "cmd_words (EXEC argv) = argv"
| "cmd_words (REDIR c f mode fd) = cmd_words c @ [f]"
| "cmd_words (PIPE l r) = cmd_words l @ cmd_words r"
| "cmd_words (LIST l r) = cmd_words l @ cmd_words r"
| "cmd_words (BACK c) = cmd_words c"

lemma nulterminate_words: "nulterminate c b = fold (\<lambda>w b. b[snd w := 0]) (cmd_words c) b"
  by (induction c arbitrary: b) (simp_all add: case_prod_unfold)

lemma fold_nul: "i < length b \<Longrightarrow> fold (\<lambda>w b. b[snd w := 0]) ws b ! i = (if i \<in> snd ` set ws then 0 else b ! i)"
  by (induction ws arbitrary: b) (auto simp: nth_list_update)

lemma length_fold_nul: "length (fold (\<lambda>w b. b[snd w := 0]) ws b) = length b"
  by (induction ws arbitrary: b) auto

lemma cmd_ok_words: "cmd_ok bs c \<Longrightarrow> list_all (is_word bs) (cmd_words c)"
  by (induction c) auto

lemma takeWhile_upto:
  assumes "q \<le> e" "e < length b" "b ! e = 0" "\<forall>i\<in>{q..<e}. b ! i \<noteq> (0 :: uchar)"
  shows "takeWhile (\<lambda>x. x \<noteq> 0) (drop q b) = take (e - q) (drop q b)"
  using assms by (intro takeWhile_eq_take_P_nth) (auto simp: nth_append)

lemma parsecmd_ok: "parsecmd bs = Inr (c, b) \<Longrightarrow> cmd_ok bs c \<and> b = nulterminate c (bs @ [0])"
  using parse_ok(1)[of 0 bs] by (auto simp: parsecmd_def bindE_eq_Inr split: if_splits)

lemma word_terminated:
  assumes "list_all (is_word bs) ws" "w \<in> set ws" "0 \<notin> set bs"
  defines "b \<equiv> fold (\<lambda>w b. b[snd w := 0]) ws (bs @ [0])"
  shows "takeWhile (\<lambda>x. x \<noteq> 0) (drop (fst w) b) = take (snd w - fst w) (drop (fst w) bs)"
proof -
  have ws: "is_word bs v" if "v \<in> set ws" for v using that assms(1) by (simp add: list_all_iff)
  have w: "fst w < snd w" "snd w \<le> length bs" "\<And>i. fst w \<le> i \<Longrightarrow> i < snd w \<Longrightarrow> word_byte (bs ! i)"
    using ws[OF assms(2)] by (auto simp: is_word_def)
  have zero: "bs ! i \<noteq> 0" if "i < length bs" for i using that assms(3) by (metis nth_mem)
  have len: "length b = Suc (length bs)" by (simp add: b_def length_fold_nul)
  have keep: "b ! i = bs ! i" if "fst w \<le> i" "i < snd w" for i
  proof -
    have "i \<noteq> snd v" if "v \<in> set ws" for v
      using ws[OF that] w \<open>fst w \<le> i\<close> \<open>i < snd w\<close> zero[of i] by (auto simp: is_word_def)
    then show ?thesis using that w(2) by (auto simp: b_def fold_nul nth_append)
  qed
  have "b ! snd w = 0" using assms(2) w(2) by (auto simp: b_def fold_nul)
  then have "takeWhile (\<lambda>x. x \<noteq> 0) (drop (fst w) b) = take (snd w - fst w) (drop (fst w) b)"
    using w len keep zero by (intro takeWhile_upto) auto
  also have "\<dots> = take (snd w - fst w) (drop (fst w) bs)"
    using w len keep by (intro nth_equalityI) auto
  finally show ?thesis .
qed


subsection \<open>The descriptors of the commands\<close>

text \<open>
  The meaning of the system calls of runcmd on the descriptors of a process: open, pipe and dup take the
  lowest free of the sixteen descriptors, and fork copies the table.  \<open>can\<close> says which files can be
  opened.  A program that is launched is the pair of its arguments and its descriptors; \<open>k\<close> numbers the
  pipes.
\<close>

datatype sh_file = Inherited nat | Opened "nat \<times> nat" uint | Pipe_r nat | Pipe_w nat

type_synonym fds = "nat \<Rightarrow> sh_file option"
type_synonym launched = "((nat \<times> nat) list \<times> fds) list \<times> nat"

definition lowest_free :: "fds \<Rightarrow> nat option" where
  "lowest_free fds = List.find (\<lambda>i. fds i = None) [0..<16]"

definition pipe_end :: "nat \<times> nat \<Rightarrow> bool \<Rightarrow> nat" where
  "pipe_end p w = (if w then snd p else fst p)"

fun run_acts :: "(nat \<times> nat \<Rightarrow> uint \<Rightarrow> bool) \<Rightarrow> nat \<times> nat \<Rightarrow> fds \<Rightarrow> act list \<Rightarrow> nat \<Rightarrow> launched" where
  "run_acts can p fds [] k = ([], k)"
| "run_acts can p fds (Exit # as) k = ([], k)"
| "run_acts can p fds (Exec argv # as) k = ([(argv, fds)], k)"
| "run_acts can p fds (Close fd # as) k = run_acts can p (fds(nat fd := None)) as k"
| "run_acts can p fds (Open f mode # as) k =
     (if \<not> can f mode then ([], k)
      else case lowest_free fds of None \<Rightarrow> ([], k) | Some i \<Rightarrow> run_acts can p (fds(i \<mapsto> Opened f mode)) as k)"
| "run_acts can p fds (Mkpipe # as) k =
     (case lowest_free fds of None \<Rightarrow> ([], k)
      | Some i \<Rightarrow> (case lowest_free (fds(i \<mapsto> Pipe_r k)) of None \<Rightarrow> ([], k)
                | Some j \<Rightarrow> run_acts can (i, j) (fds(i \<mapsto> Pipe_r k, j \<mapsto> Pipe_w k)) as (Suc k)))"
| "run_acts can p fds (Close_p w # as) k = run_acts can p (fds(pipe_end p w := None)) as k"
| "run_acts can p fds (Dup_p w # as) k =
     (case lowest_free fds of None \<Rightarrow> run_acts can p fds as k
      | Some i \<Rightarrow> run_acts can p (fds(i := fds (pipe_end p w))) as k)"
| "run_acts can p fds (Fork cs # as) k =
     (let (l, k) = run_acts can p fds cs k; (l', k) = run_acts can p fds as k in (l @ l', k))"
| "run_acts can p fds (Wait # as) k = run_acts can p fds as k"

text \<open>What a command means: the programs it launches and what their descriptors are.\<close>

fun cmd_sem :: "(nat \<times> nat \<Rightarrow> uint \<Rightarrow> bool) \<Rightarrow> fds \<Rightarrow> cmd \<Rightarrow> nat \<Rightarrow> launched" where
  "cmd_sem can fds (EXEC argv) k = (if argv = [] then [] else [(argv, fds)], k)"
| "cmd_sem can fds (REDIR c f mode fd) k =
     (if can f mode then cmd_sem can (fds(nat fd \<mapsto> Opened f mode)) c k else ([], k))"
| "cmd_sem can fds (PIPE l r) k =
     (let (ls, k') = cmd_sem can (fds(1 \<mapsto> Pipe_w k)) l (Suc k);
          (rs, k') = cmd_sem can (fds(0 \<mapsto> Pipe_r k)) r k'
      in (ls @ rs, k'))"
| "cmd_sem can fds (LIST l r) k =
     (let (ls, k) = cmd_sem can fds l k; (rs, k) = cmd_sem can fds r k in (ls @ rs, k))"
| "cmd_sem can fds (BACK c) k = cmd_sem can fds c k"

lemma lowest_free_simps:
  "fds 0 = None \<Longrightarrow> lowest_free fds = Some 0"
  "fds 0 = Some x \<Longrightarrow> fds (Suc 0) = None \<Longrightarrow> lowest_free fds = Some (Suc 0)"
  "fds 0 = Some x \<Longrightarrow> fds (Suc 0) = Some y \<Longrightarrow> fds 2 = Some z \<Longrightarrow> fds 3 = None \<Longrightarrow> lowest_free fds = Some 3"
  "fds 0 = Some x \<Longrightarrow> fds (Suc 0) = Some y \<Longrightarrow> fds 2 = Some z \<Longrightarrow> fds 3 = Some u \<Longrightarrow> fds 4 = None \<Longrightarrow> lowest_free fds = Some 4"
proof -
  have "[0..<16] = 0 # Suc 0 # 2 # 3 # 4 # [5..<16]" by (simp add: upt_rec numeral_eq_Suc)
  note l = lowest_free_def this List.find.simps
  show "fds 0 = None \<Longrightarrow> lowest_free fds = Some 0"
    "fds 0 = Some x \<Longrightarrow> fds (Suc 0) = None \<Longrightarrow> lowest_free fds = Some (Suc 0)"
    "fds 0 = Some x \<Longrightarrow> fds (Suc 0) = Some y \<Longrightarrow> fds 2 = Some z \<Longrightarrow> fds 3 = None \<Longrightarrow> lowest_free fds = Some 3"
    "fds 0 = Some x \<Longrightarrow> fds (Suc 0) = Some y \<Longrightarrow> fds 2 = Some z \<Longrightarrow> fds 3 = Some u \<Longrightarrow> fds 4 = None \<Longrightarrow> lowest_free fds = Some 4"
    unfolding l by simp_all
qed

definition std_fds :: "fds \<Rightarrow> bool" where
  "std_fds fds \<longleftrightarrow> dom fds = {0, 1, 2}"

lemma std_fdsE:
  assumes "std_fds fds"
  obtains x y z where "fds 0 = Some x" "fds (Suc 0) = Some y" "fds 2 = Some z" "\<forall>i. 2 < i \<longrightarrow> fds i = None"
proof -
  have d: "i \<in> dom fds \<longleftrightarrow> i \<in> {0, 1, 2}" for i using assms by (simp add: std_fds_def)
  have "fds i = None" if "2 < i" for i using d[of i] that by (cases "fds i") (auto simp: domIff)
  moreover obtain x y z where "fds 0 = Some x" "fds (Suc 0) = Some y" "fds 2 = Some z"
    using d[of 0] d[of 1] d[of 2] by auto
  ultimately show ?thesis using that by blast
qed

lemma std_fds_upd: "std_fds fds \<Longrightarrow> i \<le> 2 \<Longrightarrow> std_fds (fds(i \<mapsto> x))"
  by (auto simp: std_fds_def)

text \<open>The two children of a pipe see their end of it in place of a standard descriptor and no other end.\<close>

lemma pipe_child:
  fixes k :: nat
  assumes "std_fds fds"
  defines "g \<equiv> fds(3 \<mapsto> Pipe_r k, 4 \<mapsto> Pipe_w k)"
  shows "run_acts can (3, 4) g ([Close 1, Dup_p True, Close_p False, Close_p True] @ as) n =
           run_acts can (3, 4) (fds(1 \<mapsto> Pipe_w k)) as n"
    and "run_acts can (3, 4) g ([Close 0, Dup_p False, Close_p False, Close_p True] @ as) n =
           run_acts can (3, 4) (fds(0 \<mapsto> Pipe_r k)) as n"
proof -
  obtain x y z where f: "fds 0 = Some x" "fds (Suc 0) = Some y" "fds 2 = Some z" "\<forall>i. 2 < i \<longrightarrow> fds i = None"
    using assms(1) by (rule std_fdsE)
  have "fds 3 = None" "fds 4 = None" using f(4) by simp_all
  then have "g(Suc 0 := Some (Pipe_w k), 3 := None, 4 := None) = fds(Suc 0 \<mapsto> Pipe_w k)"
    "g(0 := Some (Pipe_r k), 3 := None, 4 := None) = fds(0 \<mapsto> Pipe_r k)" by (auto simp: g_def)
  moreover have "lowest_free (g(Suc 0 := None)) = Some (Suc 0)" "lowest_free (g(0 := None)) = Some 0"
    using f by (simp_all add: g_def lowest_free_simps)
  ultimately show "run_acts can (3, 4) g ([Close 1, Dup_p True, Close_p False, Close_p True] @ as) n =
           run_acts can (3, 4) (fds(1 \<mapsto> Pipe_w k)) as n"
    "run_acts can (3, 4) g ([Close 0, Dup_p False, Close_p False, Close_p True] @ as) n =
           run_acts can (3, 4) (fds(0 \<mapsto> Pipe_r k)) as n"
    by (simp_all add: pipe_end_def g_def)
qed

lemma mkpipe_std:
  assumes "std_fds fds"
  shows "run_acts can p fds (Mkpipe # as) k = run_acts can (3, 4) (fds(3 \<mapsto> Pipe_r k, 4 \<mapsto> Pipe_w k)) as (Suc k)"
  using assms by (elim std_fdsE) (simp add: lowest_free_simps)

lemma redirect_std:
  assumes "std_fds fds" "redir_ok mode fd"
  shows "run_acts can p fds (Close fd # Open f mode # as) k =
    (if can f mode then run_acts can p (fds(nat fd \<mapsto> Opened f mode)) as k else ([], k))"
  using assms by (elim std_fdsE) (auto simp: redir_ok_def lowest_free_simps)

lemma runcmd_meaning: "std_fds fds \<Longrightarrow> cmd_ok bs c \<Longrightarrow> run_acts can p fds (runcmd c) k = cmd_sem can fds c k"
proof (induction c arbitrary: fds p k)
  case (REDIR c f mode fd)
  have "nat fd \<le> 2" using REDIR.prems by (auto simp: redir_ok_def)
  then have "run_acts can p (fds(nat fd \<mapsto> Opened f mode)) (runcmd c) k = cmd_sem can (fds(nat fd \<mapsto> Opened f mode)) c k"
    using REDIR.prems by (intro REDIR.IH std_fds_upd) auto
  then show ?case
    using redirect_std[of fds mode fd can p f "runcmd c" k] REDIR.prems by (simp only: runcmd.simps append.simps cmd_sem.simps cmd_ok.simps)
next
  case (PIPE l r)
  have "std_fds (fds(1 \<mapsto> Pipe_w k))" "std_fds (fds(0 \<mapsto> Pipe_r k))" using PIPE.prems by (simp_all add: std_fds_upd)
  note std = this
  have "run_acts can p fds (runcmd (PIPE l r)) k =
    (let (ls, k') = run_acts can (3, 4) (fds(1 \<mapsto> Pipe_w k)) (runcmd l) (Suc k);
         (rs, k') = run_acts can (3, 4) (fds(0 \<mapsto> Pipe_r k)) (runcmd r) k' in (ls @ rs, k'))"
    unfolding runcmd.simps append.simps mkpipe_std[OF PIPE.prems(1)] run_acts.simps(9)
      pipe_child[OF PIPE.prems(1), unfolded append.simps] by (simp add: Let_def split: prod.splits)
  moreover have "cmd_ok bs l" "cmd_ok bs r" using PIPE.prems(2) by simp_all
  ultimately show ?case by (simp only: cmd_sem.simps PIPE.IH(1)[OF std(1)] PIPE.IH(2)[OF std(2)])
qed simp_all

definition tidy :: "(nat \<times> nat) list \<times> fds \<Rightarrow> bool" where
  "tidy l \<longleftrightarrow> fst l \<noteq> [] \<and> std_fds (snd l)"

lemma cmd_sem_std:
  "std_fds fds \<Longrightarrow> cmd_ok bs c \<Longrightarrow> cmd_sem can fds c k = (ls, k') \<Longrightarrow> list_all tidy ls"
proof (induction c arbitrary: fds k ls k')
  case (REDIR c f mode fd)
  have "nat fd \<le> 2" using REDIR.prems by (auto simp: redir_ok_def)
  then have "std_fds (fds(nat fd \<mapsto> Opened f mode))" using REDIR.prems(1) by (rule std_fds_upd[rotated])
  from REDIR.IH[OF this] REDIR.prems(2,3) show ?case by (auto simp del: fun_upd_apply split: if_splits)
next
  case (PIPE l r)
  have "std_fds (fds(1 \<mapsto> Pipe_w k))" "std_fds (fds(0 \<mapsto> Pipe_r k))" using PIPE.prems by (simp_all add: std_fds_upd)
  from PIPE.IH(1)[OF this(1)] PIPE.IH(2)[OF this(2)] PIPE.prems(2,3) show ?case
    by (auto simp: Let_def simp del: fun_upd_apply split: prod.splits)
next
  case (LIST l r)
  from LIST.IH(1)[OF LIST.prems(1)] LIST.IH(2)[OF LIST.prems(1)] LIST.prems(2,3) show ?case
    by (auto simp: Let_def split: prod.splits)
qed (auto simp: tidy_def)


definition demo_line :: "uchar list" where
  "demo_line = map (of_nat \<circ> of_char) ''cat < f | (wc; ls) >> out &''"

definition demo_cmd :: cmd where
  "demo_cmd = BACK (PIPE (REDIR (EXEC [(0, 3)]) (6, 7) sh_RDONLY 0)
     (REDIR (LIST (EXEC [(11, 13)]) (EXEC [(15, 17)])) (22, 25) sh_WRCREATE 1))"

lemma demo_line_eq:
  "demo_line = [99, 97, 116, 32, 60, 32, 102, 32, 124, 32, 40, 119, 99, 59, 32, 108, 115, 41, 32, 62, 62, 32, 111, 117, 116, 32, 38]"
  by (simp add: demo_line_def)

lemma demo_parse: "parsecmd demo_line = Inr (demo_cmd, nulterminate demo_cmd (demo_line @ [0]))"
  unfolding demo_line_eq demo_cmd_def by code_simp


definition demo_fds :: fds where
  "demo_fds i = (if i < 3 then Some (Inherited i) else None)"


text \<open>The two output redirections of the shell open the file in the same mode, so \<^verbatim>\<open>>>\<close> does not append.\<close>

lemma append_redirects_like_write:
  "map_sum id fst (parsecmd (map (of_nat \<circ> of_char) ''a >>f'')) = Inr (REDIR (EXEC [(0, 1)]) (4, 5) sh_WRCREATE 1)"
  "map_sum id fst (parsecmd (map (of_nat \<circ> of_char) ''a > f'')) = Inr (REDIR (EXEC [(0, 1)]) (4, 5) sh_WRCREATE 1)"
proof -
  have "map (of_nat \<circ> of_char) ''a >>f'' = [97, 32, 62, 62, 102 :: uchar]" by simp
  moreover have "map_sum id fst (parsecmd [97, 32, 62, 62, 102]) = Inr (REDIR (EXEC [(0, 1)]) (4, 5) sh_WRCREATE 1)" by code_simp
  ultimately show "map_sum id fst (parsecmd (map (of_nat \<circ> of_char) ''a >>f'')) = Inr (REDIR (EXEC [(0, 1)]) (4, 5) sh_WRCREATE 1)"
    by (simp only:)
  have "map (of_nat \<circ> of_char) ''a > f'' = [97, 32, 62, 32, 102 :: uchar]" by simp
  moreover have "map_sum id fst (parsecmd [97, 32, 62, 32, 102]) = Inr (REDIR (EXEC [(0, 1)]) (4, 5) sh_WRCREATE 1)" by code_simp
  ultimately show "map_sum id fst (parsecmd (map (of_nat \<circ> of_char) ''a > f'')) = Inr (REDIR (EXEC [(0, 1)]) (4, 5) sh_WRCREATE 1)"
    by (simp only:)
qed

subsection \<open>The main loop\<close>

lemma lowest_free_Some: "lowest_free fds = Some i \<Longrightarrow> fds i = None \<and> i < 16 \<and> (\<forall>j<i. fds j \<noteq> None)"
  by (auto simp: lowest_free_def find_Some_iff)

text \<open>The loop of main that opens the console until the three standard descriptors are in use.\<close>

function ensure_fds :: "fds \<Rightarrow> fds" where
  "ensure_fds fds =
     (case lowest_free fds of None \<Rightarrow> fds
      | Some fd \<Rightarrow> if fd \<ge> 3 then fds else ensure_fds (fds(fd \<mapsto> Inherited fd)))"
  by pat_completeness auto
termination
proof (relation "measure (\<lambda>fds. card {i. i < 16 \<and> fds i = None})", goal_cases)
  case (2 fds fd)
  then have "{i. i < 16 \<and> (fds(fd \<mapsto> Inherited fd)) i = None} \<subset> {i. i < 16 \<and> fds i = None}"
    using lowest_free_Some[OF 2(1)] by auto
  then show ?case by (simp add: psubset_card_mono del: fun_upd_apply)
qed simp

declare ensure_fds.simps [simp del]

lemma ensure_fds_std: "dom fds \<subseteq> {0, 1, 2} \<Longrightarrow> std_fds (ensure_fds fds)"
proof (induction fds rule: ensure_fds.induct)
  case (1 fds)
  have "fds 15 = None" using 1(2) by (auto simp: dom_def)
  then have "lowest_free fds \<noteq> None" unfolding lowest_free_def find_None_iff
    by (auto intro!: exI[of _ 15])
  then obtain i where i: "lowest_free fds = Some i" by auto
  note l = lowest_free_Some[OF i]
  show ?case
  proof (cases "3 \<le> i")
    case True
    then have "dom fds = {0, 1, 2}" using l 1(2) by (auto simp: subset_iff)
    then show ?thesis using i True by (subst ensure_fds.simps) (simp add: std_fds_def)
  next
    case False
    then have "dom (fds(i \<mapsto> Inherited i)) \<subseteq> {0, 1, 2}" using 1(2) by auto
    from 1(1)[OF i False this] show ?thesis using i False by (subst ensure_fds.simps) (simp del: fun_upd_apply)
  qed
qed

lemma gets_loop_line:
  assumes "concat inp = l @ 10 # rest" "length l < n" "\<forall>ch\<in>set inp. ch \<noteq> []" "10 \<notin> set l" "13 \<notin> set l"
  shows "\<exists>inp'. gets_loop n inp = (l @ [10], inp') \<and> concat inp' = rest \<and> (\<forall>ch\<in>set inp'. ch \<noteq> [])"
  using assms
proof (induction n arbitrary: inp l)
  case (Suc n)
  obtain ch inp1 where i: "inp = ch # inp1" "ch \<noteq> []" using Suc.prems(1,3) by (cases inp) auto
  obtain c cs where c: "ch = c # cs" using i(2) by (cases ch) auto
  define inp2 where "inp2 = (if cs = [] then inp1 else cs # inp1)"
  have rd: "chunk_read 1 inp = ([c], inp2)" by (auto simp: i c inp2_def)
  have cc: "concat inp = c # concat inp2" "\<forall>ch\<in>set inp2. ch \<noteq> []" using Suc.prems(3) by (auto simp: i c inp2_def)
  show ?case
  proof (cases l)
    case Nil
    then show ?thesis using rd cc Suc.prems(1) by simp
  next
    case (Cons x xs)
    have "\<exists>inp'. gets_loop n inp2 = (xs @ [10], inp') \<and> concat inp' = rest \<and> (\<forall>ch\<in>set inp'. ch \<noteq> [])"
      using Suc.prems cc Cons by (intro Suc.IH) auto
    then show ?thesis using rd cc Suc.prems Cons by auto
  qed
qed simp

lemma getcmd_line:
  assumes "concat inp = l @ 10 # rest" "length l < 99" "\<forall>ch\<in>set inp. ch \<noteq> []" "set l \<inter> {0, 10, 13} = {}"
  shows "\<exists>inp'. getcmd inp = (Some (l @ [10]), inp') \<and> concat inp' = rest \<and> (\<forall>ch\<in>set inp'. ch \<noteq> [])"
proof -
  obtain inp' where g: "gets_loop 99 inp = (l @ [10], inp')" "concat inp' = rest" "\<forall>ch\<in>set inp'. ch \<noteq> []"
    using gets_loop_line[OF assms(1-3)] assms(4) by auto
  have "takeWhile (\<lambda>x. x \<noteq> 0) (l @ [10]) = l @ [10]" "hd (l @ [10]) \<noteq> 0" using assms(4) by (cases l; auto)+
  then show ?thesis using g by (auto simp: getcmd_def gets_def simp del: takeWhile_append)
qed

text \<open>C31: The shell handles every line of its input, once and in order, however the input arrives in
  pieces: a line of fewer than 99 bytes without NUL and carriage return becomes one command, or one change
  of directory when it starts with \<^verbatim>\<open>cd\<close>, and the shell ends with its input.
\<close>

theorem sh_main_lines:
  assumes "concat inp = concat (map (\<lambda>l. l @ [10]) ls)" "\<forall>ch\<in>set inp. ch \<noteq> []"
    and "\<forall>l\<in>set ls. length l < 99 \<and> set l \<inter> {0, 10, 13} = {}"
  shows "sh_main inp = map (\<lambda>l. sh_line (l @ [10])) ls @ [Eof]"
  using assms
proof (induction ls arbitrary: inp)
  case Nil
  then have "inp = []" by (cases inp) auto
  then show ?case by (subst sh_main.simps) (simp add: getcmd_def gets_def eval_nat_numeral)
next
  case (Cons l ls)
  then obtain inp' where g: "getcmd inp = (Some (l @ [10]), inp')" "concat inp' = concat (map (\<lambda>l. l @ [10]) ls)"
    "\<forall>ch\<in>set inp'. ch \<noteq> []"
    using getcmd_line[of inp l "concat (map (\<lambda>l. l @ [10]) ls)"] by auto
  from Cons.IH[OF g(2,3)] Cons.prems(3) g(1) show ?case by (subst sh_main.simps) simp
qed

theorem sh_main_lines_witness:
  "sh_main [[99, 100, 32], [47, 10, 108], [115, 10]] = [Chdir [47], Run [108, 115, 10], Eof]"
  using sh_main_lines[of "[[99, 100, 32], [47, 10, 108], [115, 10]]" "[[99, 100, 32, 47], [108, 115]]"]
  by (simp add: sh_line_def)

end
