(* ===== verification/Umalloc.thy ===== *)
theory Umalloc
  imports Mmu
begin

text \<open>
  The allocator umalloc.c of the user library.  The memory of the process is seen through the headers of
  the blocks: \<open>um_ptr\<close> and \<open>um_size\<close> are the fields of the header at an address, \<open>um_base\<close> is the address of
  the static header \<open>base\<close>, and \<open>um_brk\<close> is the end of the memory of the process.  Pointers are 32-bit
  addresses, a header has 8 bytes, and pointer arithmetic wraps.  \<open>um_grant\<close> says whether the kernel has
  the pages for a request.  The loops over the circular free list may run forever on a broken list, so
  their result is an option.
\<close>

record um_state =
  um_base :: uint
  um_ptr :: "uint \<Rightarrow> uint"
  um_size :: "uint \<Rightarrow> uint"
  um_freep :: uint
  um_brk :: uint
  um_grant :: "uint \<Rightarrow> uint \<Rightarrow> bool"

definition set_ptr :: "uint \<Rightarrow> uint \<Rightarrow> um_state \<Rightarrow> um_state" where
  "set_ptr p v st = st\<lparr>um_ptr := (um_ptr st)(p := v)\<rparr>"

definition set_size :: "uint \<Rightarrow> uint \<Rightarrow> um_state \<Rightarrow> um_state" where
  "set_size p v st = st\<lparr>um_size := (um_size st)(p := v)\<rparr>"

text \<open>The pointer \<open>n\<close> headers after \<open>p\<close>.\<close>

definition hdr_add :: "uint \<Rightarrow> uint \<Rightarrow> uint" where
  "hdr_add p n = p + 8 * n"

subsection \<open>free\<close>

partial_function (option) free_loop :: "um_state \<Rightarrow> uint \<Rightarrow> uint \<Rightarrow> uint option" where
  "free_loop st bp p =
     (if p < bp \<and> bp < um_ptr st p then Some p
      else if p \<ge> um_ptr st p \<and> (bp > p \<or> bp < um_ptr st p) then Some p
      else free_loop st bp (um_ptr st p))"

definition free_right :: "uint \<Rightarrow> uint \<Rightarrow> um_state \<Rightarrow> um_state" where
  "free_right bp p st =
     (if hdr_add bp (um_size st bp) = um_ptr st p
      then set_ptr bp (um_ptr st (um_ptr st p)) (set_size bp (um_size st bp + um_size st (um_ptr st p)) st)
      else set_ptr bp (um_ptr st p) st)"

definition free_left :: "uint \<Rightarrow> uint \<Rightarrow> um_state \<Rightarrow> um_state" where
  "free_left bp p st =
     (if hdr_add p (um_size st p) = bp
      then set_ptr p (um_ptr st bp) (set_size p (um_size st p + um_size st bp) st)
      else set_ptr p bp st)"

definition ufree :: "uint \<Rightarrow> um_state \<Rightarrow> um_state option" where
  "ufree ap st =
     (let bp = ap - 8
      in case free_loop st bp (um_freep st) of None \<Rightarrow> None
         | Some p \<Rightarrow> Some ((free_left bp p (free_right bp p st))\<lparr>um_freep := p\<rparr>))"

subsection \<open>malloc\<close>

text \<open>
  sbrk as the kernel answers it: sys_sbrk returns the old end of the memory, growproc grows it below
  \<open>KERNBASE\<close> or shrinks it.
\<close>

definition sbrk :: "uint \<Rightarrow> um_state \<Rightarrow> uint \<times> um_state" where
  "sbrk n st =
     (let new = um_brk st + n
      in if 0 <s n
         then if new \<ge> KERNBASE \<or> \<not> um_grant st (um_brk st) n then (- 1, st)
              else (um_brk st, if new < um_brk st then st else st\<lparr>um_brk := new\<rparr>)
         else if n <s 0
         then let new = (if new \<ge> um_brk st then um_brk st else new)
              in if new = 0 then (- 1, st) else (um_brk st, st\<lparr>um_brk := new\<rparr>)
         else (um_brk st, st))"

definition morecore_units :: "uint \<Rightarrow> uint" where
  "morecore_units nu = (if nu < 4096 then 4096 else nu)"

definition morecore :: "uint \<Rightarrow> um_state \<Rightarrow> (uint \<times> um_state) option" where
  "morecore nu st =
     (let nu = morecore_units nu;
          (p, st) = sbrk (nu * 8) st
      in if p = - 1 then Some (0, st)
         else case ufree (p + 8) (set_size p nu st) of None \<Rightarrow> None
              | Some st \<Rightarrow> Some (um_freep st, st))"

definition nunits :: "uint \<Rightarrow> uint" where
  "nunits nbytes = (nbytes + 8 - 1) div 8 + 1"

definition take_block :: "uint \<Rightarrow> uint \<Rightarrow> uint \<Rightarrow> um_state \<Rightarrow> uint \<times> um_state" where
  "take_block n prevp p st =
     (let (p, st) =
        (if um_size st p = n then (p, set_ptr prevp (um_ptr st p) st)
         else let st = set_size p (um_size st p - n) st;
                  q = hdr_add p (um_size st p)
              in (q, set_size q n st))
      in (p + 8, st\<lparr>um_freep := prevp\<rparr>))"

partial_function (option) malloc_loop :: "uint \<Rightarrow> uint \<Rightarrow> uint \<Rightarrow> um_state \<Rightarrow> (uint \<times> um_state) option" where
  "malloc_loop n prevp p st =
     (if um_size st p \<ge> n then Some (take_block n prevp p st)
      else if p = um_freep st
      then Option.bind (morecore n st) (\<lambda>(p, st).
             if p = 0 then Some (0, st) else malloc_loop n p (um_ptr st p) st)
      else malloc_loop n p (um_ptr st p) st)"

definition malloc_init :: "um_state \<Rightarrow> um_state" where
  "malloc_init st =
     (if um_freep st = 0
      then set_size (um_base st) 0 (set_ptr (um_base st) (um_base st) (st\<lparr>um_freep := um_base st\<rparr>)) else st)"

definition malloc :: "uint \<Rightarrow> um_state \<Rightarrow> (uint \<times> um_state) option" where
  "malloc nbytes st =
     (let st = malloc_init st
      in malloc_loop (nunits nbytes) (um_freep st) (um_ptr st (um_freep st)) st)"

subsection \<open>Blocks\<close>

text \<open>
  A block occupies the bytes from its header to \<open>fin\<close>.  \<open>blocks_ok\<close> says that the blocks of the free list
  \<open>fl\<close>, which is sorted, and the allocated blocks \<open>A\<close> are nonempty, pairwise disjoint, and lie between the
  static header and the end of the memory.
\<close>

definition fin :: "(uint \<Rightarrow> uint) \<Rightarrow> uint \<Rightarrow> nat" where
  "fin sz x = unat x + 8 * unat (sz x)"

definition before :: "(uint \<Rightarrow> uint) \<Rightarrow> uint \<Rightarrow> uint \<Rightarrow> bool" where
  "before sz x y \<longleftrightarrow> unat x < unat y \<and> fin sz x \<le> unat y"

definition block :: "(uint \<Rightarrow> uint) \<Rightarrow> uint \<Rightarrow> nat set" where
  "block sz x = {unat x..<fin sz x}"

definition bytes_of :: "(uint \<Rightarrow> uint) \<Rightarrow> uint list \<Rightarrow> nat set" where
  "bytes_of sz fl = (\<Union>x\<in>set fl. block sz x)"

definition block_ok :: "uint \<Rightarrow> uint \<Rightarrow> (uint \<Rightarrow> uint) \<Rightarrow> uint \<Rightarrow> bool" where
  "block_ok base brk sz x \<longleftrightarrow> fin sz x \<le> unat brk \<and> (x \<noteq> base \<longrightarrow> unat base + 8 \<le> unat x \<and> 0 < unat (sz x))"

definition blocks_ok :: "uint \<Rightarrow> uint \<Rightarrow> (uint \<Rightarrow> uint) \<Rightarrow> uint list \<Rightarrow> uint set \<Rightarrow> bool" where
  "blocks_ok base brk sz fl A \<longleftrightarrow>
     sorted_wrt (before sz) fl \<and> A \<inter> set fl = {} \<and> base \<notin> A \<and> sz base = 0 \<and> unat base + 8 \<le> unat brk \<and>
     (\<forall>x\<in>set fl \<union> A. block_ok base brk sz x) \<and>
     (\<forall>x\<in>A. \<forall>y\<in>set fl \<union> A. x \<noteq> y \<longrightarrow> before sz x y \<or> before sz y x)"

lemma unat_hdr_add:
  assumes "unat p + 8 * unat n < 2 ^ 32"
  shows "unat (hdr_add p n) = unat p + 8 * unat n"
  using assms by (simp add: hdr_add_def unat_word_ariths)

lemma fin_le_brk: "blocks_ok base brk sz fl A \<Longrightarrow> x \<in> set fl \<union> A \<Longrightarrow> fin sz x \<le> unat brk"
  by (auto simp: blocks_ok_def block_ok_def)

lemma blocks_fin: "blocks_ok base brk sz fl A \<Longrightarrow> x \<in> set fl \<union> A \<Longrightarrow> unat (hdr_add x (sz x)) = fin sz x"
  using unat_lt32[of brk] fin_le_brk[of base brk sz fl A x] unfolding fin_def by (intro unat_hdr_add) auto

lemma before_upd: "z \<noteq> x \<Longrightarrow> before (sz(x := v)) z w = before sz z w"
  by (simp add: before_def fin_def)

lemma sorted_before_upd: "x \<notin> set l \<Longrightarrow> sorted_wrt (before (sz(x := v))) l = sorted_wrt (before sz) l"
  by (induction l) (auto simp: before_upd)

lemma bytes_of_simps [simp]:
  "bytes_of sz [] = {}" "bytes_of sz (x # l) = block sz x \<union> bytes_of sz l"
  "bytes_of sz (l @ m) = bytes_of sz l \<union> bytes_of sz m"
  by (auto simp: bytes_of_def)

lemma bytes_of_upd: "x \<notin> set l \<Longrightarrow> bytes_of (sz(x := v)) l = bytes_of sz l"
  by (induction l) (auto simp: block_def fin_def)

lemma blocks_move:
  assumes "blocks_ok base brk sz (L @ p # R) A" "x \<in> A" "unat p < unat x" "\<forall>y\<in>set R. unat x < unat y"
  shows "blocks_ok base brk sz (L @ p # x # R) (A - {x})"
proof -
  have d: "before sz x y \<or> before sz y x" if "y \<in> set (L @ p # R)" for y
    using assms(1,2) that unfolding blocks_ok_def by (metis UnI1 disjoint_iff)
  have "before sz y x" if "y \<in> set (L @ [p])" for y
  proof -
    have "unat y \<le> unat p" using assms(1) that by (auto simp: blocks_ok_def sorted_wrt_append before_def)
    then show ?thesis using d[of y] that assms(3) by (auto simp: before_def)
  qed
  moreover have "before sz x y" if "y \<in> set R" for y
    using d[of y] that assms(4) by (auto simp: before_def)
  ultimately show ?thesis using assms(1,2) by (auto simp: blocks_ok_def sorted_wrt_append)
qed

lemma blocks_merge:
  assumes ok: "blocks_ok base brk sz (L @ x # y # R) A" and adj: "fin sz x = unat y" and x: "x \<noteq> base"
  defines "sz' \<equiv> sz(x := sz x + sz y)"
  shows "blocks_ok base brk sz' (L @ x # R) A" "bytes_of sz' (L @ x # R) = bytes_of sz (L @ x # y # R)"
    "unat (sz' x) = unat (sz x) + unat (sz y)"
proof -
  have "fin sz y \<le> unat brk" using ok by (auto simp: blocks_ok_def block_ok_def)
  then have "unat (sz x) + unat (sz y) < 2 ^ 32" using adj unat_lt32[of brk] by (simp add: fin_def)
  then show s: "unat (sz' x) = unat (sz x) + unat (sz y)" by (simp add: sz'_def unat_word_ariths)
  then have fx: "fin sz' x = fin sz y" using adj by (simp add: fin_def)
  have fo: "z \<noteq> x \<Longrightarrow> fin sz' z = fin sz z" for z by (simp add: fin_def sz'_def)
  have bo: "z \<noteq> x \<Longrightarrow> before sz' z w = before sz z w" for z w by (simp add: sz'_def before_upd)
  have xy: "unat x < unat y" "x \<noteq> y" "x \<notin> set L" "x \<notin> set R" using ok by (auto simp: blocks_ok_def sorted_wrt_append before_def)
  have bx: "before sz' x w" if "before sz y w" for w using that xy by (auto simp: before_def fx)
  have ne: "z \<in> set L \<Longrightarrow> before sz' z w = before sz z w" for z w using xy bo by metis
  have srt: "sorted_wrt (before sz') (L @ x # R)"
    using ok xy bx ne by (auto simp: blocks_ok_def sorted_wrt_append sz'_def sorted_before_upd before_upd)
  have A: "before sz' a w \<or> before sz' w a" if "a \<in> A" "w \<in> set (L @ x # R) \<union> A" "a \<noteq> w" for a w
  proof -
    have "a \<noteq> x" "a \<noteq> y" using that(1) ok by (auto simp: blocks_ok_def)
    moreover have "before sz a w \<or> before sz w a" "before sz a y \<or> before sz y a"
      using ok that \<open>a \<noteq> y\<close> by (auto simp: blocks_ok_def)
    ultimately show ?thesis using bo bx adj by (cases "w = x") (auto simp: before_def)
  qed
  show "blocks_ok base brk sz' (L @ x # R) A"
    using ok srt A x fo fx s unfolding blocks_ok_def block_ok_def by (auto simp: sz'_def)
  have "block sz' x = block sz x \<union> block sz y" using fx adj xy by (auto simp: block_def fin_def)
  then show "bytes_of sz' (L @ x # R) = bytes_of sz (L @ x # y # R)"
    using xy by (auto simp: sz'_def bytes_of_upd)
qed

lemma blocks_apart:
  assumes "blocks_ok base brk sz fl A" "x \<in> set fl" "y \<in> set fl \<union> A" "x \<noteq> y"
  shows "before sz x y \<or> before sz y x"
proof -
  obtain L R where fl: "fl = L @ x # R" using assms(2) by (auto dest: split_list)
  have "\<forall>a\<in>A. \<forall>y\<in>set fl. a \<noteq> y \<longrightarrow> before sz a y \<or> before sz y a" using assms(1) by (auto simp: blocks_ok_def)
  moreover have "\<forall>z\<in>set L. before sz z x" "\<forall>z\<in>set R. before sz x z"
    using assms(1) by (auto simp: blocks_ok_def fl sorted_wrt_append)
  ultimately show ?thesis using assms(2-4) fl by auto
qed

lemma blocks_take:
  assumes "blocks_ok base brk sz (L @ x # R) A" "x \<noteq> base"
  shows "blocks_ok base brk sz (L @ R) (insert x A)"
proof -
  have "x \<notin> set L" "x \<notin> set R" using assms(1) by (auto simp: blocks_ok_def sorted_wrt_append before_def)
  moreover have "before sz x y \<or> before sz y x" if "y \<in> set L \<union> set R \<union> A" "x \<noteq> y" for y
    using blocks_apart[OF assms(1), of x y] that by auto
  ultimately show ?thesis using assms by (auto simp: blocks_ok_def sorted_wrt_append)
qed

lemma blocks_split:
  assumes ok: "blocks_ok base brk sz fl A" and x: "x \<in> set fl" and n: "0 < n" "n < sz x"
  defines "q \<equiv> hdr_add x (sz x - n)"
  defines "sz' \<equiv> sz(x := sz x - n, q := n)"
  shows "blocks_ok base brk sz' fl (insert q A)" "q \<notin> A" "q \<notin> set fl" "sz' q = n" "\<forall>a\<in>A. sz' a = sz a"
    "bytes_of sz fl = bytes_of sz' fl \<union> block sz' q" "bytes_of sz' fl \<inter> block sz' q = {}"
proof -
  have xb: "x \<noteq> base" using ok n by (auto simp: blocks_ok_def word_less_nat_alt)
  have nn: "0 < unat n" "unat n < unat (sz x)" using n by (auto simp: word_less_nat_alt)
  then have m: "unat (sz x - n) = unat (sz x) - unat n" using n by (intro unat_sub) simp
  have "fin sz x \<le> unat brk" using fin_le_brk[OF ok] x by simp
  then have q: "unat q = fin sz x - 8 * unat n" "unat x < unat q" "unat q < fin sz x"
    using nn m unat_lt32[of brk] unfolding q_def by (subst unat_hdr_add; simp add: fin_def)+
  have away: "unat q \<noteq> unat y" if "y \<in> set fl \<union> A" for y
    using blocks_apart[OF ok x that] q by (cases "x = y") (auto simp: before_def)
  then show qA: "q \<notin> A" "q \<notin> set fl" by auto
  have qx: "q \<noteq> x" using q by auto
  show "sz' q = n" by (simp add: sz'_def)
  have xA: "x \<notin> A" using ok x by (auto simp: blocks_ok_def)
  then show szA: "\<forall>a\<in>A. sz' a = sz a" using qA by (auto simp: sz'_def)
  have fx: "fin sz' x = unat q" "fin sz' q = fin sz x" using qx q nn m by (auto simp: sz'_def fin_def)
  have nq: "y \<noteq> q" if "y \<in> set fl \<union> A" for y using away[OF that] by auto
  have fo: "fin sz' y = fin sz y" if "y \<noteq> x" "y \<noteq> q" for y using that by (simp add: sz'_def fin_def)
  have le: "fin sz' y \<le> fin sz y" if "y \<in> set fl \<union> A" for y
    using that nq[OF that] fx fo[of y] q by (cases "y = x") auto
  have bm: "before sz' y z" if "before sz y z" "y \<in> set fl \<union> A" for y z
    using that le[of y] by (auto simp: before_def)
  have "sorted_wrt (before sz) fl" using ok by (simp add: blocks_ok_def)
  then have srt: "sorted_wrt (before sz') fl" by (rule sorted_wrt_mono_rel[rotated]) (auto intro: bm)
  have bq: "before sz' q y \<or> before sz' y q" if "y \<in> set fl \<union> A" for y
    using blocks_apart[OF ok x that] q fx fo[of y] nq[OF that] by (cases "x = y") (auto simp: before_def)
  have "block_ok base brk sz' q" using ok x xb q fx nn \<open>sz' q = n\<close> by (auto simp: blocks_ok_def block_ok_def)
  moreover have "block_ok base brk sz' y" if "y \<in> set fl \<union> A" for y
  proof -
    have "block_ok base brk sz y" using ok that by (auto simp: blocks_ok_def)
    moreover have "0 < unat (sz' y)" if "y \<noteq> base"
      using that calculation \<open>y \<in> set fl \<union> A\<close> qA m nn qx by (cases "y = x") (auto simp: block_ok_def sz'_def)
    ultimately show ?thesis using le[OF that] by (auto simp: block_ok_def)
  qed
  moreover have "before sz' y z \<or> before sz' z y" if "y \<in> A" "z \<in> set fl \<union> A" "y \<noteq> z" for y z
    using ok that bm unfolding blocks_ok_def by blast
  moreover have "sz' base = 0" "q \<noteq> base" using ok xb x q by (auto simp: blocks_ok_def block_ok_def sz'_def)
  ultimately show "blocks_ok base brk sz' fl (insert q A)"
    unfolding blocks_ok_def using ok srt qA bq by (simp add: blocks_ok_def) blast
  obtain L R where fl: "fl = L @ x # R" using x by (auto dest: split_list)
  have "x \<notin> set L" "x \<notin> set R" using ok by (auto simp: blocks_ok_def fl sorted_wrt_append before_def)
  then have "bytes_of sz' L = bytes_of sz L" "bytes_of sz' R = bytes_of sz R"
    using qA(2) by (simp_all add: sz'_def fl bytes_of_upd)
  moreover have "block sz x = block sz' x \<union> block sz' q" using fx q by (auto simp: block_def)
  ultimately show "bytes_of sz fl = bytes_of sz' fl \<union> block sz' q" by (auto simp: fl)
  have "block sz' y \<inter> block sz' q = {}" if "y \<in> set fl" for y
    using bq[of y] that by (auto simp: before_def block_def)
  then show "bytes_of sz' fl \<inter> block sz' q = {}" by (auto simp: bytes_of_def)
qed

lemma blocks_grow:
  assumes ok: "blocks_ok base brk sz fl A" and nu: "0 < nu" "unat brk + 8 * unat nu < 2 ^ 32"
  shows "blocks_ok base (hdr_add brk nu) (sz(brk := nu)) fl (insert brk A)" "brk \<notin> A" "brk \<notin> set fl"
    "bytes_of (sz(brk := nu)) fl = bytes_of sz fl" "bytes_of sz fl \<inter> {unat brk..} = {}"
proof -
  have k: "unat (hdr_add brk nu) = unat brk + 8 * unat nu" using nu by (intro unat_hdr_add) simp
  have lt: "unat y < unat brk" "fin sz y \<le> unat brk" if "y \<in> set fl \<union> A" for y
    using ok that unfolding blocks_ok_def block_ok_def fin_def by (cases "y = base"; fastforce)+
  then show n: "brk \<notin> A" "brk \<notin> set fl" by auto
  have bb: "brk \<noteq> base" using ok by (auto simp: blocks_ok_def)
  have "before (sz(brk := nu)) y brk" if "y \<in> set fl \<union> A" for y
    using lt[OF that] n that by (auto simp: before_def fin_def)
  moreover have "before (sz(brk := nu)) y z = before sz y z" if "y \<in> set fl \<union> A" for y z
    using lt(1)[OF that] by (intro before_upd) auto
  moreover have "block_ok base (hdr_add brk nu) (sz(brk := nu)) y" if "y \<in> insert brk (set fl \<union> A)" for y
  proof (cases "y = brk")
    case True
    then show ?thesis using ok k nu by (simp add: block_ok_def blocks_ok_def fin_def word_less_nat_alt)
  next
    case False
    then have "y \<in> set fl \<union> A" using that by auto
    then have "block_ok base brk sz y" using ok by (simp add: blocks_ok_def)
    then show ?thesis using False k by (auto simp: block_ok_def fin_def)
  qed
  ultimately show "blocks_ok base (hdr_add brk nu) (sz(brk := nu)) fl (insert brk A)"
    using ok n bb k unfolding blocks_ok_def by (simp add: sorted_before_upd)
  show "bytes_of (sz(brk := nu)) fl = bytes_of sz fl" by (rule bytes_of_upd[OF n(2)])
  show "bytes_of sz fl \<inter> {unat brk..} = {}" using lt by (fastforce simp: bytes_of_def block_def)
qed

subsection \<open>The circular free list\<close>

text \<open>\<open>Path f p ps q\<close>: following \<open>f\<close> from \<open>p\<close> visits \<open>ps\<close> and arrives at \<open>q\<close>.\<close>

fun Path :: "(uint \<Rightarrow> uint) \<Rightarrow> uint \<Rightarrow> uint list \<Rightarrow> uint \<Rightarrow> bool" where
  "Path f p [] q = (p = q)"
| "Path f p (x # xs) q = (p = x \<and> Path f (f x) xs q)"

lemma Path_append: "Path f p (xs @ ys) q \<longleftrightarrow> (\<exists>r. Path f p xs r \<and> Path f r ys q)"
  by (induction xs arbitrary: p) auto

lemma Path_upd: "x \<notin> set xs \<Longrightarrow> Path (f(x := v)) p xs q = Path f p xs q"
  by (induction xs arbitrary: p) auto

lemma Path_map: "Path f p (x # xs) q \<Longrightarrow> map f (x # xs) = xs @ [q]"
  by (induction xs arbitrary: p x) auto

lemma Path_inj:
  assumes "Path f b fl b" "distinct fl" "u \<in> set fl" "v \<in> set fl" "f u = f v"
  shows "u = v"
proof -
  obtain xs where fl: "fl = b # xs" using assms(1,3) by (cases fl) auto
  then have "map f fl = xs @ [b]" using Path_map[of f b b xs b] assms(1) by simp
  then have "distinct (map f fl)" using assms(2) fl by simp
  then show ?thesis using assms(3-5) by (auto simp: distinct_map inj_on_def)
qed

lemma Path_rotate:
  assumes "Path f b fl b" "p \<in> set fl"
  obtains ps where "Path f p (p # ps) p" "set (p # ps) = set fl" "distinct fl \<longrightarrow> distinct (p # ps)"
proof -
  obtain us vs where fl: "fl = us @ p # vs" using assms(2) by (auto dest: split_list)
  have "Path f p (p # vs @ us) p" using assms(1) unfolding fl by (auto simp: Path_append)
  then show ?thesis using that[of "vs @ us"] by (auto simp: fl)
qed

lemma Path_next: "Path f b (L @ x # R) b \<Longrightarrow> f x = hd (R @ [b])"
  by (cases R) (auto simp: Path_append)

text \<open>
  The invariant of the allocator: the circular list starts at the static header and is sorted, and its
  blocks and the allocated ones \<open>A\<close> are in order.
\<close>

definition um_inv :: "um_state \<Rightarrow> uint list \<Rightarrow> uint set \<Rightarrow> bool" where
  "um_inv st fl A \<longleftrightarrow>
     blocks_ok (um_base st) (um_brk st) (um_size st) fl A \<and> Path (um_ptr st) (um_base st) fl (um_base st) \<and>
     um_freep st \<in> set fl \<and> um_base st \<noteq> 0 \<and> um_brk st < KERNBASE"

lemma sorted_before_distinct: "sorted_wrt (before sz) l \<Longrightarrow> distinct l"
  by (induction l) (auto simp: before_def)

lemma um_inv_distinct: "um_inv st fl A \<Longrightarrow> distinct fl"
  using sorted_before_distinct by (auto simp: um_inv_def blocks_ok_def)

lemma um_inv_base: "um_inv st fl A \<Longrightarrow> \<exists>l. fl = um_base st # l"
  by (cases fl) (auto simp: um_inv_def)

lemma um_inv_nonzero:
  assumes "um_inv st fl A" "x \<in> set fl \<union> A"
  shows "x \<noteq> 0"
proof -
  have "unat (um_base st) \<le> unat x" using assms by (cases "x = um_base st") (auto simp: um_inv_def blocks_ok_def block_ok_def)
  moreover have "unat (um_base st) \<noteq> 0" using assms(1) by (simp add: um_inv_def unat_eq_0)
  ultimately show ?thesis by auto
qed

text \<open>The place where free stops: the free block before the freed one.\<close>

definition free_stop :: "um_state \<Rightarrow> uint \<Rightarrow> uint \<Rightarrow> bool" where
  "free_stop st bp p \<longleftrightarrow> p < bp \<and> bp < um_ptr st p \<or> p \<ge> um_ptr st p \<and> (bp > p \<or> bp < um_ptr st p)"

lemma free_loop_stops:
  "Path (um_ptr st) p (us @ [x]) r \<Longrightarrow> free_stop st bp x \<Longrightarrow> \<forall>u\<in>set us. \<not> free_stop st bp u \<Longrightarrow> free_loop st bp p = Some x"
proof (induction us arbitrary: p)
  case Nil
  then show ?case by (subst free_loop.simps) (auto simp: free_stop_def)
next
  case (Cons u us)
  then show ?case by (subst free_loop.simps) (auto simp: free_stop_def)
qed

lemma free_stop_iff:
  assumes "um_inv st (L @ u # R) A" "um_base st < bp"
  shows "free_stop st bp u \<longleftrightarrow> u < bp \<and> (R = [] \<or> bp < hd R)"
proof -
  have n: "um_ptr st u = hd (R @ [um_base st])" using assms(1) by (intro Path_next) (auto simp: um_inv_def)
  show ?thesis
  proof (cases R)
    case Nil
    obtain l where l: "L @ u # R = um_base st # l" using um_inv_base[OF assms(1)] by auto
    then have "um_base st \<le> u"
      using assms(1) by (cases L) (auto simp: um_inv_def blocks_ok_def before_def word_le_nat_alt)
    then show ?thesis using Nil n assms(2) by (auto simp: free_stop_def)
  next
    case (Cons r R')
    then have "u < r" using assms(1) by (auto simp: um_inv_def blocks_ok_def sorted_wrt_append before_def word_less_nat_alt)
    then show ?thesis using Cons n by (auto simp: free_stop_def)
  qed
qed

lemma block_above_base:
  "blocks_ok base brk sz fl A \<Longrightarrow> x \<in> set fl \<union> A \<Longrightarrow> x \<noteq> base \<Longrightarrow> unat base + 8 \<le> unat x \<and> 0 < unat (sz x)"
  unfolding blocks_ok_def block_ok_def by blast

lemma free_place:
  assumes inv: "um_inv st fl A" and h: "h \<in> A"
  obtains L x R where "fl = L @ x # R" "unat x < unat h" "\<forall>y\<in>set R. unat h < unat y"
    "free_loop st h (um_freep st) = Some x"
proof -
  have ok: "blocks_ok (um_base st) (um_brk st) (um_size st) fl A" using inv by (simp add: um_inv_def)
  have "h \<noteq> um_base st" using ok h by (auto simp: blocks_ok_def)
  then have bh: "um_base st < h" using block_above_base[OF ok, of h] h by (simp add: word_less_nat_alt)
  define T where "T = takeWhile (\<lambda>u. u < h) fl"
  define R where "R = dropWhile (\<lambda>u. u < h) fl"
  have "T \<noteq> []" using um_inv_base[OF inv] bh by (auto simp: T_def)
  then obtain L x where T: "T = L @ [x]" by (metis append_butlast_last_id)
  have "T @ R = fl" by (simp add: T_def R_def)
  then have fl: "fl = L @ x # R" by (simp add: T)
  have "x \<in> set T" by (simp add: T)
  then have xh: "x < h" unfolding T_def by (rule set_takeWhileD[THEN conjunct2])
  have Rh: "h < y" if y: "y \<in> set R" for y
  proof -
    obtain r R' where r: "R = r # R'" using y by (cases R) auto
    have "\<not> r < h" using r dropWhile_eq_Cons_conv[of "\<lambda>u. u < h" fl r R'] by (simp add: R_def)
    moreover have "r \<noteq> h" using ok h fl r by (auto simp: blocks_ok_def)
    moreover have "y = r \<or> r < y" using that ok fl r by (auto simp: blocks_ok_def sorted_wrt_append before_def word_less_nat_alt)
    ultimately show ?thesis by auto
  qed
  have stop: "free_stop st h u \<longleftrightarrow> u = x" if u: "u \<in> set fl" for u
  proof -
    have i: "free_stop st h u \<longleftrightarrow> u < h \<and> (R1 = [] \<or> h < hd R1)" if "fl = L1 @ u # R1" for L1 R1
      using free_stop_iff[of st L1 u R1 A h] inv bh that by simp
    have d: "distinct fl" by (rule um_inv_distinct[OF inv])
    consider "u = x" | "u \<in> set L" | "u \<in> set R" using u fl by auto
    then show ?thesis
    proof cases
      case 1
      then show ?thesis using i[of L R] fl xh Rh by (cases R) auto
    next
      case 2
      then obtain L2 L3 where l: "L = L2 @ u # L3" by (auto dest: split_list)
      have "hd (L3 @ x # R) \<in> set T" by (cases L3) (auto simp: T l)
      then have "hd (L3 @ x # R) < h" unfolding T_def by (rule set_takeWhileD[THEN conjunct2])
      moreover have "u \<noteq> x" using 2 d fl by auto
      ultimately show ?thesis using i[of L2 "L3 @ x # R"] fl l by auto
    next
      case 3
      then obtain L2 L3 where l: "R = L2 @ u # L3" by (auto dest: split_list)
      then show ?thesis using i[of "L @ x # L2" L3] fl Rh[of u] 3 xh by auto
    qed
  qed
  have frp: "um_freep st \<in> set fl" "Path (um_ptr st) (um_base st) fl (um_base st)" using inv by (auto simp: um_inv_def)
  obtain ps where ps: "Path (um_ptr st) (um_freep st) (um_freep st # ps) (um_freep st)" "set (um_freep st # ps) = set fl"
    using Path_rotate[OF frp(2,1)] by metis
  have "x \<in> set (um_freep st # ps)" using ps(2) fl by auto
  then obtain us vs where us: "um_freep st # ps = us @ x # vs" "x \<notin> set us" by (meson split_list_first)
  have "free_loop st h (um_freep st) = Some x"
  proof (rule free_loop_stops)
    show "Path (um_ptr st) (um_freep st) (us @ [x]) (um_ptr st x)" using ps(1) unfolding us(1) by (auto simp: Path_append)
    show "free_stop st h x" using stop[of x] fl by simp
    have "set us \<subseteq> set fl" using ps(2) us(1) by (metis Un_upper1 set_append)
    then show "\<forall>u\<in>set us. \<not> free_stop st h u" using stop us(2) by blast
  qed
  then show ?thesis using that[OF fl] xh Rh by (simp add: word_less_nat_alt)
qed

lemma set_ptr_sel [simp]:
  "um_ptr (set_ptr p v st) = (um_ptr st)(p := v)" "um_size (set_ptr p v st) = um_size st"
  "um_base (set_ptr p v st) = um_base st" "um_brk (set_ptr p v st) = um_brk st" "um_freep (set_ptr p v st) = um_freep st"
  "um_grant (set_ptr p v st) = um_grant st"
  by (simp_all add: set_ptr_def)

lemma set_size_sel [simp]:
  "um_size (set_size p v st) = (um_size st)(p := v)" "um_ptr (set_size p v st) = um_ptr st"
  "um_base (set_size p v st) = um_base st" "um_brk (set_size p v st) = um_brk st" "um_freep (set_size p v st) = um_freep st"
  "um_grant (set_size p v st) = um_grant st"
  by (simp_all add: set_size_def)

lemma free_sel [simp]:
  "um_base (free_right bp p st) = um_base st" "um_brk (free_right bp p st) = um_brk st" "um_grant (free_right bp p st) = um_grant st"
  "um_base (free_left bp p st) = um_base st" "um_brk (free_left bp p st) = um_brk st" "um_grant (free_left bp p st) = um_grant st"
  by (simp_all add: free_right_def free_left_def)

text \<open>
  Between the two halves of free the block \<open>h\<close> is linked to its successors but not yet to its predecessor \<open>x\<close>.
\<close>

definition half_freed :: "um_state \<Rightarrow> uint list \<Rightarrow> uint \<Rightarrow> uint \<Rightarrow> uint list \<Rightarrow> uint set \<Rightarrow> bool" where
  "half_freed st L x h R A \<longleftrightarrow>
     blocks_ok (um_base st) (um_brk st) (um_size st) (L @ x # h # R) A \<and>
     Path (um_ptr st) (um_base st) L x \<and> Path (um_ptr st) (um_ptr st h) R (um_base st)"

lemma free_right_ok:
  assumes inv: "um_inv st (L @ x # R) A" and h: "h \<in> A" "unat x < unat h" "\<forall>y\<in>set R. unat h < unat y"
  defines "st1 \<equiv> free_right h x st"
  obtains R1 where "half_freed st1 L x h R1 (A - {h})"
    "bytes_of (um_size st1) (L @ x # h # R1) = bytes_of (um_size st) (L @ x # R) \<union> block (um_size st) h"
    "unat (um_size st h) \<le> unat (um_size st1 h)" "\<forall>a\<in>A - {h}. um_size st1 a = um_size st a"
proof -
  let ?b = "um_base st" and ?f = "um_ptr st" and ?sz = "um_size st"
  have ok: "blocks_ok ?b (um_brk st) ?sz (L @ x # R) A" and path: "Path ?f ?b (L @ x # R) ?b"
    using inv by (simp_all add: um_inv_def)
  note ok2 = blocks_move[OF ok h]
  have links: "Path ?f ?b L x" "Path ?f (?f x) R ?b" "?f x = hd (R @ [?b])"
    using path Path_next[OF path] by (auto simp: Path_append)
  have hn: "h \<notin> set L" "h \<notin> set R" "h \<noteq> x" "h \<noteq> ?b" using ok h(1) by (auto simp: blocks_ok_def)
  have fin: "unat (hdr_add h (?sz h)) = fin ?sz h" using blocks_fin[OF ok, of h] h(1) by simp
  show ?thesis
  proof (cases "hdr_add h (?sz h) = ?f x")
    case False
    then have st1: "st1 = set_ptr h (?f x) st" by (simp add: st1_def free_right_def)
    have "half_freed st1 L x h R (A - {h})" using ok2 links hn by (simp add: half_freed_def st1 Path_upd)
    then show ?thesis using that[of R] by (auto simp: st1)
  next
    case True
    have "unat ?b + 8 \<le> unat h" using block_above_base[OF ok, of h] h(1) hn by simp
    then have "fin ?sz h \<noteq> unat ?b" by (simp add: fin_def)
    then obtain r R' where R: "R = r # R'" "?f x = r" using links(3) True fin by (cases R) auto
    have adj: "fin ?sz h = unat r" using True fin R by simp
    have st1: "st1 = set_ptr h (?f r) (set_size h (?sz h + ?sz r) st)" using True R by (simp add: st1_def free_right_def)
    have ok3: "blocks_ok ?b (um_brk st) ?sz ((L @ [x]) @ h # r # R') (A - {h})" using ok2 R by simp
    note m = blocks_merge[OF ok3 adj hn(4)]
    have "half_freed st1 L x h R' (A - {h})" using m(1) links hn R by (auto simp: half_freed_def st1 Path_upd)
    moreover have "bytes_of (um_size st1) (L @ x # h # R') = bytes_of ?sz (L @ x # R) \<union> block ?sz h"
      using m(2) R by (auto simp: st1)
    ultimately show ?thesis using that[of R'] m(3) by (auto simp: st1)
  qed
qed

lemma free_left_ok:
  assumes half: "half_freed st L x h R A"
  defines "st2 \<equiv> free_left h x st"
  obtains fl y where "blocks_ok (um_base st) (um_brk st) (um_size st2) fl A" "Path (um_ptr st2) (um_base st) fl (um_base st)"
    "x \<in> set fl" "bytes_of (um_size st2) fl = bytes_of (um_size st) (L @ x # h # R)"
    "y \<in> set fl" "unat (um_size st h) \<le> unat (um_size st2 y)" "\<forall>a\<in>A. um_size st2 a = um_size st a"
proof -
  let ?b = "um_base st" and ?f = "um_ptr st" and ?sz = "um_size st"
  have ok: "blocks_ok ?b (um_brk st) ?sz (L @ x # h # R) A" and links: "Path ?f ?b L x" "Path ?f (?f h) R ?b"
    using half by (simp_all add: half_freed_def)
  have n: "x \<notin> set L" "x \<notin> set R" "h \<noteq> x" "x \<notin> A" "unat x < unat h"
    using ok by (auto simp: blocks_ok_def sorted_wrt_append before_def)
  have fin: "unat (hdr_add x (?sz x)) = fin ?sz x" using blocks_fin[OF ok, of x] by simp
  show ?thesis
  proof (cases "hdr_add x (?sz x) = h")
    case False
    then have st2: "st2 = set_ptr x h st" by (simp add: st2_def free_left_def)
    have "Path (um_ptr st2) ?b (L @ x # h # R) ?b" using links n by (auto simp: st2 Path_append Path_upd)
    then show ?thesis using that[of "L @ x # h # R" h] ok by (simp add: st2)
  next
    case True
    then have adj: "fin ?sz x = unat h" using fin by simp
    have st2: "st2 = set_ptr x (?f h) (set_size x (?sz x + ?sz h) st)" using True by (simp add: st2_def free_left_def)
    have "x \<noteq> ?b" using ok adj n by (auto simp: blocks_ok_def fin_def)
    note m = blocks_merge[OF ok adj this]
    have "Path (um_ptr st2) ?b (L @ x # R) ?b" using links n by (auto simp: st2 Path_append Path_upd)
    then show ?thesis using that[of "L @ x # R" x] m n by (auto simp: st2)
  qed
qed

lemma ufree_ok:
  assumes inv: "um_inv st fl A" and h: "h \<in> A"
  obtains st' fl' y where "ufree (h + 8) st = Some st'" "um_inv st' fl' (A - {h})"
    "bytes_of (um_size st') fl' = bytes_of (um_size st) fl \<union> block (um_size st) h"
    "\<forall>a\<in>A - {h}. um_size st' a = um_size st a" "um_brk st' = um_brk st" "um_base st' = um_base st" "um_grant st' = um_grant st"
    "y \<in> set fl'" "unat (um_size st h) \<le> unat (um_size st' y)"
proof -
  obtain L x R where p: "fl = L @ x # R" "unat x < unat h" "\<forall>y\<in>set R. unat h < unat y"
    "free_loop st h (um_freep st) = Some x" by (rule free_place[OF inv h])
  define st1 where "st1 = free_right h x st"
  obtain R1 where r: "half_freed st1 L x h R1 (A - {h})"
    "bytes_of (um_size st1) (L @ x # h # R1) = bytes_of (um_size st) (L @ x # R) \<union> block (um_size st) h"
    "unat (um_size st h) \<le> unat (um_size st1 h)" "\<forall>a\<in>A - {h}. um_size st1 a = um_size st a"
    unfolding st1_def by (rule free_right_ok[OF inv[unfolded p(1)] h p(2,3)])
  define st2 where "st2 = free_left h x st1"
  obtain fl' y where l: "blocks_ok (um_base st1) (um_brk st1) (um_size st2) fl' (A - {h})"
    "Path (um_ptr st2) (um_base st1) fl' (um_base st1)" "x \<in> set fl'"
    "bytes_of (um_size st2) fl' = bytes_of (um_size st1) (L @ x # h # R1)"
    "y \<in> set fl'" "unat (um_size st1 h) \<le> unat (um_size st2 y)" "\<forall>a\<in>A - {h}. um_size st2 a = um_size st1 a"
    unfolding st2_def by (rule free_left_ok[OF r(1)])
  have "ufree (h + 8) st = Some (st2\<lparr>um_freep := x\<rparr>)" using p(4) by (simp add: ufree_def st2_def st1_def)
  moreover have "um_inv (st2\<lparr>um_freep := x\<rparr>) fl' (A - {h})" using l inv by (simp add: um_inv_def st2_def st1_def)
  ultimately show ?thesis
    using that[of "st2\<lparr>um_freep := x\<rparr>" fl' y] l r p(1) by (simp add: st2_def st1_def)
qed

text \<open>What malloc has done to the free bytes and the blocks when it returns the block \<open>q\<close> of \<open>n\<close> units.\<close>

definition taken :: "uint \<Rightarrow> um_state \<Rightarrow> nat set \<Rightarrow> uint set \<Rightarrow> uint \<Rightarrow> um_state \<Rightarrow> bool" where
  "taken n st F A q st' \<longleftrightarrow>
     (\<exists>fl'. um_inv st' fl' (insert q A) \<and> F = bytes_of (um_size st') fl' \<union> block (um_size st') q \<and>
            bytes_of (um_size st') fl' \<inter> block (um_size st') q = {}) \<and>
     q \<notin> A \<and> um_size st' q = n \<and> (\<forall>a\<in>A. um_size st' a = um_size st a)"

lemma take_exact:
  assumes inv: "um_inv st fl A" and p: "p \<in> set fl" "um_ptr st p = x" and x: "x \<in> set fl" "x \<noteq> um_base st"
  defines "st' \<equiv> (set_ptr p (um_ptr st x) st)\<lparr>um_freep := p\<rparr>"
  shows "taken (um_size st x) st (bytes_of (um_size st) fl) A x st'"
proof -
  let ?b = "um_base st" and ?f = "um_ptr st" and ?sz = "um_size st"
  have ok: "blocks_ok ?b (um_brk st) ?sz fl A" and path: "Path ?f ?b fl ?b" using inv by (simp_all add: um_inv_def)
  have d: "distinct fl" by (rule um_inv_distinct[OF inv])
  obtain L R where fl: "fl = L @ x # R" using x(1) by (auto dest: split_list)
  then obtain L' y where L: "L = L' @ [y]" using um_inv_base[OF inv] x(2) by (cases L rule: rev_cases) auto
  have fy: "?f y = x" using Path_next[of ?f ?b L' y "x # R"] path fl L by simp
  then have py: "p = y" using Path_inj[OF path d p(1), of y] p(2) fl L by simp
  have "Path (um_ptr st') ?b (L @ R) ?b"
    using path d fl L py fy unfolding st'_def by (auto simp: Path_append Path_upd)
  moreover have ok': "blocks_ok ?b (um_brk st) ?sz (L @ R) (insert x A)" using blocks_take ok x(2) fl by simp
  ultimately have "um_inv st' (L @ R) (insert x A)" using inv L py by (simp add: um_inv_def st'_def)
  moreover have "block ?sz z \<inter> block ?sz x = {}" if "z \<in> set (L @ R)" for z
  proof -
    have "z \<noteq> x" using that d fl by auto
    then show ?thesis using blocks_apart[OF ok', of z x] that by (auto simp: before_def block_def)
  qed
  then have "bytes_of ?sz (L @ R) \<inter> block ?sz x = {}" by (auto simp: bytes_of_def)
  moreover have "x \<notin> A" using ok x(1) by (auto simp: blocks_ok_def)
  ultimately show ?thesis unfolding taken_def by (intro conjI exI[of _ "L @ R"]) (auto simp: st'_def fl)
qed

lemma take_block_ok:
  assumes inv: "um_inv st fl A" and p: "p \<in> set fl" "um_ptr st p = x" and x: "x \<in> set fl" and n: "0 < n" "n \<le> um_size st x"
  obtains q st' where "take_block n p x st = (q + 8, st')" "taken n st (bytes_of (um_size st) fl) A q st'" "um_brk st' = um_brk st"
proof (cases "um_size st x = n")
  case True
  have "x \<noteq> um_base st" using inv n True by (auto simp: um_inv_def blocks_ok_def)
  from take_exact[OF inv p x this] show ?thesis using that True by (simp add: take_block_def Let_def)
next
  case False
  then have n': "n < um_size st x" using n(2) by simp
  define m where "m = um_size st x - n"
  define q where "q = hdr_add x m"
  define st' where "st' = (set_size q n (set_size x m st))\<lparr>um_freep := p\<rparr>"
  have ok: "blocks_ok (um_base st) (um_brk st) (um_size st) fl A" using inv by (simp add: um_inv_def)
  note s = blocks_split[OF ok x n(1) n', folded m_def, folded q_def]
  have "um_inv st' fl (insert q A)" using s(1) inv p(1) by (simp add: um_inv_def st'_def)
  then have "taken n st (bytes_of (um_size st) fl) A q st'"
    unfolding taken_def using s by (intro conjI exI[of _ fl]) (auto simp: st'_def)
  moreover have "take_block n p x st = (q + 8, st')" using False by (simp add: take_block_def Let_def m_def q_def st'_def)
  ultimately show ?thesis using that by (simp add: st'_def)
qed

text \<open>The search of malloc: it takes the first block that fits after \<open>freep\<close>, or asks for more memory.\<close>

lemma malloc_loop_finds:
  "Path (um_ptr st) p (us @ [x]) r \<Longrightarrow> \<forall>u\<in>set us. um_size st u < n \<and> u \<noteq> um_freep st \<Longrightarrow> n \<le> um_size st x \<Longrightarrow>
   malloc_loop n prevp p st = Some (take_block n (last (prevp # us)) x st)"
proof (induction us arbitrary: p prevp)
  case Nil
  then show ?case by (subst malloc_loop.simps) simp
next
  case (Cons u us)
  then have "malloc_loop n u (um_ptr st u) st = Some (take_block n (last (u # us)) x st)" by simp
  moreover have "p = u" "(n \<le> um_size st u) = False" "(u = um_freep st) = False" using Cons.prems by auto
  ultimately show ?case by (subst malloc_loop.simps) simp
qed

lemma malloc_loop_exhausts:
  "Path (um_ptr st) p (us @ [um_freep st]) r \<Longrightarrow> \<forall>u\<in>set us. um_size st u < n \<and> u \<noteq> um_freep st \<Longrightarrow> um_size st (um_freep st) < n \<Longrightarrow>
   malloc_loop n prevp p st = Option.bind (morecore n st) (\<lambda>(p, st). if p = 0 then Some (0, st) else malloc_loop n p (um_ptr st p) st)"
proof (induction us arbitrary: p prevp)
  case Nil
  moreover have "(n \<le> um_size st (um_freep st)) = False" using Nil.prems by auto
  ultimately show ?case by (subst malloc_loop.simps) simp
next
  case (Cons u us)
  moreover have "p = u" "(n \<le> um_size st u) = False" "(u = um_freep st) = False" using Cons.prems by auto
  ultimately show ?case by (subst malloc_loop.simps) simp
qed

lemma malloc_walk:
  assumes "um_inv st fl A"
  obtains us where "Path (um_ptr st) (um_ptr st (um_freep st)) (us @ [um_freep st]) (um_ptr st (um_freep st))"
    "set (us @ [um_freep st]) = set fl" "um_freep st \<notin> set us"
proof -
  have a: "Path (um_ptr st) (um_base st) fl (um_base st)" "um_freep st \<in> set fl" "distinct fl"
    using assms um_inv_distinct[OF assms] by (simp_all add: um_inv_def)
  obtain us where "Path (um_ptr st) (um_freep st) (um_freep st # us) (um_freep st)" "set (um_freep st # us) = set fl"
    "distinct fl \<longrightarrow> distinct (um_freep st # us)" by (rule Path_rotate[OF a(1,2)])
  then show ?thesis using that[of us] a(3) by (auto simp: Path_append)
qed

lemma malloc_fit:
  assumes inv: "um_inv st fl A" and y: "y \<in> set fl" "n \<le> um_size st y" and n: "0 < n"
  obtains q st' where "malloc_loop n (um_freep st) (um_ptr st (um_freep st)) st = Some (q + 8, st')"
    "taken n st (bytes_of (um_size st) fl) A q st'" "um_brk st' = um_brk st"
proof -
  obtain us where w: "Path (um_ptr st) (um_ptr st (um_freep st)) (us @ [um_freep st]) (um_ptr st (um_freep st))"
    "set (us @ [um_freep st]) = set fl" "um_freep st \<notin> set us" by (rule malloc_walk[OF inv])
  have "\<exists>x\<in>set (us @ [um_freep st]). n \<le> um_size st x" using w(2) y by blast
  then have "\<exists>m x m'. us @ [um_freep st] = m @ x # m' \<and> n \<le> um_size st x \<and> (\<forall>u\<in>set m. \<not> n \<le> um_size st u)"
    by (rule split_list_first_prop)
  then obtain m x m' where m: "us @ [um_freep st] = m @ x # m'" "n \<le> um_size st x" "\<forall>u\<in>set m. \<not> n \<le> um_size st u" by blast
  have "us @ [um_freep st] = m @ x # m'" by (rule m(1))
  then have "set m \<subseteq> set us" by (cases m' rule: rev_cases) auto
  then have small: "\<forall>u\<in>set m. um_size st u < n \<and> u \<noteq> um_freep st" using m(3) w(3) by (auto simp: not_le)
  have path: "Path (um_ptr st) (um_ptr st (um_freep st)) (m @ [x]) (um_ptr st x)" using w(1) unfolding m(1) by (auto simp: Path_append)
  define p where "p = last (um_freep st # m)"
  have p: "p \<in> set fl" using w(2) \<open>set m \<subseteq> set us\<close> by (cases m rule: rev_cases) (auto simp: p_def)
  have px: "um_ptr st p = x" using path by (cases m rule: rev_cases) (auto simp: p_def Path_append)
  have xf: "x \<in> set fl" using w(2) m(1) by auto
  obtain q st' where "take_block n p x st = (q + 8, st')" "taken n st (bytes_of (um_size st) fl) A q st'" "um_brk st' = um_brk st"
    by (rule take_block_ok[OF inv p px xf n m(2)])
  then show ?thesis using that malloc_loop_finds[OF path small m(2), of "um_freep st"] by (simp add: p_def)
qed

subsection \<open>What malloc and free promise\<close>

lemma unat_nunits:
  assumes "nbytes \<le> 0x7FFFFFF0"
  shows "unat (nunits nbytes) = (unat nbytes + 7) div 8 + 1"
proof -
  have "unat nbytes \<le> 0x7FFFFFF0" using assms by (simp add: word_le_nat_alt)
  moreover have "nunits nbytes = (nbytes + 7) div 8 + 1" by (simp add: nunits_def add.commute)
  ultimately show ?thesis by (simp add: unat_word_ariths unat_div)
qed

lemma sbrk_grow:
  assumes "um_brk st < KERNBASE" "0 < m" "m < 0x80000000"
  shows "sbrk m st = (if unat (um_brk st) + unat m \<ge> 2 ^ 31 \<or> \<not> um_grant st (um_brk st) m then (- 1, st)
    else (um_brk st, st\<lparr>um_brk := um_brk st + m\<rparr>))"
proof -
  have k: "unat (um_brk st) < 2 ^ 31" "unat m < 2 ^ 31" using assms by (simp_all add: KERNBASE_def word_less_nat_alt)
  then have u: "unat (um_brk st + m) = unat (um_brk st) + unat m" by (simp add: unat_word_ariths)
  have "uint m < 2 ^ 31" using assms(3) by (simp add: word_less_def)
  moreover have "- (2 ^ 31) \<le> uint m" by (rule order_trans[of _ 0]) simp_all
  ultimately have "sint m = uint m" using signed_take_bit_int_eq_self[of 31 "uint m"] by (simp add: sint_uint)
  then have "0 <s m" using assms(2) by (simp add: word_sless_alt word_less_def)
  moreover have "um_brk st + m \<ge> KERNBASE \<longleftrightarrow> unat (um_brk st) + unat m \<ge> 2 ^ 31"
    by (simp add: word_le_nat_alt u KERNBASE_def)
  moreover have "\<not> um_brk st + m < um_brk st" by (simp add: word_less_nat_alt u)
  ultimately show ?thesis by (simp add: sbrk_def Let_def)
qed

definition refused :: "uint \<Rightarrow> um_state \<Rightarrow> bool" where
  "refused nu st \<longleftrightarrow> unat (um_brk st) + 8 * unat nu \<ge> 2 ^ 31 \<or> \<not> um_grant st (um_brk st) (nu * 8)"

lemma morecore_ok:
  assumes inv: "um_inv st fl A" and n: "0 < n" "8 * unat n < 2 ^ 31"
  defines "nu \<equiv> morecore_units n"
  shows "refused nu st \<Longrightarrow> morecore n st = Some (0, st)"
    and "\<not> refused nu st \<Longrightarrow> \<exists>st' fl' y. morecore n st = Some (um_freep st', st') \<and> um_inv st' fl' A \<and> um_freep st' \<noteq> 0 \<and>
      bytes_of (um_size st') fl' = bytes_of (um_size st) fl \<union> {unat (um_brk st)..<unat (um_brk st')} \<and>
      (\<forall>a\<in>A. um_size st' a = um_size st a) \<and> y \<in> set fl' \<and> n \<le> um_size st' y"
proof -
  have nu: "n \<le> nu" "8 * unat nu < 2 ^ 31" "0 < nu"
    using n by (auto simp: nu_def morecore_units_def)
  have m: "unat (nu * 8) = 8 * unat nu" using nu(2) by (simp add: unat_word_ariths mult.commute)
  have "0 < nu * 8" "nu * 8 < 0x80000000" using nu m by (simp_all add: word_less_nat_alt)
  moreover have k: "um_brk st < KERNBASE" using inv by (simp add: um_inv_def)
  ultimately have sb: "sbrk (nu * 8) st = (if refused nu st then (- 1, st) else (um_brk st, st\<lparr>um_brk := um_brk st + nu * 8\<rparr>))"
    by (subst sbrk_grow) (simp_all add: m refused_def)
  then show "refused nu st \<Longrightarrow> morecore n st = Some (0, st)" by (simp add: morecore_def nu_def[symmetric])
  assume r: "\<not> refused nu st"
  define st1 where "st1 = set_size (um_brk st) nu (st\<lparr>um_brk := um_brk st + nu * 8\<rparr>)"
  have km: "um_brk st \<noteq> - 1" using k by (auto simp: KERNBASE_def)
  have kk: "unat (um_brk st) + 8 * unat nu < 2 ^ 31" using r by (simp add: refused_def)
  have ok: "blocks_ok (um_base st) (um_brk st) (um_size st) fl A" using inv by (simp add: um_inv_def)
  note g = blocks_grow[OF ok nu(3), unfolded hdr_add_def, OF order.strict_trans[OF kk]]
  have ub: "unat (um_brk st1) = unat (um_brk st) + 8 * unat nu" using kk m by (simp add: st1_def unat_word_ariths)
  have "um_inv st1 fl (insert (um_brk st) A)" using inv g(1) kk ub
    by (auto simp: um_inv_def st1_def mult.commute KERNBASE_def word_less_nat_alt)
  then obtain st' fl' y where f: "ufree (um_brk st + 8) st1 = Some st'" "um_inv st' fl' (insert (um_brk st) A - {um_brk st})"
    "bytes_of (um_size st') fl' = bytes_of (um_size st1) fl \<union> block (um_size st1) (um_brk st)"
    "\<forall>a\<in>insert (um_brk st) A - {um_brk st}. um_size st' a = um_size st1 a" "um_brk st' = um_brk st1"
    "y \<in> set fl'" "unat (um_size st1 (um_brk st)) \<le> unat (um_size st' y)"
    by (rule ufree_ok) auto
  have A: "insert (um_brk st) A - {um_brk st} = A" using g(2) by auto
  have "morecore n st = Some (um_freep st', st')" using f(1) sb r km by (simp add: morecore_def nu_def[symmetric] st1_def)
  moreover have "um_freep st' \<noteq> 0" using um_inv_nonzero[OF f(2)] f(2) by (auto simp: um_inv_def)
  moreover have "bytes_of (um_size st') fl' = bytes_of (um_size st) fl \<union> {unat (um_brk st)..<unat (um_brk st')}"
    using f(3,5) g(4) ub by (simp add: st1_def block_def fin_def)
  moreover have "\<forall>a\<in>A. um_size st' a = um_size st a" using f(4) g(2) A by (auto simp: st1_def)
  moreover have "n \<le> um_size st' y" using f(7) nu(1) by (simp add: st1_def word_le_nat_alt)
  ultimately show "\<exists>st' fl' y. morecore n st = Some (um_freep st', st') \<and> um_inv st' fl' A \<and> um_freep st' \<noteq> 0 \<and>
      bytes_of (um_size st') fl' = bytes_of (um_size st) fl \<union> {unat (um_brk st)..<unat (um_brk st')} \<and>
      (\<forall>a\<in>A. um_size st' a = um_size st a) \<and> y \<in> set fl' \<and> n \<le> um_size st' y"
    using f(2,6) A by auto
qed

text \<open>
  The contract: \<open>F\<close> are the free bytes and \<open>A\<close> the headers of the allocated blocks.  Before the first call
  of malloc the list does not exist yet.
\<close>

definition um_fresh :: "um_state \<Rightarrow> bool" where
  "um_fresh st \<longleftrightarrow> um_freep st = 0 \<and> um_base st \<noteq> 0 \<and> unat (um_base st) + 8 \<le> unat (um_brk st) \<and> um_brk st < KERNBASE"

definition um_ok :: "nat set \<Rightarrow> uint set \<Rightarrow> um_state \<Rightarrow> bool" where
  "um_ok F A st \<longleftrightarrow> um_fresh st \<and> F = {} \<and> A = {} \<or> (\<exists>fl. um_inv st fl A \<and> F = bytes_of (um_size st) fl)"

lemma malloc_init_ok:
  assumes "um_ok F A st"
  obtains fl where "um_inv (malloc_init st) fl A" "F = bytes_of (um_size (malloc_init st)) fl"
    "\<forall>a\<in>A. um_size (malloc_init st) a = um_size st a" "um_brk (malloc_init st) = um_brk st" "um_grant (malloc_init st) = um_grant st"
proof (cases "um_freep st = 0")
  case True
  then have f: "um_fresh st" "F = {}" "A = {}"
    using assms um_inv_nonzero[of st _ A "um_freep st"] by (auto simp: um_ok_def um_inv_def)
  have "um_inv (malloc_init st) [um_base st] {}"
    using f(1) by (auto simp: um_inv_def um_fresh_def malloc_init_def blocks_ok_def block_ok_def fin_def)
  then show ?thesis using that[of "[um_base st]"] f True by (simp add: malloc_init_def block_def fin_def)
next
  case False
  then obtain fl where "um_inv st fl A" "F = bytes_of (um_size st) fl" using assms by (auto simp: um_ok_def um_fresh_def)
  then show ?thesis using that False by (simp add: malloc_init_def)
qed

lemma nunits_bounds:
  assumes "nbytes \<le> 0x7FFFFFF0"
  shows "0 < nunits nbytes" "8 * unat (nunits nbytes) < 2 ^ 31" "unat nbytes + 8 \<le> 8 * unat (nunits nbytes)"
proof -
  have "unat nbytes \<le> 0x7FFFFFF0" using assms by (simp add: word_le_nat_alt)
  then show "8 * unat (nunits nbytes) < 2 ^ 31" "unat nbytes + 8 \<le> 8 * unat (nunits nbytes)"
    unfolding unat_nunits[OF assms] by simp_all
  then show "0 < nunits nbytes" by (auto simp: word_less_nat_alt)
qed

lemma malloc_ok:
  assumes ok: "um_ok F A st" and nb: "nbytes \<le> 0x7FFFFFF0"
  defines "n \<equiv> nunits nbytes"
  obtains (none) st' where "malloc nbytes st = Some (0, st')" "um_ok F A st'" "refused (morecore_units n) st"
      "\<forall>a\<in>A. um_size st' a = um_size st a"
  | (found) q st' where "malloc nbytes st = Some (q + 8, st')" "taken n st (F \<union> {unat (um_brk st)..<unat (um_brk st')}) A q st'"
proof -
  define s0 where "s0 = malloc_init st"
  obtain fl where fl: "um_inv s0 fl A" "F = bytes_of (um_size s0) fl" "\<forall>a\<in>A. um_size s0 a = um_size st a"
    "um_brk s0 = um_brk st" "um_grant s0 = um_grant st" unfolding s0_def by (rule malloc_init_ok[OF ok])
  have n: "0 < n" "8 * unat n < 2 ^ 31" using nunits_bounds[OF nb] by (simp_all add: n_def)
  have m: "malloc nbytes st = malloc_loop n (um_freep s0) (um_ptr s0 (um_freep s0)) s0"
    by (simp add: malloc_def Let_def s0_def n_def)
  have r: "refused nu s0 = refused nu st" for nu using fl(4,5) by (simp add: refused_def)
  show ?thesis
  proof (cases "\<exists>y\<in>set fl. n \<le> um_size s0 y")
    case True
    then obtain y where y: "y \<in> set fl" "n \<le> um_size s0 y" by auto
    obtain q st' where "malloc nbytes st = Some (q + 8, st')" "taken n s0 F A q st'" "um_brk st' = um_brk s0"
      using malloc_fit[OF fl(1) y n(1)] m fl(2) by metis
    then show ?thesis using found[of q st'] fl(3,4) by (simp add: taken_def)
  next
    case False
    obtain us where w: "Path (um_ptr s0) (um_ptr s0 (um_freep s0)) (us @ [um_freep s0]) (um_ptr s0 (um_freep s0))"
      "set (us @ [um_freep s0]) = set fl" "um_freep s0 \<notin> set us" by (rule malloc_walk[OF fl(1)])
    have small: "\<forall>u\<in>set us. um_size s0 u < n \<and> u \<noteq> um_freep s0" "um_size s0 (um_freep s0) < n"
      using False w(2,3) by (auto simp: not_le)
    note e = m[unfolded malloc_loop_exhausts[OF w(1) small]]
    show ?thesis
    proof (cases "refused (morecore_units n) s0")
      case True
      then have "malloc nbytes st = Some (0, s0)" using e morecore_ok(1)[OF fl(1) n] by simp
      moreover have "um_ok F A s0" using fl by (auto simp: um_ok_def)
      ultimately show ?thesis using none True r fl(3) by simp
    next
      case False
      obtain s1 fl1 y where g: "morecore n s0 = Some (um_freep s1, s1)" "um_inv s1 fl1 A" "um_freep s1 \<noteq> 0"
        "bytes_of (um_size s1) fl1 = F \<union> {unat (um_brk s0)..<unat (um_brk s1)}" "\<forall>a\<in>A. um_size s1 a = um_size s0 a"
        "y \<in> set fl1" "n \<le> um_size s1 y" using morecore_ok(2)[OF fl(1) n False] fl(2) by auto
      obtain q st' where "malloc_loop n (um_freep s1) (um_ptr s1 (um_freep s1)) s1 = Some (q + 8, st')"
        "taken n s1 (bytes_of (um_size s1) fl1) A q st'" "um_brk st' = um_brk s1" by (rule malloc_fit[OF g(2,6,7) n(1)])
      then show ?thesis using found[of q st'] e g fl(3,4) by (simp add: taken_def)
    qed
  qed
qed

lemma taken_addr:
  assumes "taken n st F A q st'"
  shows "q + 8 \<noteq> 0" "q + 8 - 8 = q"
proof -
  obtain fl where i: "um_inv st' fl (insert q A)" using assms by (auto simp: taken_def)
  then have "fin (um_size st') q \<le> unat (um_brk st')" "um_brk st' < KERNBASE" by (auto simp: um_inv_def intro: fin_le_brk)
  then have "unat q < 2 ^ 31" by (simp add: fin_def KERNBASE_def word_less_nat_alt)
  then have "unat (q + 8) = unat q + 8" by (simp add: unat_word_ariths)
  then show "q + 8 \<noteq> 0" by (metis add_is_0 unat_0 zero_neq_numeral)
  show "q + 8 - 8 = q" by simp
qed

text \<open>C33: malloc returns for every request up to \<open>0x7FFFFFF0\<close> bytes.  A block it returns is new, large enough, and
  made of free bytes and of bytes the kernel just gave; the free bytes that remain are exactly the
  others, and no allocated block changes its size.  It returns 0 only when the kernel refuses more
  memory, and then nothing is lost.\<close>

theorem malloc_correct:
  assumes "um_ok F A st" "nbytes \<le> 0x7FFFFFF0"
  shows "\<exists>ap st'. malloc nbytes st = Some (ap, st') \<and> (\<forall>a\<in>A. um_size st' a = um_size st a) \<and>
    (if ap = 0 then um_ok F A st' \<and> refused (morecore_units (nunits nbytes)) st
     else ap - 8 \<notin> A \<and> unat nbytes + 8 \<le> 8 * unat (um_size st' (ap - 8)) \<and>
       (\<exists>F'. um_ok F' (insert (ap - 8) A) st' \<and> F' \<inter> block (um_size st') (ap - 8) = {} \<and>
         F' \<union> block (um_size st') (ap - 8) = F \<union> {unat (um_brk st)..<unat (um_brk st')}))"
  using assms
proof (cases rule: malloc_ok)
  case (none st')
  then show ?thesis by auto
next
  case (found q st')
  note a = taken_addr[OF found(2)]
  obtain fl' where i: "um_inv st' fl' (insert q A)"
    "F \<union> {unat (um_brk st)..<unat (um_brk st')} = bytes_of (um_size st') fl' \<union> block (um_size st') q"
    "bytes_of (um_size st') fl' \<inter> block (um_size st') q = {}" "q \<notin> A" "um_size st' q = nunits nbytes"
    "\<forall>a\<in>A. um_size st' a = um_size st a" using found(2) by (auto simp: taken_def)
  have "um_ok (bytes_of (um_size st') fl') (insert q A) st'" using i(1) by (auto simp: um_ok_def)
  then show ?thesis using found(1) a i nunits_bounds(3)[OF assms(2)]
    by (intro exI[of _ "q + 8"] exI[of _ st']) (auto intro!: exI[of _ "bytes_of (um_size st') fl'"])
qed

definition demo_heap :: um_state where
  "demo_heap = \<lparr>um_base = 0x1000, um_ptr = (\<lambda>p. 0), um_size = (\<lambda>p. 0), um_freep = 0, um_brk = 0x2000,
     um_grant = (\<lambda>p n. True)\<rparr>"

lemma demo_heap_ok: "um_fresh demo_heap" "um_ok {} {} demo_heap"
  by (simp_all add: um_ok_def um_fresh_def demo_heap_def KERNBASE_def)

lemma demo_heap_grants: "\<not> refused (morecore_units (nunits 100)) demo_heap"
  by (simp add: refused_def morecore_units_def nunits_def demo_heap_def)

theorem malloc_correct_witness:
  "um_ok {} {} demo_heap \<and> (\<exists>ap st'. malloc 100 demo_heap = Some (ap, st') \<and> ap \<noteq> 0 \<and> 108 \<le> 8 * unat (um_size st' (ap - 8)))"
proof -
  obtain ap st' where "malloc 100 demo_heap = Some (ap, st')"
    "ap = 0 \<Longrightarrow> refused (morecore_units (nunits 100)) demo_heap" "ap \<noteq> 0 \<Longrightarrow> unat (100 :: uint) + 8 \<le> 8 * unat (um_size st' (ap - 8))"
    using malloc_correct[OF demo_heap_ok(2), of 100] by (auto split: if_splits)
  then show ?thesis using demo_heap_ok(2) demo_heap_grants by auto
qed

text \<open>C34: free returns for every block that malloc gave and makes exactly its bytes free again, whether the block
  is joined with the free block before it, with the one after it, with both or with none; every other
  allocated block keeps its size.\<close>

theorem ufree_correct:
  assumes "um_ok F A st" "ap - 8 \<in> A"
  shows "\<exists>st'. ufree ap st = Some st' \<and> um_ok (F \<union> block (um_size st) (ap - 8)) (A - {ap - 8}) st' \<and>
    (\<forall>a\<in>A - {ap - 8}. um_size st' a = um_size st a) \<and> um_brk st' = um_brk st"
proof -
  obtain fl where fl: "um_inv st fl A" "F = bytes_of (um_size st) fl" using assms by (auto simp: um_ok_def)
  obtain st' fl' y where "ufree (ap - 8 + 8) st = Some st'" "um_inv st' fl' (A - {ap - 8})"
    "bytes_of (um_size st') fl' = bytes_of (um_size st) fl \<union> block (um_size st) (ap - 8)"
    "\<forall>a\<in>A - {ap - 8}. um_size st' a = um_size st a" "um_brk st' = um_brk st" by (rule ufree_ok[OF fl(1) assms(2)])
  then show ?thesis using fl(2) by (auto simp: um_ok_def)
qed

lemma demo_heap_block: "\<exists>q st' F'. malloc 100 demo_heap = Some (q + 8, st') \<and> um_ok F' {q} st' \<and> q + 8 \<noteq> 0"
proof -
  have nb: "(100 :: uint) \<le> 0x7FFFFFF0" by simp
  from demo_heap_ok(2) nb show ?thesis
  proof (cases rule: malloc_ok)
    case (none st')
    then show ?thesis using demo_heap_grants by simp
  next
    case (found q st')
    then show ?thesis using taken_addr[OF found(2)] by (auto simp: taken_def um_ok_def)
  qed
qed

theorem ufree_correct_witness:
  "\<exists>ap st F st'. malloc 100 demo_heap = Some (ap, st) \<and> um_ok F {ap - 8} st \<and> ufree ap st = Some st' \<and>
     um_ok (F \<union> block (um_size st) (ap - 8)) {} st'"
proof -
  obtain q st F where m: "malloc 100 demo_heap = Some (q + 8, st)" "um_ok F {q} st" using demo_heap_block by blast
  then obtain st' where "ufree (q + 8) st = Some st'" "um_ok (F \<union> block (um_size st) (q + 8 - 8)) ({q} - {q + 8 - 8}) st'"
    using ufree_correct[of F "{q}" st "q + 8"] by auto
  then show ?thesis using m by (intro exI[of _ "q + 8"] exI[of _ st] exI[of _ F] exI[of _ st']) simp
qed

text \<open>A program that frees only what malloc gave it, with the headers of the blocks it holds.\<close>

inductive um_client :: "um_state \<Rightarrow> uint set \<Rightarrow> bool" where
  start: "um_fresh st \<Longrightarrow> um_client st {}"
| alloc: "um_client st A \<Longrightarrow> nbytes \<le> 0x7FFFFFF0 \<Longrightarrow> malloc nbytes st = Some (ap, st') \<Longrightarrow> ap \<noteq> 0 \<Longrightarrow>
    um_client st' (insert (ap - 8) A)"
| alloc_fails: "um_client st A \<Longrightarrow> nbytes \<le> 0x7FFFFFF0 \<Longrightarrow> malloc nbytes st = Some (0, st') \<Longrightarrow> um_client st' A"
| free: "um_client st A \<Longrightarrow> ap - 8 \<in> A \<Longrightarrow> ufree ap st = Some st' \<Longrightarrow> um_client st' (A - {ap - 8})"

lemma client_ok: "um_client st A \<Longrightarrow> \<exists>F. um_ok F A st"
proof (induction rule: um_client.induct)
  case (start st)
  then show ?case by (auto simp: um_ok_def)
next
  case (alloc st A nbytes ap st')
  then obtain F where "um_ok F A st" by blast
  then show ?case using alloc.hyps(2)
  proof (cases rule: malloc_ok)
    case (found q st1)
    then show ?thesis using alloc.hyps(3) taken_addr[OF found(2)] by (auto simp: taken_def um_ok_def)
  qed (use alloc.hyps in auto)
next
  case (alloc_fails st A nbytes st')
  then obtain F where "um_ok F A st" by blast
  then show ?case using alloc_fails.hyps(2)
  proof (cases rule: malloc_ok)
    case (found q st1)
    then show ?thesis using alloc_fails.hyps(3) taken_addr[OF found(2)] by auto
  qed (use alloc_fails.hyps in auto)
next
  case (free st A ap st')
  then obtain fl where "um_inv st fl A" by (auto simp: um_ok_def)
  then obtain st1 fl' where "ufree (ap - 8 + 8) st = Some st1" "um_inv st1 fl' (A - {ap - 8})"
    using free.hyps(2) by (rule ufree_ok)
  then show ?case using free.hyps(3) by (auto simp: um_ok_def)
qed



text \<open>A request of nearly the whole address space wraps to one unit: malloc answers it with a block for no byte.\<close>

lemma nunits_wraps: "0xFFFFFFF9 \<le> nbytes \<Longrightarrow> nunits nbytes = 1"
proof -
  assume "0xFFFFFFF9 \<le> nbytes"
  then have "unat nbytes \<ge> 0xFFFFFFF9" by (simp add: word_le_nat_alt)
  then have "unat nbytes - 0xFFFFFFF9 < 7" using unat_lt32[of nbytes] by simp
  then have "unat (nbytes + 7) < 8"
    using \<open>unat nbytes \<ge> 0xFFFFFFF9\<close> unat_lt32[of nbytes] by (simp add: unat_word_ariths mod_if)
  then have "(nbytes + 7) div 8 = 0" by (simp add: word_unat_eq_iff unat_div del: unat_eq_iff)
  then show ?thesis by (simp add: nunits_def add.commute)
qed

end
