(* ===== verification/Ide.thy ===== *)
theory Ide
  imports Critical
begin

unbundle bit_operations_syntax

text \<open>
  The disk driver ide.c.  The state adds the request queue, a list threaded through the \<open>qnext\<close> pointers
  of the buffers, and the ports of the controller: \<open>ide_out\<close> is what the driver wrote to them, in order,
  \<open>ide_in\<close> are the values that the coming reads of the status port give, after which it reads 0, and
  \<open>ide_sect\<close> is the sector that the controller delivers for the active read.  A process that goes to sleep
  in iderw continues with \<open>iderw_wait\<close>.
\<close>

datatype ide_io = Outb nat uchar | Outsl nat memory

record idest = bufst +
  idequeue :: "nat option"
  qnext :: "nat \<Rightarrow> nat option"
  havedisk1 :: bool
  ide_out :: "ide_io list"
  ide_in :: "uchar list"
  ide_sect :: memory

definition SECTOR_SIZE :: uint where "SECTOR_SIZE = 512"
definition IDE_BSY :: uchar where "IDE_BSY = 0x80"
definition IDE_DRDY :: uchar where "IDE_DRDY = 0x40"
definition IDE_DF :: uchar where "IDE_DF = 0x20"
definition IDE_ERR :: uchar where "IDE_ERR = 0x01"
definition IDE_CMD_READ :: uchar where "IDE_CMD_READ = 0x20"
definition IDE_CMD_WRITE :: uchar where "IDE_CMD_WRITE = 0x30"
definition IDE_CMD_RDMUL :: uchar where "IDE_CMD_RDMUL = 0xc4"
definition IDE_CMD_WRMUL :: uchar where "IDE_CMD_WRMUL = 0xc5"
definition ide_FSSIZE :: uint where "ide_FSSIZE = 1000"

subsection \<open>The ports\<close>

definition emit :: "ide_io list \<Rightarrow> 'a idest_scheme \<Rightarrow> 'a idest_scheme" where
  "emit es s = s\<lparr>ide_out := ide_out s @ es\<rparr>"

definition inb_status :: "'a idest_scheme \<Rightarrow> uchar \<times> 'a idest_scheme" where
  "inb_status s = (case ide_in s of [] \<Rightarrow> (0, s) | r # rs \<Rightarrow> (r, s\<lparr>ide_in := rs\<rparr>))"

definition drive_ready :: "uchar \<Rightarrow> bool" where
  "drive_ready r \<longleftrightarrow> r AND (IDE_BSY OR IDE_DRDY) = IDE_DRDY"

text \<open>The loop of idewait: the first ready status and the reads that are left.\<close>

fun await :: "uchar list \<Rightarrow> (uchar \<times> uchar list) option" where
  "await [] = None"
| "await (r # rs) = (if drive_ready r then Some (r, rs) else await rs)"

definition idewait :: "bool \<Rightarrow> 'a idest_scheme \<Rightarrow> fault + (int \<times> 'a idest_scheme)" where
  "idewait checkerr s =
     (case await (ide_in s) of None \<Rightarrow> Inl Spin
      | Some (r, rs) \<Rightarrow>
          Inr (if checkerr \<and> r AND (IDE_DF OR IDE_ERR) \<noteq> 0 then - 1 else 0, s\<lparr>ide_in := rs\<rparr>))"

fun probe_disk1 :: "nat \<Rightarrow> 'a idest_scheme \<Rightarrow> 'a idest_scheme" where
  "probe_disk1 0 s = s"
| "probe_disk1 (Suc n) s =
     (let (r, s) = inb_status s in if r \<noteq> 0 then s\<lparr>havedisk1 := True\<rparr> else probe_disk1 n s)"

text \<open>The initialisation, apart from the routing of the interrupt in ioapicenable.\<close>

definition ideinit :: "'a idest_scheme \<Rightarrow> fault + 'a idest_scheme" where
  "ideinit s =
     bindE (idewait False (initlock L_ide ''ide'' s)) (\<lambda>(_, s).
       let s = emit [Outb 0x1f6 (0xe0 OR push_bit 4 1)] s;
           s = probe_disk1 1000 s
       in Inr (emit [Outb 0x1f6 (0xe0 OR push_bit 4 0)] s))"

subsection \<open>Requests\<close>

text \<open>What idestart writes to the ports for a buffer.\<close>

definition start_io :: "buf \<Rightarrow> ide_io list" where
  "start_io x =
     (let sector_per_block = BSIZE div SECTOR_SIZE;
          sector = blockno x * sector_per_block;
          read_cmd = (if sector_per_block = 1 then IDE_CMD_READ else IDE_CMD_RDMUL);
          write_cmd = (if sector_per_block = 1 then IDE_CMD_WRITE else IDE_CMD_WRMUL)
      in [Outb 0x3f6 0,
          Outb 0x1f2 (ucast sector_per_block),
          Outb 0x1f3 (ucast (sector AND 0xff)),
          Outb 0x1f4 (ucast (drop_bit 8 sector AND 0xff)),
          Outb 0x1f5 (ucast (drop_bit 16 sector AND 0xff)),
          Outb 0x1f6 (ucast (0xe0 OR push_bit 4 (dev x AND 1) OR (drop_bit 24 sector AND 0x0f)))] @
         (if flags x AND B_DIRTY \<noteq> 0 then [Outb 0x1f7 write_cmd, Outsl 0x1f0 (bdata x)] else [Outb 0x1f7 read_cmd]))"

definition idestart :: "nat option \<Rightarrow> 'a idest_scheme \<Rightarrow> fault + 'a idest_scheme" where
  "idestart bo s =
     (case bo of None \<Rightarrow> Inl (Panic ''idestart'')
      | Some b \<Rightarrow>
          if blockno (bufs s b) \<ge> ide_FSSIZE then Inl (Panic ''incorrect blockno'')
          else if BSIZE div SECTOR_SIZE > 7 then Inl (Panic ''idestart'')
          else bindE (idewait False s) (\<lambda>(_, s). Inr (emit (start_io (bufs s b)) s)))"

text \<open>
  The walk to the end of the queue.  There are \<open>NBUF\<close> buffers, so a longer walk would be around a cycle.
\<close>

fun queue_end :: "nat \<Rightarrow> (nat \<Rightarrow> nat option) \<Rightarrow> nat \<Rightarrow> nat option" where
  "queue_end n q b = (case q b of None \<Rightarrow> Some b | Some b' \<Rightarrow> (case n of 0 \<Rightarrow> None | Suc k \<Rightarrow> queue_end k q b'))"

declare queue_end.simps [simp del]

definition enqueue :: "nat \<Rightarrow> 'a idest_scheme \<Rightarrow> fault + 'a idest_scheme" where
  "enqueue b s =
     (let s = s\<lparr>qnext := (qnext s)(b := None)\<rparr>
      in case idequeue s of None \<Rightarrow> Inr (s\<lparr>idequeue := Some b\<rparr>)
         | Some h \<Rightarrow> (case queue_end NBUF (qnext s) h of None \<Rightarrow> Inl Spin
                   | Some l \<Rightarrow> Inr (s\<lparr>qnext := (qnext s)(l := Some b)\<rparr>)))"

definition ide_submit :: "nat \<Rightarrow> 'a idest_scheme \<Rightarrow> fault + 'a idest_scheme" where
  "ide_submit b s = bindE (enqueue b s) (\<lambda>s. if idequeue s = Some b then idestart (Some b) s else Inr s)"

definition iderw_wait :: "nat \<Rightarrow> nat \<Rightarrow> 'a idest_scheme \<Rightarrow> fault + (unit outcome \<times> 'a idest_scheme)" where
  "iderw_wait c b s =
     (if flags (bufs s b) AND (B_VALID OR B_DIRTY) \<noteq> B_VALID
      then bindE (sleep c (Ch_buf b) (Some L_ide) s) (\<lambda>s. Inr (Asleep, s))
      else bindE (release c L_ide s) (\<lambda>s. Inr (Done (), s)))"

definition iderw :: "nat \<Rightarrow> nat \<Rightarrow> 'a idest_scheme \<Rightarrow> fault + (unit outcome \<times> 'a idest_scheme)" where
  "iderw c b s =
     bindE (holdingsleep c (L_buf b) s) (\<lambda>(h, s).
       if \<not> h then Inl (Panic ''iderw: buf not locked'')
       else if flags (bufs s b) AND (B_VALID OR B_DIRTY) = B_VALID then Inl (Panic ''iderw: nothing to do'')
       else if dev (bufs s b) \<noteq> 0 \<and> \<not> havedisk1 s then Inl (Panic ''iderw: ide disk 1 not present'')
       else bindE (acquire c L_ide s) (\<lambda>s. bindE (ide_submit b s) (iderw_wait c b)))"

subsection \<open>The interrupt handler\<close>

text \<open>The data of a finished read, the flags of the finished request, and the next request.\<close>

definition ide_collect :: "nat \<Rightarrow> 'a idest_scheme \<Rightarrow> fault + 'a idest_scheme" where
  "ide_collect b s =
     (if flags (bufs s b) AND B_DIRTY \<noteq> 0 then Inr s
      else bindE (idewait True s) (\<lambda>(r, s).
        Inr (if r \<ge> 0 then set_buf b (bdata_update (\<lambda>_. ide_sect s)) s else s)))"

definition ide_next :: "'a idest_scheme \<Rightarrow> fault + 'a idest_scheme" where
  "ide_next s = (if idequeue s \<noteq> None then idestart (idequeue s) s else Inr s)"

definition ideintr :: "nat \<Rightarrow> 'a idest_scheme \<Rightarrow> fault + 'a idest_scheme" where
  "ideintr c s =
     bindE (acquire c L_ide s) (\<lambda>s.
       case idequeue s of None \<Rightarrow> release c L_ide s
       | Some b \<Rightarrow>
           bindE (ide_collect b (s\<lparr>idequeue := qnext s b\<rparr>)) (\<lambda>s.
             let s = set_buf b (\<lambda>x. x\<lparr>flags := (flags x OR B_VALID) AND NOT B_DIRTY\<rparr>) s
             in bindE (wakeup c (Ch_buf b) s) (\<lambda>s. bindE (ide_next s) (release c L_ide))))"

subsection \<open>The request queue\<close>

fun qlist :: "(nat \<Rightarrow> nat option) \<Rightarrow> nat option \<Rightarrow> nat list \<Rightarrow> bool" where
  "qlist q h [] = (h = None)"
| "qlist q h (x # xs) = (h = Some x \<and> qlist q (q x) xs)"

lemma qlist_upd: "b \<notin> set xs \<Longrightarrow> qlist (q(b := v)) h xs = qlist q h xs"
  by (induction xs arbitrary: h) auto

lemma queue_end_last:
  "qlist q (Some h) (h # xs) \<Longrightarrow> length xs \<le> n \<Longrightarrow> queue_end n q h = Some (last (h # xs))"
proof (induction xs arbitrary: h n)
  case Nil
  then show ?case by (subst queue_end.simps) simp
next
  case (Cons x xs)
  then show ?case by (subst queue_end.simps) (cases n; simp)
qed

lemma qlist_append:
  "qlist q (Some h) (h # xs) \<Longrightarrow> distinct (h # xs) \<Longrightarrow> b \<notin> set (h # xs) \<Longrightarrow> q b = None \<Longrightarrow>
   qlist (q(last (h # xs) := Some b)) (Some h) (h # xs @ [b])"
proof (induction xs arbitrary: h)
  case (Cons x xs)
  then show ?case by (auto simp: last_in_set)
qed simp

lemma enqueue_ok:
  assumes q: "qlist (qnext s) (idequeue s) xs" and d: "distinct xs" "set xs \<subseteq> {..<NBUF}" and b: "b \<notin> set xs"
  obtains h q' where "enqueue b s = Inr (s\<lparr>qnext := q', idequeue := Some h\<rparr>)" "qlist q' (Some h) (xs @ [b])" "h = hd (xs @ [b])"
proof (cases xs)
  case Nil
  then show ?thesis using that[of b "(qnext s)(b := None)"] q by (simp add: enqueue_def)
next
  case (Cons h ys)
  let ?q = "(qnext s)(b := None)"
  have "length xs \<le> NBUF" using d card_mono[of "{..<NBUF}" "set xs"] by (simp add: distinct_card)
  moreover have ql: "qlist ?q (Some h) (h # ys)" "idequeue s = Some h" using q b Cons by (auto simp: qlist_upd)
  ultimately have "queue_end NBUF ?q h = Some (last (h # ys))" using Cons by (intro queue_end_last) auto
  then have "enqueue b s = Inr (s\<lparr>qnext := ?q(last (h # ys) := Some b), idequeue := Some h\<rparr>)"
    using ql(2) by (simp add: enqueue_def)
  moreover have "qlist (?q(last (h # ys) := Some b)) (Some h) (xs @ [b])"
    using qlist_append[OF ql(1), of b] d(1) b Cons by simp
  ultimately show ?thesis using that Cons by simp
qed

subsection \<open>What the controller is told\<close>

text \<open>
  The controller's side of the ports: the registers keep what is written to them, and a write of the
  command register starts a command on the drive and the block that the registers select.  A write command
  takes the sector that follows.
\<close>

type_synonym ide_request = "bool \<times> nat \<times> memory option"

definition selected :: "(nat \<Rightarrow> uchar) \<Rightarrow> bool \<times> nat" where
  "selected r = (bit (r 0x1f6) 4,
     unat (r 0x1f3) + 2 ^ 8 * unat (r 0x1f4) + 2 ^ 16 * unat (r 0x1f5) + 2 ^ 24 * (unat (r 0x1f6) mod 16))"

fun controller :: "(nat \<Rightarrow> uchar) \<Rightarrow> ide_io list \<Rightarrow> ide_request list" where
  "controller r [] = []"
| "controller r (Outb p v # es) =
     (if p = 0x1f7 \<and> v = IDE_CMD_READ then [(fst (selected r), snd (selected r), None)] else []) @ controller (r(p := v)) es"
| "controller r (Outsl p m # es) =
     (if r 0x1f7 = IDE_CMD_WRITE then [(fst (selected r), snd (selected r), Some m)] else []) @ controller r es"

definition request :: "buf \<Rightarrow> ide_request" where
  "request x = (bit (dev x) 0, unat (blockno x), if flags x AND B_DIRTY \<noteq> 0 then Some (bdata x) else None)"

lemma unat_low_byte: "unat (ucast (n AND 0xff) :: uchar) = unat (n :: uint) mod 256"
proof -
  have "n AND 0xff = take_bit 8 n" using take_bit_eq_mask[of 8 n] by (simp add: mask_eq_exp_minus_1)
  then show ?thesis by (simp add: unsigned_ucast_eq take_bit_eq_mod unat_mod)
qed

lemma start_io_selects:
  assumes "blockno x < ide_FSSIZE"
  shows "unat (ucast (blockno x AND 0xff) :: uchar) + 2 ^ 8 * unat (ucast (drop_bit 8 (blockno x) AND 0xff) :: uchar) +
     2 ^ 16 * unat (ucast (drop_bit 16 (blockno x) AND 0xff) :: uchar) +
     2 ^ 24 * (unat (ucast (0xe0 OR push_bit 4 (dev x AND 1) OR (drop_bit 24 (blockno x) AND 0x0f)) :: uchar) mod 16) = unat (blockno x)"
    "bit (ucast (0xe0 OR push_bit 4 (dev x AND 1) OR (drop_bit 24 (blockno x) AND 0x0f)) :: uchar) 4 = bit (dev x) 0"
proof -
  have n: "unat (blockno x) < 1000" using assms by (simp add: ide_FSSIZE_def word_less_nat_alt)
  have z: "drop_bit 24 (blockno x) = 0"
    using n by (simp add: word_unat_eq_iff drop_bit_eq_div unat_div del: unat_eq_iff)
  show "bit (ucast (0xe0 OR push_bit 4 (dev x AND 1) OR (drop_bit 24 (blockno x) AND 0x0f)) :: uchar) 4 = bit (dev x) 0"
    unfolding z by (simp add: bit_simps)
  have "take_bit 4 (ucast (0xe0 OR push_bit 4 (dev x AND 1)) :: uchar) = 0"
  proof (rule bit_eqI)
    fix n :: nat
    have "n = 0 \<or> n = 1 \<or> n = 2 \<or> n = 3" if "n < 4" using that by arith
    then show "bit (take_bit 4 (ucast (0xe0 OR push_bit 4 (dev x AND 1)) :: uchar)) n = bit 0 n" by (auto simp: bit_simps)
  qed
  then have m: "unat (ucast (0xe0 OR push_bit 4 (dev x AND 1)) :: uchar) mod 16 = 0"
    using unsigned_take_bit_eq[of 4 "ucast (0xe0 OR push_bit 4 (dev x AND 1)) :: uchar", where 'a = nat]
    by (simp add: take_bit_eq_mod)
  show "unat (ucast (blockno x AND 0xff) :: uchar) + 2 ^ 8 * unat (ucast (drop_bit 8 (blockno x) AND 0xff) :: uchar) +
     2 ^ 16 * unat (ucast (drop_bit 16 (blockno x) AND 0xff) :: uchar) +
     2 ^ 24 * (unat (ucast (0xe0 OR push_bit 4 (dev x AND 1) OR (drop_bit 24 (blockno x) AND 0x0f)) :: uchar) mod 16) = unat (blockno x)"
    unfolding z unat_low_byte using n m by (simp add: drop_bit_eq_div unat_div)
qed

lemma start_io_request:
  assumes "blockno x < ide_FSSIZE"
  shows "\<exists>r'. \<forall>es. controller r (start_io x @ es) = request x # controller r' es"
proof -
  have one: "BSIZE div SECTOR_SIZE = 1" by (simp add: BSIZE_def SECTOR_SIZE_def)
  show ?thesis
    using start_io_selects[OF assms]
    by (auto simp: start_io_def one Let_def request_def selected_def IDE_CMD_READ_def IDE_CMD_WRITE_def fun_upd_def)
qed

text \<open>The events \<open>es\<close> make the controller do the requests \<open>rs\<close>, whatever comes before and after.\<close>

definition commands :: "ide_io list \<Rightarrow> ide_request list \<Rightarrow> bool" where
  "commands es rs \<longleftrightarrow> (\<forall>r. \<exists>r'. \<forall>es'. controller r (es @ es') = rs @ controller r' es')"

lemma commands_Nil: "commands [] []"
  by (auto simp: commands_def)

lemma commands_start:
  assumes "commands es rs" "blockno x < ide_FSSIZE"
  shows "commands (es @ start_io x) (rs @ [request x])"
  unfolding commands_def
proof
  fix r
  obtain r1 where 1: "\<forall>es'. controller r (es @ es') = rs @ controller r1 es'" using assms(1) by (auto simp: commands_def)
  obtain r2 where 2: "\<forall>es'. controller r1 (start_io x @ es') = request x # controller r2 es'"
    using start_io_request[OF assms(2)] by blast
  show "\<exists>r'. \<forall>es'. controller r ((es @ start_io x) @ es') = (rs @ [request x]) @ controller r' es'"
    using 1 2 by auto
qed

lemma idewait_InrD: "idewait e s = Inr (r, t) \<Longrightarrow> \<exists>rs. t = s\<lparr>ide_in := rs\<rparr>"
  by (auto simp: idewait_def split: option.splits)

lemma idestart_InrD:
  "idestart (Some b) s = Inr t \<Longrightarrow>
   blockno (bufs s b) < ide_FSSIZE \<and> (\<exists>rs. t = emit (start_io (bufs s b)) (s\<lparr>ide_in := rs\<rparr>))"
  by (auto simp: idestart_def bindE_eq_Inr not_le split: if_splits dest!: idewait_InrD)

subsection \<open>What the other components keep of the driver\<close>

definition ide_same :: "'a idest_scheme \<Rightarrow> 'a idest_scheme \<Rightarrow> bool" where
  "ide_same s t \<longleftrightarrow> bufs t = bufs s \<and> idequeue t = idequeue s \<and> qnext t = qnext s \<and> ide_out t = ide_out s"

lemma ide_same_more:
  fixes s t :: "'a idest_scheme"
  assumes "procst.more t = procst.more s"
  shows "ide_same s t"
  using assms by (cases s; cases t; simp add: ide_same_def)

lemma ide_same_locks:
  fixes s t :: "'a idest_scheme"
  assumes "lockst.more t = lockst.more s"
  shows "ide_same s t"
  using assms by (cases s; cases t; simp add: ide_same_def)

lemma ide_same_acquire: "acquire c l s = Inr t \<Longrightarrow> ide_same s t"
  by (rule ide_same_locks) (rule acquire_more)

lemma ide_same_release: "release c l s = Inr t \<Longrightarrow> ide_same s t"
  by (rule ide_same_locks) (rule release_more)

lemma ide_same_trans: "ide_same s t \<Longrightarrow> ide_same t u \<Longrightarrow> ide_same s u"
  by (simp add: ide_same_def)

lemma ide_same_wakeup:
  assumes "wakeup c ch s = Inr t"
  shows "ide_same s t"
proof -
  obtain u where u: "acquire c L_ptable s = Inr u" "release c L_ptable (wakeup1 ch u) = Inr t"
    using assms by (auto simp: wakeup_def bindE_eq_Inr)
  have "ide_same u (wakeup1 ch u)" by (simp add: ide_same_def wakeup1_def)
  then show ?thesis by (intro ide_same_trans[OF ide_same_acquire[OF u(1)]] ide_same_trans[OF _ ide_same_release[OF u(2)]])
qed

lemma ide_same_curproc: "curproc c s = Inr (i, t) \<Longrightarrow> ide_same s t"
  by (rule ide_same_locks) (auto simp: curproc_def myproc_def Let_def bindE_eq_Inr split: option.splits dest!: popcli_more)

lemma ide_same_holdingsleep:
  assumes "holdingsleep c l s = Inr (h, t)"
  shows "ide_same s t"
  using assms
  by (auto simp: holdingsleep_def bindE_eq_Inr Let_def dest!: ide_same_acquire ide_same_release ide_same_curproc intro: ide_same_trans)

lemma ide_same_wait: "iderw_wait c b s = Inr (r, t) \<Longrightarrow> ide_same s t"
  by (auto simp: iderw_wait_def bindE_eq_Inr split: if_splits dest: ide_same_release sleep_more intro: ide_same_more)

lemma iderw_InrD:
  assumes "iderw c b s = Inr (r, t)"
  obtains u v where "ide_same s u" "ide_submit b u = Inr v" "ide_same v t"
  using assms
  by (auto simp: iderw_def bindE_eq_Inr split: if_splits dest!: ide_same_holdingsleep ide_same_acquire ide_same_wait intro: ide_same_trans)

subsection \<open>The driver issues its requests in order\<close>

text \<open>
  A run of the driver: the buffers and requests that were submitted, the buffers whose requests are
  finished, and the state.  A buffer is not submitted again before its request is finished, because its sleep
  lock is held.  Between the calls of the driver anything may happen that leaves the queue, the ports and
  the buffers in the queue alone.
\<close>

inductive ide_run :: "'a idest_scheme \<Rightarrow> (nat \<times> ide_request) list \<Rightarrow> nat list \<Rightarrow> 'a idest_scheme \<Rightarrow> bool" for s0 where
  start: "idequeue s0 = None \<Longrightarrow> ide_run s0 [] [] s0"
| rw: "ide_run s0 subs dones s \<Longrightarrow> b < NBUF \<Longrightarrow> b \<notin> set (drop (length dones) (map fst subs)) \<Longrightarrow> iderw c b s = Inr (r, t) \<Longrightarrow>
    ide_run s0 (subs @ [(b, request (bufs s b))]) dones t"
| resume: "ide_run s0 subs dones s \<Longrightarrow> iderw_wait c b s = Inr (r, t) \<Longrightarrow> ide_run s0 subs dones t"
| intr: "ide_run s0 subs dones s \<Longrightarrow> ideintr c s = Inr t \<Longrightarrow>
    ide_run s0 subs (case idequeue s of None \<Rightarrow> dones | Some b \<Rightarrow> dones @ [b]) t"
| other: "ide_run s0 subs dones s \<Longrightarrow> idequeue t = idequeue s \<Longrightarrow> qnext t = qnext s \<Longrightarrow> ide_out t = ide_out s \<Longrightarrow>
    \<forall>b\<in>set (drop (length dones) (map fst subs)). bufs t b = bufs s b \<Longrightarrow> ide_run s0 subs dones t"

definition ide_inv :: "'a idest_scheme \<Rightarrow> (nat \<times> ide_request) list \<Rightarrow> nat list \<Rightarrow> 'a idest_scheme \<Rightarrow> nat list \<Rightarrow> bool" where
  "ide_inv s0 subs dones s w \<longleftrightarrow>
     map fst subs = dones @ w \<and> qlist (qnext s) (idequeue s) w \<and> distinct w \<and> set w \<subseteq> {..<NBUF} \<and>
     map snd (drop (length dones) subs) = map (request \<circ> bufs s) w \<and>
     (\<exists>es. ide_out s = ide_out s0 @ es \<and> commands es (map snd (take (length dones + min 1 (length w)) subs)))"

lemma ide_inv_cong:
  assumes "ide_inv s0 subs dones s w" "idequeue t = idequeue s" "qnext t = qnext s" "ide_out t = ide_out s" "\<forall>b\<in>set w. bufs t b = bufs s b"
  shows "ide_inv s0 subs dones t w"
  using assms by (auto simp: ide_inv_def)

lemma ide_inv_same: "ide_inv s0 subs dones s w \<Longrightarrow> ide_same s t \<Longrightarrow> ide_inv s0 subs dones t w"
  by (rule ide_inv_cong) (auto simp: ide_same_def)

lemma ide_inv_length: "ide_inv s0 subs dones s w \<Longrightarrow> length subs = length dones + length w"
  unfolding ide_inv_def by (metis length_append length_map)

lemma idestart_inv:
  assumes "idestart (Some b) s = Inr t" "ide_out s = ide_out s0 @ es" "commands es rs"
  shows "\<exists>es'. ide_out t = ide_out s0 @ es' \<and> commands es' (rs @ [request (bufs s b)])"
    "bufs t = bufs s" "idequeue t = idequeue s" "qnext t = qnext s"
  using idestart_InrD[OF assms(1)] assms(2) commands_start[OF assms(3)] by (auto simp: emit_def)

lemma submit_inv:
  assumes inv: "ide_inv s0 subs dones s w" and b: "b < NBUF" "b \<notin> set w" and t: "ide_submit b s = Inr t"
  shows "ide_inv s0 (subs @ [(b, request (bufs s b))]) dones t (w @ [b])"
proof -
  have i: "map fst subs = dones @ w" "qlist (qnext s) (idequeue s) w" "distinct w" "set w \<subseteq> {..<NBUF}"
    "map snd (drop (length dones) subs) = map (request \<circ> bufs s) w" using inv by (simp_all add: ide_inv_def)
  obtain es where es: "ide_out s = ide_out s0 @ es" "commands es (map snd (take (length dones + min 1 (length w)) subs))"
    using inv by (auto simp: ide_inv_def)
  note len = ide_inv_length[OF inv]
  obtain h q where e: "enqueue b s = Inr (s\<lparr>qnext := q, idequeue := Some h\<rparr>)" "qlist q (Some h) (w @ [b])" "h = hd (w @ [b])"
    by (rule enqueue_ok[OF i(2-4) b(2)])
  let ?u = "s\<lparr>qnext := q, idequeue := Some h\<rparr>"
  have t': "(if h = b then idestart (Some b) ?u else Inr ?u) = Inr t" using t e(1) by (simp add: ide_submit_def)
  have out: "bufs t = bufs s \<and> qnext t = q \<and> idequeue t = Some h \<and>
    (\<exists>es'. ide_out t = ide_out s0 @ es' \<and>
      commands es' (map snd (take (length dones + min 1 (length (w @ [b]))) (subs @ [(b, request (bufs s b))]))))"
  proof (cases w)
    case Nil
    then have k: "idestart (Some b) ?u = Inr t" using t' e(3) by simp
    have "commands es (map snd subs)" using es(2) Nil len by simp
    from idestart_inv[OF k _ this, of s0] es(1) Nil len show ?thesis by simp
  next
    case (Cons x xs)
    then have "t = ?u" using t' e(3) b(2) by (auto split: if_splits)
    then show ?thesis using es Cons len by auto
  qed
  have "map snd (drop (length dones) (subs @ [(b, request (bufs s b))])) = map (request \<circ> bufs t) (w @ [b])"
    using i(5) out len by simp
  then show ?thesis using i e(2) out b by (auto simp: ide_inv_def)
qed

lemma ide_collect_InrD:
  "ide_collect b s = Inr t \<Longrightarrow> idequeue t = idequeue s \<and> qnext t = qnext s \<and> ide_out t = ide_out s \<and> (\<forall>x. x \<noteq> b \<longrightarrow> bufs t x = bufs s x)"
  by (auto simp: ide_collect_def bindE_eq_Inr set_buf_def split: if_splits dest!: idewait_InrD)

lemma intr_step:
  assumes "ideintr c s = Inr t" "idequeue s = Some b"
  obtains u v where "idequeue u = qnext s b" "qnext u = qnext s" "ide_out u = ide_out s" "\<forall>x. x \<noteq> b \<longrightarrow> bufs u x = bufs s x"
    "ide_next u = Inr v" "ide_same v t"
proof -
  obtain s1 where 1: "acquire c L_ide s = Inr s1" using assms(1) by (cases "acquire c L_ide s") (auto simp: ideintr_def)
  note a = ide_same_acquire[OF 1]
  obtain s2 u v where 2: "ide_collect b (s1\<lparr>idequeue := qnext s1 b\<rparr>) = Inr s2"
    "wakeup c (Ch_buf b) (set_buf b (\<lambda>x. x\<lparr>flags := (flags x OR B_VALID) AND NOT B_DIRTY\<rparr>) s2) = Inr u"
    "ide_next u = Inr v" "release c L_ide v = Inr t"
    using assms 1 a by (auto simp: ideintr_def bindE_eq_Inr ide_same_def)
  note k = ide_collect_InrD[OF 2(1)] ide_same_wakeup[OF 2(2)]
  show ?thesis
    by (rule that[OF _ _ _ _ 2(3) ide_same_release[OF 2(4)]]) (use k a in \<open>auto simp: ide_same_def set_buf_def\<close>)
qed

lemma intr_inv:
  assumes inv: "ide_inv s0 subs dones s w" and t: "ideintr c s = Inr t"
  shows "\<exists>w'. ide_inv s0 subs (case idequeue s of None \<Rightarrow> dones | Some b \<Rightarrow> dones @ [b]) t w'"
proof (cases "idequeue s")
  case None
  then have "ide_same s t"
    using t by (auto simp: ideintr_def bindE_eq_Inr split: option.splits dest!: ide_same_acquire ide_same_release intro: ide_same_trans simp: ide_same_def)
  then show ?thesis using ide_inv_same[OF inv] None by auto
next
  case (Some b)
  obtain u v where u: "idequeue u = qnext s b" "qnext u = qnext s" "ide_out u = ide_out s" "\<forall>x. x \<noteq> b \<longrightarrow> bufs u x = bufs s x"
    "ide_next u = Inr v" "ide_same v t" by (rule intr_step[OF t Some])
  have i: "map fst subs = dones @ w" "qlist (qnext s) (idequeue s) w" "distinct w" "set w \<subseteq> {..<NBUF}"
    "map snd (drop (length dones) subs) = map (request \<circ> bufs s) w" using inv by (simp_all add: ide_inv_def)
  obtain rest where w: "w = b # rest" using i(2) Some by (cases w) auto
  note len = ide_inv_length[OF inv]
  have nb: "bufs u x = bufs s x" if "x \<in> set rest" for x using u(4) that i(3) w by auto
  obtain es where es: "ide_out s = ide_out s0 @ es" "commands es (map snd (take (Suc (length dones)) subs))"
    using inv w by (auto simp: ide_inv_def)
  have "drop (length dones) (map snd subs) = request (bufs s b) # map (request \<circ> bufs s) rest"
    using i(5) w by (simp add: drop_map)
  then have dr: "drop (Suc (length dones)) (map snd subs) = map (request \<circ> bufs s) rest"
    by (metis drop_Suc list.sel(3) tl_drop)
  have "ide_inv s0 subs (dones @ [b]) v rest"
  proof (cases rest)
    case Nil
    then have "v = u" using u(1,5) i(2) w by (simp add: ide_next_def)
    then show ?thesis using i es u Nil w dr by (auto simp: ide_inv_def drop_map)
  next
    case (Cons x xs)
    then have k: "idestart (Some x) u = Inr v" using u(1,5) i(2) w by (simp add: ide_next_def)
    have out: "ide_out u = ide_out s0 @ es" using u(3) es(1) by simp
    have rx: "map snd (take (Suc (Suc (length dones))) subs) = map snd (take (Suc (length dones)) subs) @ [request (bufs u x)]"
    proof -
      have "Suc (length dones) < length subs" using len w Cons by simp
      moreover have "map snd subs ! Suc (length dones) = request (bufs u x)"
        using dr Cons nb[of x] by (metis comp_apply hd_drop_conv_nth list.sel(1) list.set_intros(1) list.simps(9) calculation length_map)
      ultimately show ?thesis by (simp add: take_Suc_conv_app_nth)
    qed
    note st = idestart_inv[OF k out es(2), folded rx]
    show ?thesis using st i u(1,2) nb w dr Cons by (auto simp: ide_inv_def drop_map)
  qed
  from ide_inv_same[OF this u(6)] Some show ?thesis by auto
qed

text \<open>C35: The disk driver issues every request to the controller exactly once, in the order of the calls of iderw and
  one at a time: at any time the commands the controller has read from its ports are those of the
  finished requests and of the first waiting one, each on the right drive and block, with the data of the
  buffer if it is dirty.  The waiting buffers are exactly the queue.\<close>

theorem ide_issues_in_order:
  assumes "ide_run s0 subs dones s"
  shows "\<exists>w es. map fst subs = dones @ w \<and> qlist (qnext s) (idequeue s) w \<and> ide_out s = ide_out s0 @ es \<and>
    controller r es = map snd (take (length dones + min 1 (length w)) subs)"
proof -
  have "\<exists>w. ide_inv s0 subs dones s w" using assms
  proof (induction rule: ide_run.induct)
    case start
    then show ?case by (auto simp: ide_inv_def commands_Nil)
  next
    case (rw subs dones s b c r t)
    then obtain w where w: "ide_inv s0 subs dones s w" by blast
    then have "b \<notin> set w" using rw.hyps(3) by (simp add: ide_inv_def)
    moreover obtain u v where u: "ide_same s u" "ide_submit b u = Inr v" "ide_same v t" by (rule iderw_InrD[OF rw.hyps(4)])
    ultimately show ?case
      using submit_inv[OF ide_inv_same[OF w u(1)] rw.hyps(2) _ u(2)] ide_inv_same u(1,3) by (fastforce simp: ide_same_def)
  next
    case (resume subs dones s c b r t)
    then show ?case using ide_same_wait ide_inv_same by blast
  next
    case (intr subs dones s c t)
    then show ?case using intr_inv by blast
  next
    case (other subs dones s t)
    then obtain w where w: "ide_inv s0 subs dones s w" by blast
    then have "drop (length dones) (map fst subs) = w" by (simp add: ide_inv_def)
    then show ?case using ide_inv_cong[OF w] other.hyps by auto
  qed
  then obtain w es where "ide_inv s0 subs dones s w" "ide_out s = ide_out s0 @ es"
    "commands es (map snd (take (length dones + min 1 (length w)) subs))" by (auto simp: ide_inv_def)
  moreover from this(3) have "controller r es = map snd (take (length dones + min 1 (length w)) subs)"
    unfolding commands_def by (metis append_Nil2 controller.simps(1))
  ultimately show ?thesis by (auto simp: ide_inv_def)
qed

subsection \<open>The interrupt finishes the active request\<close>

lemma lockfree_ide:
  "lockfree (\<lambda>s. s\<lparr>idequeue := v\<rparr>)" "lockfree (\<lambda>s. s\<lparr>ide_in := rs\<rparr>)" "lockfree (emit es)" "lockfree (\<lambda>s. s\<lparr>qnext := q\<rparr>)"
  by (simp_all add: lockfree_def emit_def)

lemma acquired_ide [simp]:
  fixes s :: "'a idest_scheme"
  shows "idequeue (acquired c l s) = idequeue s" "qnext (acquired c l s) = qnext s" "ide_in (acquired c l s) = ide_in s"
    "bufs (acquired c l s) = bufs s" "ide_sect (acquired c l s) = ide_sect s"
  by (simp_all add: acquired_upd)

lemmas ide_acquired = lockfree_ide[THEN lockfree_acquired] lockfree_set_buf[THEN lockfree_acquired]

lemma idewait_acquired:
  "await (ide_in s) = Some (st, rs) \<Longrightarrow> idewait e (acquired c l s) =
     Inr (if e \<and> st AND (IDE_DF OR IDE_ERR) \<noteq> 0 then - 1 else 0, acquired c l (s\<lparr>ide_in := rs\<rparr>))"
  by (simp add: idewait_def ide_acquired)

lemma ide_next_acquired:
  assumes "idequeue s \<noteq> None \<longrightarrow> blockno (bufs s (the (idequeue s))) < ide_FSSIZE \<and> await (ide_in s) \<noteq> None"
  obtains t where "ide_next (acquired c l s) = Inr (acquired c l t)" "bufs t = bufs s" "idequeue t = idequeue s" "qnext t = qnext s"
    "ptable t = ptable s" "ready c pd s \<longrightarrow> ready c pd t"
proof (cases "idequeue s")
  case None
  then show ?thesis using that[of s] by (simp add: ide_next_def)
next
  case (Some b)
  then obtain st rs where w: "await (ide_in s) = Some (st, rs)" "blockno (bufs s b) < ide_FSSIZE" using assms by auto
  let ?t = "emit (start_io (bufs s b)) (s\<lparr>ide_in := rs\<rparr>)"
  have "\<not> BSIZE div SECTOR_SIZE > 7" by (simp add: BSIZE_def SECTOR_SIZE_def)
  then have "ide_next (acquired c l s) = Inr (acquired c l ?t)"
    using Some w idewait_acquired[OF w(1), of False c l] by (simp add: ide_next_def idestart_def ide_acquired)
  moreover have "ready c pd ?t" if "ready c pd s" using that by (rule ready_cong) (simp_all add: emit_def)
  ultimately show ?thesis using that[of ?t] by (simp add: emit_def)
qed

definition finished :: "uchar \<Rightarrow> memory \<Rightarrow> buf \<Rightarrow> buf" where
  "finished st m x = x\<lparr>flags := (flags x OR B_VALID) AND NOT B_DIRTY,
     bdata := if flags x AND B_DIRTY \<noteq> 0 \<or> st AND (IDE_DF OR IDE_ERR) \<noteq> 0 then bdata x else m\<rparr>"

lemma finished_flags: "flags (finished st m x) AND (B_VALID OR B_DIRTY) = B_VALID"
  unfolding iderw_flags by (simp add: bvalid_bit bdirty_bit finished_def bit_simps)

lemma set_buf_fuse: "set_buf b f (set_buf b g s) = set_buf b (\<lambda>x. f (g x)) s"
  by (simp add: set_buf_def)

lemma set_buf_eq: "f (bufs s b) = g (bufs s b) \<Longrightarrow> set_buf b f s = set_buf b g s"
  by (simp add: set_buf_def)

lemma ide_collect_acquired:
  assumes "if flags (bufs s b) AND B_DIRTY \<noteq> 0 then rs = ide_in s else await (ide_in s) = Some (st, rs)"
  obtains t where "ide_collect b (acquired c l s) = Inr (acquired c l t)"
    "set_buf b (\<lambda>x. x\<lparr>flags := (flags x OR B_VALID) AND NOT B_DIRTY\<rparr>) t = set_buf b (finished st (ide_sect s)) (s\<lparr>ide_in := rs\<rparr>)"
proof (cases "flags (bufs s b) AND B_DIRTY \<noteq> 0")
  case True
  then have "ide_collect b (acquired c l s) = Inr (acquired c l s)" by (simp add: ide_collect_def)
  then show ?thesis using that[of s] True assms by (simp add: set_buf_def finished_def)
next
  case False
  then have w: "await (ide_in s) = Some (st, rs)" using assms by simp
  let ?u = "s\<lparr>ide_in := rs\<rparr>"
  show ?thesis
  proof (cases "st AND (IDE_DF OR IDE_ERR) \<noteq> 0")
    case True
    then have "ide_collect b (acquired c l s) = Inr (acquired c l ?u)"
      using False idewait_acquired[OF w, of True c l] by (simp add: ide_collect_def)
    then show ?thesis using that[of ?u] True by (simp add: set_buf_def finished_def)
  next
    case noerr: False
    then have "ide_collect b (acquired c l s) = Inr (acquired c l (set_buf b (bdata_update (\<lambda>_. ide_sect s)) ?u))"
      using False idewait_acquired[OF w, of True c l] by (simp add: ide_collect_def ide_acquired)
    then show ?thesis
      by (rule that) (use noerr False in \<open>simp only: set_buf_fuse, intro set_buf_eq, simp add: finished_def\<close>)
  qed
qed


text \<open>A request for block 40 in buffer 3, with one for block 41 waiting behind it in buffer 5.\<close>

definition demo_ide :: idest where
  "demo_ide = \<lparr>ncpu = 2, cpus = (\<lambda>_. demo_cpu\<lparr>cproc := Some 0, intena := True\<rparr>), locks = locks demo_locks, mem = (\<lambda>_. 0),
     kfreelist = 0, use_lock = True, kend = 0x80123450, kpgdir = 0x80300000, kdata = 0x80110000,
     ptable = [demo_proc], nextpid = 2, initproc = Some 0, ticks = 0, forkret_first = False,
     panicked = False, cons_locking = True, uart = True, uartout = [], crt = (\<lambda>_. 0), crtpos = 0,
     inbuf = (\<lambda>_. 0), inr = 0, inw = 0, ine = 0, kbdshift = 0,
     slocks = (\<lambda>_. \<lparr>slk_locked = True, slk_name = [], slk_pid = 1\<rparr>),
     bufs = (\<lambda>b. \<lparr>flags = 0, dev = 0, blockno = if b = 3 then 40 else 41, refcnt = 1, bprev = 0, bnext = 0, bdata = (\<lambda>_. 0)\<rparr>),
     disk = (\<lambda>_ _. 0), disksize = 1000, dwrites = [],
     idequeue = Some 3, qnext = (\<lambda>_. None)(3 := Some 5), havedisk1 = True, ide_out = [], ide_in = [0x80, 0x40, 0x40],
     ide_sect = (\<lambda>_. 7)\<rparr>"

lemma demo_ide_ready: "ready 0 1 demo_ide" "cproc (cpus demo_ide 0) = Some 0"
  by (auto simp: ready_def demo_ide_def quiet_def lock_free_def demo_locks_def demo_cpu_def touch_def set_cpu_def demo_proc_def)


lemma iderw_sleeps:
  fixes s :: "'a idest_scheme"
  assumes r: "ready c pd s" and i: "cproc (cpus s c) = Some i" and held: "holdingsleep c (L_buf b) s = Inr (True, s)"
    and f: "flags (bufs s b) AND (B_VALID OR B_DIRTY) \<noteq> B_VALID" "dev (bufs s b) = 0"
    and sub: "ide_submit b (acquired c L_ide s) = Inr (acquired c L_ide u)" "ready c pd u" "bufs u = bufs s" "cpus u = cpus s"
  shows "\<exists>t. iderw c b s = Inr (Asleep, t)"
proof -
  have a: "acquire c L_ide s = Inr (acquired c L_ide s)" by (rule acquire_section[OF ready_steady[OF r] ready_free[OF r]])
  have "i < length (ptable u)" "cproc (cpus u c) = Some i" using sub(2,4) i by (auto simp: ready_def)
  then obtain t where "sleep c (Ch_buf b) (Some L_ide) (acquired c L_ide u) = Inr t" using sleep_acquired[OF sub(2)] by blast
  then show ?thesis using held f a sub by (auto simp: iderw_def iderw_wait_def)
qed

lemma submit_first:
  fixes s :: "'a idest_scheme"
  assumes "idequeue s = None" "await (ide_in s) = Some (st, rs)" "blockno (bufs s b) < ide_FSSIZE"
  shows "ide_submit b (acquired c l s) = Inr (acquired c l
    (emit (start_io (bufs s b)) (s\<lparr>qnext := (qnext s)(b := None), idequeue := Some b, ide_in := rs\<rparr>)))"
proof -
  let ?u = "s\<lparr>qnext := (qnext s)(b := None), idequeue := Some b\<rparr>"
  have "enqueue b (acquired c l s) = Inr (acquired c l ?u)" using assms(1) by (simp add: enqueue_def ide_acquired)
  moreover have "idestart (Some b) (acquired c l ?u) = Inr (acquired c l (emit (start_io (bufs s b)) (?u\<lparr>ide_in := rs\<rparr>)))"
    using assms idewait_acquired[of ?u st rs False c l] by (simp add: idestart_def ide_acquired BSIZE_def SECTOR_SIZE_def)
  ultimately show ?thesis by (simp add: ide_submit_def)
qed

theorem ide_issues_in_order_witness:
  "\<exists>t es. ide_run (demo_ide\<lparr>idequeue := None\<rparr>) [(3, (False, 40, None))] [] t \<and>
     ide_out t = es \<and> controller (\<lambda>_. 0) es = [(False, 40, None)]"
proof -
  let ?s = "demo_ide\<lparr>idequeue := None\<rparr>"
  let ?u = "emit (start_io (bufs ?s 3)) (?s\<lparr>qnext := (qnext ?s)(3 := None), idequeue := Some 3, ide_in := [0x40]\<rparr>)"
  have r: "ready 0 1 ?s" using demo_ide_ready(1) by (rule ready_cong) simp_all
  have c: "cproc (cpus ?s 0) = Some 0" using demo_ide_ready(2) by simp
  have h: "holdingsleep 0 (L_buf 3) ?s = Inr (True, ?s)" using holdingsleep_ready[OF r, of "L_buf 3"] by (simp add: demo_ide_def)
  have f: "flags (bufs ?s 3) AND (B_VALID OR B_DIRTY) \<noteq> B_VALID" "dev (bufs ?s 3) = 0" by (simp_all add: demo_ide_def B_VALID_def)
  have "drive_ready 0x40" "\<not> drive_ready 0x80" by (simp_all add: drive_ready_def IDE_BSY_def IDE_DRDY_def)
  then have w: "await (ide_in ?s) = Some (0x40, [0x40])" by (simp add: demo_ide_def)
  have sub: "ide_submit 3 (acquired 0 L_ide ?s) = Inr (acquired 0 L_ide ?u)"
    using submit_first[of ?s "0x40" "[0x40]" 3 0 L_ide] w by (simp add: demo_ide_def ide_FSSIZE_def)
  have u: "ready 0 1 ?u" using r by (rule ready_cong) (simp_all add: emit_def)
  obtain t where t: "iderw 0 3 ?s = Inr (Asleep, t)" using iderw_sleeps[OF r c h f sub u] by (auto simp: emit_def)
  have "request (bufs ?s 3) = (False, 40, None)" by (simp add: request_def demo_ide_def)
  then have run: "ide_run ?s [(3, (False, 40, None))] [] t"
    using ide_run.rw[OF ide_run.start[of ?s], of 3 0 Asleep t] t by (simp add: NBUF_def)
  obtain wl es where "ide_out t = ide_out ?s @ es" "map fst [(3 :: nat, (False, 40 :: nat, None :: memory option))] = [] @ wl"
    "controller (\<lambda>_. 0) es = map snd (take (length ([] :: nat list) + min 1 (length wl)) [(3 :: nat, (False, 40 :: nat, None))])"
    using ide_issues_in_order[OF run, of "\<lambda>_. 0"] by auto
  then show ?thesis using run by (intro exI[of _ t] exI[of _ es]) (auto simp: demo_ide_def)
qed

end
