(* ===== verification/Pagetab.thy ===== *)
theory Pagetab
  imports Args
begin

unbundle bit_operations_syntax

text \<open>
  Page tables as maps.  \<open>entry\<close> is the page table entry that the processor finds for an address, 0 when there is
  no page table for it.  A page directory is well formed when its present entries point to distinct pages
  that are neither free nor the directory itself; mappages then changes exactly the entries of its range.
\<close>

subsection \<open>Entries\<close>

definition slot :: "uint \<Rightarrow> uint \<Rightarrow> nat" where
  "slot T i = unat T + 4 * unat i"

definition present :: "uint \<Rightarrow> bool" where
  "present e \<longleftrightarrow> e AND PTE_P \<noteq> 0"

definition pde :: "uint \<Rightarrow> uint \<Rightarrow> memory \<Rightarrow> uint" where
  "pde d i m = load32 m (slot d i)"

definition pgtab :: "uint \<Rightarrow> uint \<Rightarrow> memory \<Rightarrow> uint" where
  "pgtab d i m = P2V (PTE_ADDR (pde d i m))"

definition entry :: "uint \<Rightarrow> uint \<Rightarrow> memory \<Rightarrow> uint" where
  "entry d va m = (if present (pde d (PDX va) m) then load32 m (slot (pgtab d (PDX va) m) (PTX va)) else 0)"

definition pt_ok :: "uint \<Rightarrow> uint \<Rightarrow> uint list \<Rightarrow> memory \<Rightarrow> bool" where
  "pt_ok lo d ps m \<longleftrightarrow>
     page_ok lo d \<and> d \<notin> set ps \<and>
     (\<forall>i. i < 1024 \<longrightarrow> present (pde d i m) \<longrightarrow> page_ok lo (pgtab d i m) \<and> pgtab d i m \<notin> set ps \<and> pgtab d i m \<noteq> d) \<and>
     (\<forall>i j. i < 1024 \<longrightarrow> j < 1024 \<longrightarrow> i \<noteq> j \<longrightarrow> present (pde d i m) \<longrightarrow> present (pde d j m) \<longrightarrow> pgtab d i m \<noteq> pgtab d j m)"

lemma index_less: "PDX va < 1024" "PTX va < 1024"
proof -
  have "x AND 0x3FF < 1024" for x :: uint
  proof -
    have "x AND 0x3FF = take_bit 10 x" using take_bit_eq_mask[of 10 x] by (simp add: mask_eq_exp_minus_1)
    moreover have "take_bit 10 (unat x) < 1024" using take_bit_nat_less_exp[of 10 "unat x"] by simp
    ultimately show ?thesis by (simp add: word_less_nat_alt unsigned_take_bit_eq)
  qed
  then show "PDX va < 1024" "PTX va < 1024" by (simp_all add: PDX_def PTX_def)
qed

lemma page_top: "page_ok lo T \<Longrightarrow> unat T + 4096 < 2 ^ 32"
  using V2P_bound[of T] by (auto simp: page_ok_def)

lemma unat_slot:
  assumes "page_ok lo T" "i < 1024"
  shows "unat (T + 4 * i) = slot T i" "slot T i + 4 \<le> unat T + 4096"
proof -
  have i: "unat i < 1024" using assms(2) by (simp add: word_less_nat_alt)
  then have "unat (4 * i) = 4 * unat i" by (simp add: unat_word_ariths)
  then show "unat (T + 4 * i) = slot T i" using page_top[OF assms(1)] i by (simp add: slot_def unat_word_ariths)
  show "slot T i + 4 \<le> unat T + 4096" using i by (simp add: slot_def)
qed

lemma slot_apart:
  assumes "page_ok lo T" "page_ok lo T'" "i < 1024" "j < 1024" "T \<noteq> T' \<or> i \<noteq> j"
  shows "slot T i + 4 \<le> slot T' j \<or> slot T' j + 4 \<le> slot T i"
proof (cases "T = T'")
  case True
  then have "unat i < unat j \<or> unat j < unat i" using assms(5) by (metis linorder_neqE_nat unat_eq_iff)
  then show ?thesis using True by (auto simp: slot_def)
next
  case False
  have "slot T i + 4 \<le> unat T + 4096" "slot T' j + 4 \<le> unat T' + 4096" "unat T \<le> slot T i" "unat T' \<le> slot T' j"
    using unat_slot(2) assms by (auto simp: slot_def)
  then show ?thesis using pages_disjoint[OF assms(1,2) False] by linarith
qed

lemma load_in_page:
  assumes "\<And>x. unat T \<le> x \<Longrightarrow> x < unat T + 4096 \<Longrightarrow> m' x = m x" "i < 1024" "page_ok lo T"
  shows "load32 m' (slot T i) = load32 m (slot T i)"
proof (rule load32_cong)
  fix k :: nat assume "k < 4"
  then show "m' (slot T i + k) = m (slot T i + k)" using unat_slot(2)[OF assms(3,2)] by (intro assms(1)) (auto simp: slot_def)
qed

lemma pt_okD:
  assumes "pt_ok lo d ps m"
  shows "page_ok lo d" "d \<notin> set ps"
    "i < 1024 \<Longrightarrow> present (pde d i m) \<Longrightarrow> page_ok lo (pgtab d i m) \<and> pgtab d i m \<notin> set ps \<and> pgtab d i m \<noteq> d"
    "i < 1024 \<Longrightarrow> j < 1024 \<Longrightarrow> i \<noteq> j \<Longrightarrow> present (pde d i m) \<Longrightarrow> present (pde d j m) \<Longrightarrow> pgtab d i m \<noteq> pgtab d j m"
  using assms by (auto simp: pt_ok_def)

text \<open>Writing an entry of a page table.\<close>

lemma entry_store:
  fixes v :: uint
  assumes ok: "pt_ok lo d ps m" and p: "present (pde d (PDX va) m)"
  defines "m' \<equiv> store32 m (slot (pgtab d (PDX va) m) (PTX va)) v"
  shows "pt_ok lo d ps m'" "entry d va' m' = (if PDX va' = PDX va \<and> PTX va' = PTX va then v else entry d va' m)"
proof -
  note D = pt_okD[OF ok]
  let ?T = "pgtab d (PDX va) m"
  have T: "page_ok lo ?T" "?T \<noteq> d" using D(3)[OF index_less(1) p] by auto
  have pde: "pde d i m' = pde d i m" if "i < 1024" for i
    using slot_apart[OF D(1) T(1) that index_less(2)[of va]] T(2) by (simp add: pde_def m'_def)
  then show "pt_ok lo d ps m'" using ok by (simp add: pt_ok_def pgtab_def)
  have tab: "pgtab d (PDX va') m' = pgtab d (PDX va') m" using pde[OF index_less(1)] by (simp add: pgtab_def)
  show "entry d va' m' = (if PDX va' = PDX va \<and> PTX va' = PTX va then v else entry d va' m)"
  proof (cases "present (pde d (PDX va') m)")
    case True
    have T': "page_ok lo (pgtab d (PDX va') m)" using D(3)[OF index_less(1) True] by simp
    have "pgtab d (PDX va') m \<noteq> ?T" if "PDX va' \<noteq> PDX va" using D(4)[OF index_less(1) index_less(1) that True p] .
    then have "load32 m' (slot (pgtab d (PDX va') m) (PTX va')) =
        (if PDX va' = PDX va \<and> PTX va' = PTX va then v else load32 m (slot (pgtab d (PDX va') m) (PTX va')))"
      using slot_apart[OF T' T(1) index_less(2)[of va'] index_less(2)[of va]] by (auto simp: m'_def)
    then show ?thesis using True pde[OF index_less(1)] tab by (simp add: entry_def)
  next
    case False
    then have "PDX va' \<noteq> PDX va" using p by auto
    then show ?thesis using False pde[OF index_less(1)] by (simp add: entry_def)
  qed
qed

text \<open>Adding an empty page table.\<close>

lemma present_bit: "present e \<longleftrightarrow> bit e 0"
  using and_exp_eq_0_iff_not_bit[of e 0] by (simp add: present_def PTE_P_def)

lemma aligned_bits:
  assumes "a mod 4096 = 0" "n < 12"
  shows "\<not> bit (a :: uint) n"
proof -
  have "take_bit 12 a = 0" using assms(1) by (simp add: take_bit_eq_mod)
  then have "\<not> bit (take_bit 12 a) n" by simp
  then show ?thesis using assms(2) by (simp add: bit_take_bit_iff)
qed

lemma frame_entry:
  assumes "a mod 4096 = 0" "f < (4096 :: uint)"
  shows "PTE_ADDR (a OR f) = a"
proof -
  have "unat f < 2 ^ 12" using assms(2) by (simp add: word_less_nat_alt)
  then have f: "take_bit 12 f = f" by (simp add: word_unat_eq_iff unsigned_take_bit_eq take_bit_nat_eq_self del: unat_eq_iff)
  have "\<not> bit f n" if "12 \<le> n" for n using that f by (metis bit_take_bit_iff leD)
  moreover have "\<not> n < 12" if "bit a n" for n using aligned_bits[OF assms(1), of n] that by auto
  moreover have m: "(0xFFF :: uint) = mask 12" by (simp add: mask_eq_exp_minus_1)
  ultimately show ?thesis unfolding PTE_ADDR_def m by (intro bit_word_eqI) (auto simp: bit_simps)
qed

lemma table_entry:
  assumes "page_ok lo p"
  shows "present (V2P p OR PTE_P OR PTE_W OR PTE_U)" "P2V (PTE_ADDR (V2P p OR PTE_P OR PTE_W OR PTE_U)) = p"
proof -
  show "present (V2P p OR PTE_P OR PTE_W OR PTE_U)" by (simp add: present_bit bit_simps PTE_P_def)
  have "V2P p < PHYSTOP" using assms by (simp add: page_ok_def)
  then have "unat (V2P p) < 0xE000000" by (simp add: PHYSTOP_def word_less_nat_alt)
  moreover have "p = V2P p + KERNBASE" by (simp add: V2P_def)
  then have "unat p = unat (V2P p + 0x80000000)" by (simp add: KERNBASE_def)
  ultimately have "unat p = unat (V2P p) + 0x80000000" by (simp add: unat_word_ariths)
  then have "(unat (V2P p) + 524288 * 4096) mod 4096 = 0" using page_aligned[OF assms] by simp
  then have "unat (V2P p) mod 4096 = 0" by (simp only: mod_mult_self1)
  then have "V2P p mod 4096 = 0" by (simp add: word_unat_eq_iff unat_mod del: unat_eq_iff)
  moreover have "V2P p OR PTE_P OR PTE_W OR PTE_U = V2P p OR 7" by (simp add: PTE_P_def PTE_W_def PTE_U_def or.assoc)
  ultimately show "P2V (PTE_ADDR (V2P p OR PTE_P OR PTE_W OR PTE_U)) = p" using frame_entry[of "V2P p" 7] by simp
qed

lemma entry_new_table:
  assumes ok: "pt_ok lo d (p # ps) m" and p: "page_ok lo p" "p \<notin> set ps" and va: "\<not> present (pde d (PDX va) m)"
  defines "m' \<equiv> store32 (memset m (unat p) 0 4096) (slot d (PDX va)) (V2P p OR PTE_P OR PTE_W OR PTE_U)"
  shows "pt_ok lo d ps m'" "entry d va' m' = entry d va' m" "present (pde d (PDX va) m')" "pgtab d (PDX va) m' = p"
proof -
  note D = pt_okD[OF ok]
  have dp: "p \<noteq> d" using D(2) by auto
  note disj = pages_disjoint[OF p(1) D(1) dp]
  have ld: "load32 (memset m (unat p) 0 4096) (slot T i) = load32 m (slot T i)" if "page_ok lo T" "T \<noteq> p" "i < 1024" for T i
  proof (rule load_in_page[OF _ that(3,1)])
    fix x assume "unat T \<le> x" "x < unat T + 4096"
    then show "memset m (unat p) 0 4096 x = m x" using pages_disjoint[OF that(1) p(1) that(2)] by (auto simp: memset_eq)
  qed
  have pde: "pde d i m' = (if i = PDX va then V2P p OR PTE_P OR PTE_W OR PTE_U else pde d i m)" if "i < 1024" for i
    using slot_apart[OF D(1) D(1) that index_less(1)[of va]] ld[OF D(1) dp[symmetric] that] by (auto simp: pde_def m'_def)
  note te = table_entry[OF p(1)]
  show pr: "present (pde d (PDX va) m')" using pde[OF index_less(1)] te(1) by simp
  show pt: "pgtab d (PDX va) m' = p" using pde[OF index_less(1)] te(2) by (simp add: pgtab_def)
  have tab: "pgtab d i m' = pgtab d i m" "present (pde d i m') = present (pde d i m)" if "i < 1024" "i \<noteq> PDX va" for i
    using pde[OF that(1)] that(2) by (simp_all add: pgtab_def)
  show "pt_ok lo d ps m'"
    unfolding pt_ok_def
  proof (intro conjI allI impI)
    show "page_ok lo d" "d \<notin> set ps" using D by auto
    show "page_ok lo (pgtab d i m')" "pgtab d i m' \<notin> set ps" "pgtab d i m' \<noteq> d" if "i < 1024" "present (pde d i m')" for i
      using that D(3)[of i] tab[of i] pt p dp by (cases "i = PDX va"; auto)+
    show "pgtab d i m' \<noteq> pgtab d j m'" if "i < 1024" "j < 1024" "i \<noteq> j" "present (pde d i m')" "present (pde d j m')" for i j
      using that D(3)[of i] D(3)[of j] D(4)[of i j] tab[of i] tab[of j] pt by (cases "i = PDX va"; cases "j = PDX va") auto
  qed
  show "entry d va' m' = entry d va' m"
  proof (cases "PDX va' = PDX va")
    case True
    have "load32 m' (slot p (PTX va')) = load32 (memset m (unat p) 0 4096) (slot p (PTX va'))"
      using slot_apart[OF p(1) D(1) index_less(2)[of va'] index_less(1)[of va]] dp by (auto simp: m'_def)
    also have "\<dots> = load32 (\<lambda>_. 0) (slot p (PTX va'))"
      by (rule load_in_page[OF _ index_less(2) p(1)]) (simp add: memset_eq)
    finally show ?thesis using True pr pt va by (simp add: entry_def load32_def)
  next
    case False
    show ?thesis
    proof (cases "present (pde d (PDX va') m)")
      case T: True
      have q: "page_ok lo (pgtab d (PDX va') m)" "pgtab d (PDX va') m \<noteq> p" "pgtab d (PDX va') m \<noteq> d"
        using D(3)[OF index_less(1) T] by auto
      have "load32 m' (slot (pgtab d (PDX va') m) (PTX va')) = load32 m (slot (pgtab d (PDX va') m) (PTX va'))"
        using slot_apart[OF q(1) D(1) index_less(2)[of va'] index_less(1)[of va]] q(3) ld[OF q(1,2) index_less(2)] by (auto simp: m'_def)
      then show ?thesis using T False tab[OF index_less(1) False] by (simp add: entry_def)
    qed (use False tab[OF index_less(1)] in \<open>simp add: entry_def\<close>)
  qed
qed

subsection \<open>walkpgdir\<close>

lemma kmem_ok_mem:
  assumes "kmem_ok c ps s" "\<And>x. m' x \<noteq> mem s x \<Longrightarrow> \<exists>v. v \<notin> set ps \<and> page_ok lo v \<and> unat v \<le> x \<and> x < unat v + 4096"
  shows "kmem_ok c ps (s\<lparr>mem := m'\<rparr>)"
proof -
  have "flist m' (kfreelist s) ps = flist (mem s) (kfreelist s) ps"
    by (rule flist_frame[OF assms(2)]) (use assms(1) in \<open>auto simp: kmem_ok_def\<close>)
  then show ?thesis using assms(1) by (simp add: kmem_ok_def lock_free_def)
qed

lemma store_in_page:
  assumes "page_ok lo T" "i < 1024" "store32 m (slot T i) v x \<noteq> m x"
  shows "unat T \<le> x \<and> x < unat T + 4096"
proof -
  have "slot T i \<le> x \<and> x < slot T i + 4" using assms(3) store32_other[of x "slot T i" m v] by fastforce
  then show ?thesis using unat_slot(2)[OF assms(1,2)] by (auto simp: slot_def)
qed

lemma walkpgdir_ok:
  assumes k: "kmem_ok c ps s" and ok: "pt_ok (kend s) d ps (mem s)"
  obtains (full) t where "walkpgdir c d va True s = Inr (0, t)" "ps = []" "kmem_ok c [] t" "mem t = mem s" "kend t = kend s"
  | (found) q t ps' where "walkpgdir c d va True s = Inr (q, t)" "q \<noteq> 0" "unat q = slot (pgtab d (PDX va) (mem t)) (PTX va)"
      "present (pde d (PDX va) (mem t))" "kmem_ok c ps' t" "pt_ok (kend t) d ps' (mem t)" "kend t = kend s"
      "length ps \<le> Suc (length ps')" "\<forall>va'. entry d va' (mem t) = entry d va' (mem s)"
proof -
  note D = pt_okD[OF ok]
  have r: "rd (d + 4 * PDX va) u = pde d (PDX va) (mem u)" for u :: "'a memst_scheme"
    using unat_slot(1)[OF D(1) index_less(1)] by (simp add: rd_def pde_def)
  have nz: "T + 4 * PTX va \<noteq> 0" if "page_ok lo T" for T lo
  proof -
    have "unat T \<le> unat (T + 4 * PTX va)" using unat_slot(1)[OF that index_less(2)] by (simp add: slot_def)
    then show ?thesis using page_ok_nonzero[OF that] by (metis le_zero_eq unat_0 unat_eq_0)
  qed
  show ?thesis
  proof (cases "present (pde d (PDX va) (mem s))")
    case True
    have T: "page_ok (kend s) (pgtab d (PDX va) (mem s))" using D(3)[OF index_less(1) True] by simp
    show ?thesis
      by (rule found[OF _ nz[OF T] unat_slot(1)[OF T index_less(2)] True k ok])
        (use True r[of s] in \<open>auto simp: walkpgdir_def present_def pgtab_def\<close>)
  next
    case False
    obtain t where t: "kalloc c s = Inr (case ps of [] \<Rightarrow> 0 | p # _ \<Rightarrow> p, t)" "kmem_ok c (tl ps) t" "kend t = kend s" "mem t = mem s"
      by (rule kalloc_ok[OF k])
    show ?thesis
    proof (cases ps)
      case Nil
      then show ?thesis using full[of t] t False r[of s] by (simp add: walkpgdir_def present_def)
    next
      case (Cons p qs)
      have p: "page_ok (kend s) p" "p \<notin> set qs" "p \<noteq> 0" using k Cons page_ok_nonzero by (auto simp: kmem_ok_def)
      let ?m = "store32 (memset (mem s) (unat p) 0 4096) (slot d (PDX va)) (V2P p OR PTE_P OR PTE_W OR PTE_U)"
      note e = entry_new_table[OF ok[unfolded Cons] p(1,2) False]
      have w: "walkpgdir c d va True s = Inr (p + 4 * PTX va, t\<lparr>mem := ?m\<rparr>)"
        using False r[of s] t(1,4) Cons p(3) unat_slot(1)[OF D(1) index_less(1)]
        by (simp add: walkpgdir_def present_def zero_page_def wr_def Let_def)
      have "kmem_ok c qs (t\<lparr>mem := ?m\<rparr>)"
      proof (rule kmem_ok_mem[where lo = "kend s"])
        show "kmem_ok c qs t" using t(2) Cons by simp
        fix x assume "?m x \<noteq> mem t x"
        then consider "?m x \<noteq> memset (mem s) (unat p) 0 4096 x" | "memset (mem s) (unat p) 0 4096 x \<noteq> mem s x"
          unfolding t(4) by fastforce
        then have "unat d \<le> x \<and> x < unat d + 4096 \<or> unat p \<le> x \<and> x < unat p + 4096"
          by cases (use store_in_page[OF D(1) index_less(1)[of va]] in blast, simp add: memset_eq split: if_splits)
        then show "\<exists>v. v \<notin> set qs \<and> page_ok (kend s) v \<and> unat v \<le> x \<and> x < unat v + 4096"
          using D(1,2) p Cons by auto
      qed
      then show ?thesis using found[OF w nz[OF p(1)]] e t(3) Cons unat_slot(1)[OF p(1) index_less(2)] by auto
    qed
  qed
qed

subsection \<open>mappages\<close>

definition pn :: "uint \<Rightarrow> nat" where
  "pn va = unat va div 4096"

lemma unat_index: "unat (PDX va) = pn va div 1024" "unat (PTX va) = pn va mod 1024"
proof -
  have m: "x AND 0x3FF = take_bit 10 x" for x :: uint using take_bit_eq_mask[of 10 x] by (simp add: mask_eq_exp_minus_1)
  have "unat va div 4194304 < 1024" using unat_lt32[of va] by simp
  then show "unat (PDX va) = pn va div 1024"
    by (simp add: PDX_def m pn_def unsigned_take_bit_eq take_bit_eq_mod drop_bit_eq_div unat_div unat_mod div_mult2_eq[symmetric])
  show "unat (PTX va) = pn va mod 1024"
    by (simp add: PTX_def m pn_def unsigned_take_bit_eq take_bit_eq_mod drop_bit_eq_div unat_div unat_mod)
qed

lemma same_page: "PDX va = PDX vb \<and> PTX va = PTX vb \<longleftrightarrow> pn va = pn vb"
proof -
  have "PDX va = PDX vb \<and> PTX va = PTX vb \<longleftrightarrow> pn va div 1024 = pn vb div 1024 \<and> pn va mod 1024 = pn vb mod 1024"
    by (metis unat_eq_iff unat_index)
  also have "\<dots> \<longleftrightarrow> pn va = pn vb" by (metis div_mult_mod_eq)
  finally show ?thesis .
qed

text \<open>The entries after \<open>m\<close> pages from \<open>a\<close> on have been mapped to the frames from \<open>pa\<close> on.\<close>

definition mapped :: "uint \<Rightarrow> nat \<Rightarrow> uint \<Rightarrow> uint \<Rightarrow> (uint \<Rightarrow> uint) \<Rightarrow> uint \<Rightarrow> uint" where
  "mapped a m pa perm e va =
     (if pn a \<le> pn va \<and> pn va < pn a + m then (pa + 4096 * of_nat (pn va - pn a)) OR perm OR PTE_P else e va)"

lemma mapped_Suc:
  assumes "\<forall>va. e' va = (if pn va = pn a then pa OR perm OR PTE_P else e va)" "pn (a + 4096) = pn a + 1"
  shows "mapped (a + 4096) m (pa + 4096) perm e' va = mapped a (Suc m) pa perm e va"
proof -
  have "of_nat (pn va - pn a) = (1 :: uint) + of_nat (pn va - Suc (pn a))" if "pn a < pn va"
    using that by (metis Suc_diff_Suc of_nat_Suc)
  then show ?thesis using assms by (auto simp: mapped_def algebra_simps)
qed

lemma mappages_turn:
  assumes k: "kmem_ok c ps s" and ok: "pt_ok (kend s) d ps (mem s)" and np: "\<not> present (entry d a (mem s))"
  obtains (full) t where "mappages_loop c d a n pa perm s = Inr (- 1, t)" "kmem_ok c [] t" "pt_ok (kend t) d [] (mem t)" "mem t = mem s" "ps = []"
  | (put) t ps' where "mappages_loop c d a n pa perm s =
        (case n of 0 \<Rightarrow> Inr (0, t) | Suc k \<Rightarrow> mappages_loop c d (a + 4096) k (pa + 4096) perm t)"
      "kmem_ok c ps' t" "pt_ok (kend t) d ps' (mem t)"
      "\<forall>va. entry d va (mem t) = (if pn va = pn a then pa OR perm OR PTE_P else entry d va (mem s))"
      "length ps \<le> Suc (length ps')"
  using k ok
proof (cases rule: walkpgdir_ok[where va = a])
  case (full t)
  then show ?thesis using ok that(1)[of t] by (simp add: mappages_loop.simps)
next
  case (found q t ps')
  let ?T = "pgtab d (PDX a) (mem t)" and ?v = "pa OR perm OR PTE_P"
  have "rd q t = entry d a (mem t)" using found(3,4) by (simp add: rd_def entry_def)
  then have "rd q t AND PTE_P = 0" using np found(9) by (simp add: present_def)
  then have l: "mappages_loop c d a n pa perm s =
      (case n of 0 \<Rightarrow> Inr (0, wr q ?v t) | Suc k \<Rightarrow> mappages_loop c d (a + 4096) k (pa + 4096) perm (wr q ?v t))"
    using found(1,2) by (subst mappages_loop.simps) (simp add: PGSIZE_def Let_def split: nat.split)
  note e = entry_store[OF found(6,4), where v = ?v]
  have T: "page_ok (kend t) ?T" "?T \<notin> set ps'" using pt_okD(3)[OF found(6) index_less(1) found(4)] by auto
  have "kmem_ok c ps' (wr q ?v t)"
    unfolding wr_def found(3) by (rule kmem_ok_mem[OF found(5), where lo = "kend t"])
      (use T store_in_page[OF T(1) index_less(2)] in blast)
  moreover have "mem (wr q ?v t) = store32 (mem t) (slot ?T (PTX a)) ?v" "kend (wr q ?v t) = kend t" by (simp_all add: wr_def found(3))
  ultimately show ?thesis using that(2)[OF l, of ps'] e found(8,9) by (auto simp: same_page)
qed

text \<open>What mappages promises: all \<open>n\<close> pages are mapped, or memory ran out and only the first \<open>m\<close> are.\<close>

definition maps :: "nat \<Rightarrow> nat \<Rightarrow> uint \<Rightarrow> uint \<Rightarrow> nat \<Rightarrow> uint \<Rightarrow> uint \<Rightarrow> 'a memst_scheme \<Rightarrow> fault + (int \<times> 'a memst_scheme) \<Rightarrow> bool" where
  "maps k c d a n pa perm s res \<longleftrightarrow>
     (\<exists>r t ps m. res = Inr (r, t) \<and> kmem_ok c ps t \<and> pt_ok (kend t) d ps (mem t) \<and>
       (r = 0 \<and> m = n \<or> r = - 1 \<and> m < n \<and> ps = []) \<and> k \<le> length ps + m \<and>
       (\<forall>va. entry d va (mem t) = mapped a m pa perm (\<lambda>va. entry d va (mem s)) va))"

lemma maps_full: "kmem_ok c [] t \<Longrightarrow> pt_ok (kend t) d [] (mem t) \<Longrightarrow> mem t = mem s \<Longrightarrow> maps 0 c d a (Suc n) pa perm s (Inr (- 1, t))"
  unfolding maps_def by (intro exI[of _ "- 1"] exI[of _ t] exI[of _ "[]"] exI[of _ 0]) (auto simp: mapped_def)

lemma mappages_loop_ok:
  "kmem_ok c ps s \<Longrightarrow> pt_ok (kend s) d ps (mem s) \<Longrightarrow> unat a mod 4096 = 0 \<Longrightarrow> unat a + 4096 * n < 2 ^ 32 \<Longrightarrow>
   \<forall>va. pn a \<le> pn va \<and> pn va \<le> pn a + n \<longrightarrow> \<not> present (entry d va (mem s)) \<Longrightarrow>
   maps (length ps) c d a (Suc n) pa perm s (mappages_loop c d a n pa perm s)"
proof (induction n arbitrary: a pa s ps)
  case 0
  from 0(5) have "\<not> present (entry d a (mem s))" by simp
  from 0(1,2) this show ?case
  proof (cases rule: mappages_turn[where n = 0 and pa = pa and perm = perm])
    case (put t qs)
    then show ?thesis unfolding maps_def by (intro exI[of _ 0] exI[of _ t] exI[of _ qs] exI[of _ 1]) (auto simp: mapped_def)
  next
    case (full t)
    from maps_full[OF full(2-4)] full(1,5) show ?thesis by simp
  qed
next
  case (Suc n)
  from Suc.prems(5) have "\<not> present (entry d a (mem s))" by simp
  from Suc.prems(1,2) this show ?case
  proof (cases rule: mappages_turn[where n = "Suc n" and pa = pa and perm = perm])
    case (put t qs)
    have u: "unat (a + 4096) = unat a + 4096" using Suc.prems(4) by (simp add: unat_word_ariths)
    then have p1: "pn (a + 4096) = pn a + 1" by (simp add: pn_def)
    have "maps (length qs) c d (a + 4096) (Suc n) (pa + 4096) perm t (mappages_loop c d (a + 4096) n (pa + 4096) perm t)"
    proof (rule Suc.IH[OF put(2,3)])
      show "unat (a + 4096) mod 4096 = 0" "unat (a + 4096) + 4096 * n < 2 ^ 32" using Suc.prems(3,4) u by auto
      show "\<forall>va. pn (a + 4096) \<le> pn va \<and> pn va \<le> pn (a + 4096) + n \<longrightarrow> \<not> present (entry d va (mem t))"
        using put(4) Suc.prems(5) p1 by auto
    qed
    then obtain r v us m where v: "mappages_loop c d a (Suc n) pa perm s = Inr (r, v)" "kmem_ok c us v" "pt_ok (kend v) d us (mem v)"
      "r = 0 \<and> m = Suc n \<or> r = - 1 \<and> m < Suc n \<and> us = []" "length qs \<le> length us + m"
      "\<forall>va. entry d va (mem v) = mapped (a + 4096) m (pa + 4096) perm (\<lambda>va. entry d va (mem t)) va"
      using put(1) by (auto simp: maps_def)
    have "\<forall>va. entry d va (mem v) = mapped a (Suc m) pa perm (\<lambda>va. entry d va (mem s)) va"
      using v(6) mapped_Suc[of "\<lambda>va. entry d va (mem t)" a pa perm "\<lambda>va. entry d va (mem s)", OF _ p1] put(4) by simp
    then show ?thesis unfolding maps_def using v put(5)
      by (intro exI[of _ r] exI[of _ v] exI[of _ us] exI[of _ "Suc m"]) auto
  next
    case (full t)
    from maps_full[OF full(2-4)] full(1,5) show ?thesis by simp
  qed
qed

lemma mappages_ok:
  assumes "kmem_ok c ps s" "pt_ok (kend s) d ps (mem s)" "0 < len" "unat va + unat len \<le> 2 ^ 32"
    and "\<forall>a. pn va \<le> pn a \<and> pn a \<le> pn (va + len - 1) \<longrightarrow> \<not> present (entry d a (mem s))"
  shows "maps (length ps) c d va (Suc (pn (va + len - 1) - pn va)) pa perm s (mappages c d va len pa perm s)"
proof -
  have z: "0 < unat len" using assms(3) by (simp add: word_less_nat_alt)
  have "va + len - 1 = word_of_nat (unat va + unat len - 1)" using z by (simp add: of_nat_diff)
  moreover have "unat va + unat len - 1 < 2 ^ 32" using assms(4) z by simp
  ultimately have e: "unat (va + len - 1) = unat va + unat len - 1" by (simp add: unat_of_nat)
  let ?a = "PGROUNDDOWN va" and ?l = "PGROUNDDOWN (va + len - 1)"
  have u: "unat ?a = 4096 * pn va" "unat ?l = 4096 * pn (va + len - 1)" by (simp_all add: unat_PGROUNDDOWN pn_def mult.commute)
  have le: "pn va \<le> pn (va + len - 1)" using e z by (simp add: pn_def div_le_mono)
  have "?a \<le> ?l" using u le by (simp add: word_le_nat_alt)
  then have n: "unat (?l - ?a) div 4096 = pn (va + len - 1) - pn va" using u by (simp add: unat_sub)
  have p: "pn ?a = pn va" by (simp add: pn_def u(1))
  have "maps (length ps) c d ?a (Suc (pn (va + len - 1) - pn va)) pa perm s (mappages c d va len pa perm s)"
    unfolding mappages_def Let_def n
  proof (rule mappages_loop_ok[OF assms(1,2)])
    show "unat ?a mod 4096 = 0" by (simp add: u)
    have "4096 * pn (va + len - 1) < 2 ^ 32" using unat_lt32[of ?l] u by simp
    then show "unat ?a + 4096 * (pn (va + len - 1) - pn va) < 2 ^ 32" using u le by (simp add: diff_mult_distrib2)
    show "\<forall>a. pn ?a \<le> pn a \<and> pn a \<le> pn ?a + (pn (va + len - 1) - pn va) \<longrightarrow> \<not> present (entry d a (mem s))"
      using assms(5) le p by auto
  qed
  moreover have "mapped ?a = mapped va" by (intro ext) (simp only: mapped_def p)
  ultimately show ?thesis by (simp only: maps_def)
qed

subsection \<open>The page walk of the processor\<close>

lemma mmu_entry:
  assumes ok: "pt_ok lo d ps (mem s)" and d: "cr3 (cpus s c) = V2P d"
  shows "mmu c False va s = (if present (entry d va (mem s)) then Some (P2V (PTE_ADDR (entry d va (mem s))) + (va AND 0xFFF)) else None)"
proof -
  note D = pt_okD[OF ok]
  have r: "rd (d + 4 * PDX va) s = pde d (PDX va) (mem s)" using unat_slot(1)[OF D(1) index_less(1)] by (simp add: rd_def pde_def)
  have "rd (pgtab d (PDX va) (mem s) + 4 * PTX va) s = load32 (mem s) (slot (pgtab d (PDX va) (mem s)) (PTX va))"
    if "present (pde d (PDX va) (mem s))"
  proof -
    have "page_ok lo (pgtab d (PDX va) (mem s))" using D(3)[OF index_less(1) that] by simp
    from unat_slot(1)[OF this index_less(2)] show ?thesis by (simp add: rd_def)
  qed
  then show ?thesis using r d by (auto simp: mmu_def entry_def present_def Let_def pgtab_def)
qed

lemma mapped_frame:
  assumes "a mod 4096 = 0" "perm < 4096"
  shows "present (a OR perm OR PTE_P)" "PTE_ADDR (a OR perm OR PTE_P) = a"
proof -
  show "present (a OR perm OR PTE_P)" by (simp add: present_bit bit_simps PTE_P_def)
  have "take_bit 12 (perm OR PTE_P) = perm OR PTE_P"
  proof -
    have "take_bit 12 perm = perm" using assms(2)
      by (simp add: word_unat_eq_iff unsigned_take_bit_eq take_bit_nat_eq_self word_less_nat_alt del: unat_eq_iff)
    moreover have "take_bit 12 PTE_P = PTE_P" by (simp add: PTE_P_def)
    ultimately show ?thesis by (simp add: take_bit_or)
  qed
  then have "unat (perm OR PTE_P) < 2 ^ 12" by (metis take_bit_nat_less_exp unsigned_take_bit_eq)
  then show "PTE_ADDR (a OR perm OR PTE_P) = a" using frame_entry[OF assms(1), of "perm OR PTE_P"] by (simp add: word_less_nat_alt or.assoc)
qed

lemma frame_aligned: "unat pa mod 4096 = 0 \<Longrightarrow> (pa + 4096 * of_nat k :: uint) mod 4096 = 0"
proof -
  assume "unat pa mod 4096 = 0"
  then have p: "4096 dvd unat pa" by auto
  have "unat (4096 * of_nat k :: uint) = 4096 * unat (of_nat k :: uint) mod 2 ^ 32" by (simp add: unat_word_ariths)
  then have "4096 dvd unat (4096 * of_nat k :: uint)" by (simp add: dvd_mod)
  then have "4096 dvd (unat pa + unat (4096 * of_nat k :: uint)) mod 2 ^ 32" using p by (intro dvd_mod dvd_add) simp_all
  then have "4096 dvd unat (pa + 4096 * of_nat k)" by (simp add: unat_word_ariths)
  then have "unat ((pa + 4096 * of_nat k) mod 4096) = 0" by (simp add: unat_mod)
  then show ?thesis by (simp add: unat_eq_0)
qed


text \<open>An empty directory in the page after the two free pages.\<close>

definition demo_dir :: memst where
  "demo_dir = set_cpu 0 (cr3_update (\<lambda>_. 0x126000)) demo_pages"

lemma demo_dir_free: "kmem_ok 0 [0x80125000, 0x80124000] demo_dir"
proof -
  have "kmem_ok 0 [0x80125000, 0x80124000] demo_pages"
    by (simp add: kmem_ok_def demo_pages_def demo_mst_def demo_locks_def demo_cpu_def cpu_ok_def lockst.defs
        lock_free_def page_ok_def V2P_def KERNBASE_def PHYSTOP_def PGSIZE_def load32_store32_other)
      (simp add: load32_def)
  then show ?thesis by (simp add: kmem_ok_def demo_dir_def set_cpu_def lock_free_def cpu_ok_def)
qed

lemma demo_dir_empty: "page_ok (kend demo_dir) 0x80126000" "i < 1024 \<Longrightarrow> pde 0x80126000 i (mem demo_dir) = 0"
proof -
  show p: "page_ok (kend demo_dir) 0x80126000"
    by (simp add: demo_dir_def set_cpu_def demo_pages_def demo_mst_def lockst.defs page_ok_def V2P_def KERNBASE_def PHYSTOP_def PGSIZE_def)
  assume i: "i < 1024"
  have "load32 (mem demo_dir) (slot 0x80126000 i) = load32 (\<lambda>_. 0) (slot 0x80126000 i)"
    by (rule load_in_page[OF _ i p])
      (simp add: demo_dir_def set_cpu_def demo_pages_def demo_mst_def lockst.defs store32_other)
  then show "pde 0x80126000 i (mem demo_dir) = 0" by (simp add: pde_def load32_def)
qed

lemma demo_dir_ok: "pt_ok (kend demo_dir) 0x80126000 [0x80125000, 0x80124000] (mem demo_dir)" "\<not> present (entry 0x80126000 va (mem demo_dir))"
  using demo_dir_empty index_less(1) by (auto simp: pt_ok_def present_def entry_def)


end
