(* ===== verification/Logtx.thy ===== *)
theory Logtx
  imports Loginv Critical
begin

text \<open>
  Transactions of the log (src/log.c): what holds between begin_op and the commit of end_op. Every
  dirty buffer is recorded in the header, the recorded blocks are distinct and outside the log, and a
  block that a client reads, changes and passes to log_write becomes one of them.
\<close>

subsection \<open>The state of a transaction\<close>

definition log_area :: "'a logst_scheme \<Rightarrow> uint set" where
  "log_area s = lblk s ` {..<nat (log_size s)}"

definition log_ok :: "'a logst_scheme \<Rightarrow> bool" where
  "log_ok s \<longleftrightarrow> log_dev s = 1 \<and> 0 \<le> lh_n s \<and> lh_n s < log_size s \<and> log_size s \<le> LOGSIZE \<and>
     (\<forall>n \<in> log_area s. n < disksize s) \<and> inj_on (lblk s) {..<nat (log_size s)} \<and>
     (\<forall>j < nat (lh_n s). hblk s j < disksize s \<and> hblk s j \<notin> log_area s) \<and> inj_on (hblk s) {..<nat (lh_n s)} \<and>
     dirtyset s = hblk s ` {..<nat (lh_n s)}"

definition txn :: "nat \<Rightarrow> int \<Rightarrow> 'a logst_scheme \<Rightarrow> bool" where
  "txn c pd s \<longleftrightarrow> ready c pd s \<and> bc_ok pd {} {} s \<and> log_ok s \<and> 1 \<le> outstanding s \<and> \<not> committing s"

text \<open>What the operations of a transaction leave alone.\<close>

definition same_fs :: "'a logst_scheme \<Rightarrow> 'a logst_scheme \<Rightarrow> bool" where
  "same_fs s t \<longleftrightarrow> disksize t = disksize s \<and> log_start t = log_start s \<and> log_size t = log_size s \<and>
     outstanding t = outstanding s \<and> committing t = committing s \<and> log_dev t = log_dev s \<and> logst.more t = logst.more s"

lemma same_fs_refl [simp]: "same_fs s s" by (simp add: same_fs_def)

lemma same_fs_trans: "same_fs s t \<Longrightarrow> same_fs t u \<Longrightarrow> same_fs s u" by (simp add: same_fs_def)

lemma bframe_same_fs:
  fixes s t :: "'a logst_scheme"
  assumes "bframe s t"
  shows "same_fs s t"
  using logst_more[OF bframeD(2)[OF assms]] bframeD(1)[OF assms] by (simp add: same_fs_def)

lemma same_fs_area: "same_fs s t \<Longrightarrow> log_area t = log_area s"
  by (simp add: same_fs_def log_area_def lblk_def)

lemma log_ok_frame:
  fixes s t :: "'a logst_scheme"
  assumes "bframe s t" "dirtyset t = dirtyset s"
  shows "log_ok t = log_ok s"
  using bframe_log[OF assms(1)] logst_more[OF bframeD(2)[OF assms(1)]] same_fs_area[OF bframe_same_fs[OF assms(1)]] assms(2)
  by (simp add: log_ok_def)

lemma txn_frame:
  fixes s t :: "'a logst_scheme"
  assumes "txn c pd s" "bframe s t" "ready c pd t" "bc_ok pd {} {} t" "dirtyset t = dirtyset s"
  shows "txn c pd t"
  using assms log_ok_frame[OF assms(2,5)] logst_more[OF bframeD(2)[OF assms(2)]] by (simp add: txn_def)

lemma txn_pending:
  assumes "txn c pd s" "lh_n s \<noteq> 0"
  shows "log_pending c pd (nat (lh_n s)) s"
proof -
  have n: "0 < lh_n s" "lh_n s < log_size s" "log_size s \<le> 30" using assms by (auto simp: txn_def log_ok_def LOGSIZE_def)
  have sub: "{..nat (lh_n s)} \<subseteq> {..<nat (log_size s)}" using n by auto
  have "inj_on (lblk s) {..nat (lh_n s)}" using assms sub by (auto simp: txn_def log_ok_def intro: inj_on_subset)
  moreover have "lblk s i \<in> log_area s" if "i \<le> nat (lh_n s)" for i using sub that by (auto simp: log_area_def)
  ultimately have "log_wf (nat (lh_n s)) s" using assms by (fastforce simp: log_wf_def txn_def log_ok_def)
  then show ?thesis using assms n by (auto simp: log_pending_def txn_def log_ok_def NBUF_def)
qed

subsection \<open>log\_write\<close>

definition record_block :: "uint \<Rightarrow> 'a logst_scheme \<Rightarrow> 'a logst_scheme" where
  "record_block n s =
     (let i = log_find (lh_block s) n [0..<nat (lh_n s)] (nat (lh_n s));
          s = s\<lparr>lh_block := (lh_block s)(i := sint n)\<rparr>
      in if int i = lh_n s then s\<lparr>lh_n := lh_n s + 1\<rparr> else s)"

lemma log_find_cases:
  "log_find f n is d \<in> set is \<and> word_of_int (f (log_find f n is d)) = n \<or>
   log_find f n is d = d \<and> (\<forall>i \<in> set is. word_of_int (f i) \<noteq> n)"
  by (induction "is") auto

lemma record_block_sel [simp]:
  "bufs (record_block n s) = bufs s" "slocks (record_block n s) = slocks s" "disk (record_block n s) = disk s"
  "dwrites (record_block n s) = dwrites s" "ptable (record_block n s) = ptable s" "cpus (record_block n s) = cpus s"
  "locks (record_block n s) = locks s" "same_fs s (record_block n s)" "disksize (record_block n s) = disksize s"
  by (simp_all add: record_block_def Let_def same_fs_def)

lemma record_block_cache [simp]:
  "bc_ok pd H M (record_block n s) = bc_ok pd H M s" "bview (record_block n s) = bview s"
  "dirtyset (record_block n s) = dirtyset s" "ready c pd (record_block n s) = ready c pd s"
  by (rule cache_cong ready_upper; simp)+

lemma record_block_head:
  fixes s :: "'a logst_scheme" and n :: uint
  assumes "0 \<le> lh_n s" "inj_on (hblk s) {..<nat (lh_n s)}"
  defines "t \<equiv> record_block n s"
  shows "hblk t ` {..<nat (lh_n t)} = insert n (hblk s ` {..<nat (lh_n s)})" "inj_on (hblk t) {..<nat (lh_n t)}"
    "lh_n s \<le> lh_n t" "lh_n t \<le> lh_n s + 1" "0 < lh_n t"
proof -
  let ?k = "nat (lh_n s)" and ?i = "log_find (lh_block s) n [0..<nat (lh_n s)] (nat (lh_n s))"
  have h: "hblk t = (hblk s)(?i := n)" by (auto simp: t_def record_block_def Let_def hblk_def fun_eq_iff)
  consider (old) "?i < ?k" "hblk s ?i = n" | (new) "?i = ?k" "\<forall>j < ?k. hblk s j \<noteq> n"
    using log_find_cases[of "lh_block s" n "[0..<?k]" ?k] by (auto simp: hblk_def)
  then have "hblk t ` {..<nat (lh_n t)} = insert n (hblk s ` {..<?k}) \<and> inj_on (hblk t) {..<nat (lh_n t)} \<and>
     lh_n s \<le> lh_n t \<and> lh_n t \<le> lh_n s + 1 \<and> 0 < lh_n t"
  proof cases
    case old
    have "hblk t = hblk s" "lh_n t = lh_n s" using old h by (auto simp: t_def record_block_def Let_def)
    moreover have "n \<in> hblk s ` {..<?k}" using imageI[of ?i "{..<?k}" "hblk s"] old by simp
    ultimately show ?thesis using old assms(1,2) by (simp add: insert_absorb)
  next
    case new
    have n: "lh_n t = lh_n s + 1" "nat (lh_n s + 1) = Suc ?k" using new(1) assms(1) by (auto simp: t_def record_block_def Let_def)
    have f: "hblk t = (hblk s)(?k := n)" using h new(1) by simp
    have "hblk t ` {..<Suc ?k} = insert n (hblk s ` {..<?k})" by (auto simp: f less_Suc_eq)
    moreover have "inj_on (hblk t) {..<Suc ?k}" using assms(2) new(2) by (auto simp: f inj_on_def less_Suc_eq)
    ultimately show ?thesis using n assms(1) by simp
  qed
  then show "hblk t ` {..<nat (lh_n t)} = insert n (hblk s ` {..<nat (lh_n s)})" "inj_on (hblk t) {..<nat (lh_n t)}"
    "lh_n s \<le> lh_n t" "lh_n t \<le> lh_n s + 1" "0 < lh_n t" by blast+
qed

lemma log_write_eq:
  fixes s :: "'a logst_scheme"
  assumes "ready c pd s" "lh_n s < LOGSIZE" "lh_n s < log_size s - 1" "1 \<le> outstanding s"
  shows "log_write c b s = Inr (set_buf b (flags_update (\<lambda>f. f OR B_DIRTY)) (record_block (blockno (bufs s b)) s))"
proof -
  let ?g = "\<lambda>s :: 'a logst_scheme. set_buf b (flags_update (\<lambda>f. f OR B_DIRTY)) (record_block (blockno (bufs s b)) s)"
  have st: "steady c s" "lock_free L_log s" using assms(1) by (simp_all add: ready_steady ready_free)
  have lf: "lockfree ?g" by (simp add: lockfree_def set_buf_def record_block_def Let_def)
  have "log_write c b s = release c L_log (?g (acquired c L_log s))"
    using assms by (simp add: log_write_def acquire_section[OF st] record_block_def Let_def)
  then show ?thesis using release_lockfree[OF st lf] by simp
qed

lemma log_write_ok:
  fixes s :: "'a logst_scheme"
  assumes "ready c pd s" "bc_ok pd {b} {b} s" "log_ok s" "1 \<le> outstanding s" "lh_n s < log_size s - 1"
    and "blockno (bufs s b) < disksize s" "blockno (bufs s b) \<notin> log_area s"
  obtains t where "log_write c b s = Inr t" "ready c pd t" "bc_ok pd {b} {} t" "log_ok t" "bview t = bview s"
    "same_fs s t" "lh_n t \<le> lh_n s + 1" "0 < lh_n t" "disk t = disk s" "dwrites t = dwrites s"
proof -
  define r where "r = record_block (blockno (bufs s b)) s"
  define t where "t = set_buf b (flags_update (\<lambda>f. f OR B_DIRTY)) r"
  have r: "ready c pd r" "bc_ok pd {b} {b} r" "bview r = bview s" "same_fs s r" "bufs r = bufs s" "dirtyset r = dirtyset s"
    using assms by (simp_all add: r_def)
  have bin: "b \<in> {b}" by simp
  note m = mark_ok[OF r(1,2) bin, folded t_def]
  have k: "0 \<le> lh_n s" "inj_on (hblk s) {..<nat (lh_n s)}" using assms(3) by (auto simp: log_ok_def)
  note h = record_block_head[OF k, of "blockno (bufs s b)", folded r_def]
  note f = bframe_log[OF m(5)] logst_more[OF bframeD(2)[OF m(5)]]
  have sf: "same_fs s t" by (rule same_fs_trans[OF r(4) bframe_same_fs[OF m(5)]])
  have e: "log_write c b s = Inr t"
    unfolding t_def r_def by (rule log_write_eq[OF assms(1)]) (use assms(3-5) in \<open>auto simp: log_ok_def\<close>)
  have d: "dirtyset t = hblk t ` {..<nat (lh_n t)}" using m(4) r(5,6) h(1) assms(3) by (simp add: f log_ok_def)
  have "\<forall>n \<in> hblk t ` {..<nat (lh_n t)}. n < disksize s \<and> n \<notin> log_area s"
    using h(1) assms(3,6,7) by (auto simp: f log_ok_def)
  then have rec: "\<forall>j < nat (lh_n t). hblk t j < disksize s \<and> hblk t j \<notin> log_area s" by blast
  have same: "lblk t = lblk s" "log_size t = log_size s" "disksize t = disksize s" "log_dev t = log_dev s" "log_area t = log_area s"
    using sf same_fs_area[OF sf] by (simp_all add: same_fs_def lblk_def fun_eq_iff)
  have inj: "inj_on (hblk t) {..<nat (lh_n t)}" "0 \<le> lh_n t" "lh_n t < log_size s" using h assms(5) by (simp_all add: f)
  have "log_ok t" unfolding log_ok_def same using d rec inj assms(3) by (simp add: log_ok_def)
  moreover have "lh_n t \<le> lh_n s + 1" "0 < lh_n t" using h by (simp_all add: f)
  moreover have "disk t = disk s" "dwrites t = dwrites s" by (simp_all add: t_def r_def)
  ultimately show ?thesis using that[OF e m(1)] m(2,3) r(3) sf by simp
qed

subsection \<open>One block of a transaction\<close>

text \<open>A process can read blocks when not every buffer is dirty; a read and its release change no content.\<close>

definition cached :: "nat \<Rightarrow> int \<Rightarrow> 'a bufst_scheme \<Rightarrow> bool" where
  "cached c pd s \<longleftrightarrow> ready c pd s \<and> bc_ok pd {} {} s \<and> card (dirtyset s) < NBUF"

definition unread :: "nat \<Rightarrow> int \<Rightarrow> 'a bufst_scheme \<Rightarrow> 'a bufst_scheme \<Rightarrow> bool" where
  "unread c pd s t \<longleftrightarrow> cached c pd t \<and> bview t = bview s \<and> dirtyset t = dirtyset s \<and> disk t = disk s \<and>
     dwrites t = dwrites s \<and> bframe s t"

lemma unread_refl: "cached c pd s \<Longrightarrow> unread c pd s s"
  by (simp add: unread_def bframe_refl)

lemma unread_trans: "unread c pd s t \<Longrightarrow> unread c pd t u \<Longrightarrow> unread c pd s u"
  unfolding unread_def by (auto intro: bframe_trans)

lemma cached_room:
  assumes "cached c pd s"
  shows "\<exists>b<NBUF. b \<notin> {} \<and> \<not> bdirty (bufs s b)"
proof -
  have "finite (dirtyset s)" by (simp add: dirtyset_def)
  then show ?thesis using dirty_room[of pd "{}" "{}" s "dirtyset s"] assms by (simp add: cached_def)
qed

lemma txn_cached:
  assumes "txn c pd s"
  shows "cached c pd s"
proof -
  have "card (dirtyset s) \<le> nat (lh_n s)"
    using assms card_image_le[of "{..<nat (lh_n s)}" "hblk s"] by (simp add: txn_def log_ok_def)
  moreover have "nat (lh_n s) < NBUF" using assms by (auto simp: txn_def log_ok_def LOGSIZE_def NBUF_def)
  ultimately show ?thesis using assms by (simp add: cached_def txn_def)
qed

lemma txn_unread:
  fixes s t :: "'a logst_scheme"
  assumes "txn c pd s" "unread c pd s t"
  shows "txn c pd t"
  by (rule txn_frame[OF assms(1)]) (use assms(2) in \<open>simp_all add: unread_def cached_def\<close>)

lemma cached_read:
  assumes "cached c pd s" "n < disksize s"
  obtains b u t where "bread c 1 n s = Inr (b, u)" "bdata (bufs u b) = bview s n" "bframe s u"
    "brelse c b u = Inr t" "unread c pd s t"
proof -
  have s: "ready c pd s" "bc_ok pd {} {} s" using assms by (simp_all add: cached_def)
  obtain b u where u: "bread c 1 n s = Inr (b, u)" "ready c pd u" "bc_ok pd {b} {} u" "blockno (bufs u b) = n"
    "bdata (bufs u b) = bview s n" "bview u = bview s" "dirtyset u = dirtyset s" "disk u = disk s"
    "dwrites u = dwrites s" "bframe s u" by (rule read_one[OF s assms(2) cached_room[OF assms(1)]])
  have e: "b \<in> {b}" "b \<notin> {}" by simp_all
  obtain t where t: "brelse c b u = Inr t" "ready c pd t" "bc_ok pd ({b} - {b}) {} t" "bview t = bview u"
    "dirtyset t = dirtyset u" "disk t = disk u" "dwrites t = dwrites u" "bframe u t" by (rule brelse_ok[OF u(2,3) e])
  have f: "bframe s t" by (rule bframe_trans[OF u(10) t(8)])
  have "unread c pd s t" unfolding unread_def cached_def using t u f assms(1) by (simp add: cached_def)
  then show ?thesis using that[OF u(1,5,10) t(1)] by blast
qed

lemma txn_write:
  fixes s :: "'a logst_scheme"
  assumes "txn c pd s" "n < disksize s" "n \<notin> log_area s" "lh_n s < log_size s - 1"
  obtains b u v t where "bread c 1 n s = Inr (b, u)" "bframe s u" "log_write c b (set_buf b (bdata_update f) u) = Inr v"
    "brelse c b v = Inr t" "txn c pd t" "bview t = (bview s)(n := f (bview s n))" "same_fs s t" "lh_n t \<le> lh_n s + 1"
    "0 < lh_n t" "disk t = disk s" "dwrites t = dwrites s"
proof -
  have s: "ready c pd s" "bc_ok pd {} {} s" "log_ok s" "1 \<le> outstanding s" "\<not> committing s" using assms by (simp_all add: txn_def)
  obtain b u where u: "bread c 1 n s = Inr (b, u)" "ready c pd u" "bc_ok pd {b} {} u" "blockno (bufs u b) = n"
    "bdata (bufs u b) = bview s n" "bview u = bview s" "dirtyset u = dirtyset s" "disk u = disk s"
    "dwrites u = dwrites s" "bframe s u" by (rule read_one[OF s(1,2) assms(2) cached_room[OF txn_cached[OF assms(1)]]])
  have e: "b \<in> {b}" "b \<notin> {}" by simp_all
  define w where "w = set_buf b (bdata_update f) u"
  note m = modify_ok[OF u(2,3) e(1), of f, folded w_def]
  have fr: "bframe s w" by (rule bframe_trans[OF u(10) m(5)])
  note l = logst_more[OF bframeD(2)[OF fr]] bframeD(1)[OF fr] same_fs_area[OF bframe_same_fs[OF fr]]
  have bw: "blockno (bufs w b) = n" "disk w = disk s" "dwrites w = dwrites s" "bview w = (bview s)(n := f (bview s n))"
    "bc_ok pd {b} {b} w" "log_ok w"
    using u m(2-4) log_ok_frame[OF fr] s(3) by (simp_all add: w_def)
  obtain v where v: "log_write c b w = Inr v" "ready c pd v" "bc_ok pd {b} {} v" "log_ok v" "bview v = bview w"
    "same_fs w v" "lh_n v \<le> lh_n w + 1" "0 < lh_n v" "disk v = disk w" "dwrites v = dwrites w"
    by (rule log_write_ok[OF m(1) bw(5,6)]) (use assms s bw l in simp_all)
  obtain t where t: "brelse c b v = Inr t" "ready c pd t" "bc_ok pd ({b} - {b}) {} t" "bview t = bview v"
    "dirtyset t = dirtyset v" "disk t = disk v" "dwrites t = dwrites v" "bframe v t" by (rule brelse_ok[OF v(2,3) e])
  note tl = logst_more[OF bframeD(2)[OF t(8)]]
  have sf: "same_fs s t" by (rule same_fs_trans[OF same_fs_trans[OF bframe_same_fs[OF fr] v(6)] bframe_same_fs[OF t(8)]])
  have "txn c pd t" using t(2,3) log_ok_frame[OF t(8,5)] v(4) sf s by (simp add: txn_def same_fs_def)
  then show ?thesis using that[OF u(1,10) v(1)[unfolded w_def] t(1)] t(4,6,7) v(5,7-10) bw sf l(6) tl(6) by simp
qed

subsection \<open>The end of the last operation\<close>

lemma log_flags [simp]:
  "ready c pd (s\<lparr>outstanding := k\<rparr>) = ready c pd s"
  "bc_ok pd H M (s\<lparr>outstanding := k, committing := x\<rparr>) = bc_ok pd H M s"
  "bview (s\<lparr>outstanding := k, committing := x\<rparr>) = bview s" "dirtyset (s\<lparr>outstanding := k, committing := x\<rparr>) = dirtyset s"
  "lblk (s\<lparr>outstanding := k, committing := x\<rparr>) = lblk s" "hblk (s\<lparr>outstanding := k, committing := x\<rparr>) = hblk s"
  "log_wf n (s\<lparr>outstanding := k, committing := x\<rparr>) = log_wf n s"
  "ready c pd (s\<lparr>committing := x\<rparr>) = ready c pd s"
  by (rule ready_upper cache_cong; simp)+ (simp_all add: lblk_def hblk_def log_wf_def inj_on_def fun_eq_iff ready_upper)

lemma log_pending_flags [simp]: "log_pending c pd n (s\<lparr>outstanding := k, committing := x\<rparr>) = log_pending c pd n s"
  by (simp add: log_pending_def)

lemma end_op_commits:
  fixes s t :: "'a logst_scheme"
  assumes "ready c pd s" "outstanding s = 1" "\<not> committing s"
    and "commit c (s\<lparr>outstanding := 0, committing := True\<rparr>) = Inr t" "ready c pd t"
  shows "end_op c s = Inr (wakeup1 Ch_log (t\<lparr>committing := False\<rparr>))"
proof -
  let ?f = "\<lambda>s :: 'a logst_scheme. s\<lparr>outstanding := 0, committing := True\<rparr>" and ?g = "\<lambda>s :: 'a logst_scheme. s\<lparr>committing := False\<rparr>"
  have st: "steady c s" "lock_free L_log s" "steady c t" "lock_free L_log t"
    using assms(1,5) by (simp_all add: ready_steady ready_free)
  have lf: "lockfree ?f" "lockfree ?g" by (simp_all add: lockfree_def)
  have e1: "release c L_log (?f (acquired c L_log s)) = Inr (?f s)" by (rule release_lockfree[OF st(1,2) lf(1)])
  have r: "ready c pd (?g t)" using assms(5) by simp
  have e2: "wakeup c Ch_log (?g (acquired c L_log t)) = Inr (acquired c L_log (wakeup1 Ch_log (?g t)))"
    using wakeup_acquired[OF r, of L_log] lockfree_acquired[OF lf(2), of c L_log t] by simp
  have "ready c pd (wakeup1 Ch_log (?g t))" using r by simp
  moreover have "outstanding (acquired c L_log s) = 1" "\<not> committing (acquired c L_log s)"
    using assms(2,3) by (simp_all add: acquired_upd)
  ultimately show ?thesis using assms(4) e1 e2 release_ready[of c pd "wakeup1 Ch_log (?g t)" L_log]
    by (simp add: Let_def end_op_def acquire_section[OF st(1,2)] acquire_section[OF st(3,4)])
qed

end
