(* ===== verification/Fileinv.thy ===== *)
theory Fileinv
  imports Fs Logtx
begin

text \<open>
  The content of files (readi, writei and bmap of src/fs.c) over the buffer cache and the log: a file is
  a list of bytes, readi returns a part of it, writei replaces a part of it, and a write that is under
  way when the machine loses power leaves the old list or the new one.
\<close>

subsection \<open>The layout of a file\<close>

text \<open>
  The block that holds the bytes from \<open>512 * bn\<close> on, the number of blocks, and the bytes of the file, all
  read through \<open>v\<close>, the content of the blocks as the cache shows it.
\<close>

definition file_addr :: "(uint \<Rightarrow> memory) \<Rightarrow> inode \<Rightarrow> nat \<Rightarrow> uint" where
  "file_addr v ip bn =
     (if bn < NDIRECT then addrs ip ! bn else load32 (v (addrs ip ! NDIRECT)) (4 * (bn - NDIRECT)))"

definition nblk :: "inode \<Rightarrow> nat" where
  "nblk ip = (unat (i_size ip) + 511) div 512"

definition file_byte :: "(uint \<Rightarrow> memory) \<Rightarrow> inode \<Rightarrow> nat \<Rightarrow> uchar" where
  "file_byte v ip k = v (file_addr v ip (k div 512)) (k mod 512)"

definition contents :: "(uint \<Rightarrow> memory) \<Rightarrow> inode \<Rightarrow> uchar list" where
  "contents v ip = map (file_byte v ip) [0..<unat (i_size ip)]"

text \<open>A file all of whose blocks are allocated on a disk of \<open>d\<close> blocks.\<close>

definition file_ok :: "(uint \<Rightarrow> memory) \<Rightarrow> uint \<Rightarrow> inode \<Rightarrow> bool" where
  "file_ok v d ip \<longleftrightarrow> i_dev ip = 1 \<and> i_type ip \<noteq> T_DEV \<and> unat (i_size ip) \<le> MAXFILE * 512 \<and>
     (NDIRECT < nblk ip \<longrightarrow> addrs ip ! NDIRECT \<noteq> 0 \<and> addrs ip ! NDIRECT < d) \<and>
     (\<forall>bn < nblk ip. file_addr v ip bn \<noteq> 0 \<and> file_addr v ip bn < d)"

text \<open>Its blocks are its own: distinct, not its indirect block, and with it outside the area \<open>A\<close>.\<close>

definition file_sep :: "(uint \<Rightarrow> memory) \<Rightarrow> uint set \<Rightarrow> inode \<Rightarrow> bool" where
  "file_sep v A ip \<longleftrightarrow> inj_on (file_addr v ip) {..<nblk ip} \<and> (\<forall>bn < nblk ip. file_addr v ip bn \<notin> A) \<and>
     (NDIRECT < nblk ip \<longrightarrow> addrs ip ! NDIRECT \<notin> A \<and> (\<forall>bn < nblk ip. file_addr v ip bn \<noteq> addrs ip ! NDIRECT))"

lemma nblk_iff: "k < unat (i_size ip) \<Longrightarrow> k div 512 < nblk ip"
  by (simp add: nblk_def div_less_iff_less_mult)

lemma nblk_bound: "file_ok v d ip \<Longrightarrow> nblk ip \<le> NDIRECT + NINDIRECT"
proof -
  assume "file_ok v d ip"
  then have "unat (i_size ip) \<le> 71680" by (simp add: file_ok_def MAXFILE_def NDIRECT_def NINDIRECT_def)
  then have "(unat (i_size ip) + 511) div 512 \<le> 140" using div_le_mono[of "unat (i_size ip) + 511" 72191 512] by simp
  then show ?thesis by (simp add: nblk_def NDIRECT_def NINDIRECT_def)
qed

lemma length_contents [simp]: "length (contents v ip) = unat (i_size ip)"
  by (simp add: contents_def)

lemma contents_part:
  "take n (drop k (contents v ip)) = map (file_byte v ip) [k..<min (k + n) (unat (i_size ip))]"
  by (cases "k + n \<le> unat (i_size ip)") (simp_all add: contents_def drop_map take_map min_def)

lemma same_block:
  assumes "(k :: nat) mod 512 + j < 512"
  shows "(k + j) div 512 = k div 512" "(k + j) mod 512 = k mod 512 + j"
proof -
  have "k + j = (k mod 512 + j) + (k div 512) * 512" by simp
  then show "(k + j) div 512 = k div 512" "(k + j) mod 512 = k mod 512 + j"
    using assms by (simp_all only: div_mult_self1 mod_mult_self1) simp_all
qed

lemma off_block: "unat ((off :: uint) div BSIZE) = unat off div 512" "unat (off mod BSIZE) = unat off mod 512"
  by (simp_all add: unat_div unat_mod BSIZE_def)

lemma block_left_nat: "block_left off = 512 - unat off mod 512"
  by (simp add: block_left_def off_block) (simp add: BSIZE_def)

lemma step_len: "unat off mod 512 + min k (block_left off) \<le> 512"
proof -
  have "unat off mod 512 < 512" by simp
  then show ?thesis unfolding block_left_nat by linarith
qed

lemma inost_frame:
  fixes s t :: "'a inost_scheme"
  assumes "logst.more t = logst.more s"
  shows "icache t = icache s" "sb t = sb s" "inost.more t = inost.more s"
  using assms by (cases s, cases t, simp only: logst.select_convs inost.select_convs inost.ext_inject)+

lemma unread_icache:
  fixes s t :: "'a inost_scheme"
  assumes "unread c pd s t"
  shows "icache t = icache s" "disksize t = disksize s"
  using assms inost_frame(1)[of t s] bframe_same_fs[of s t] by (auto simp: unread_def same_fs_def)

subsection \<open>Reading\<close>

lemma bmap_ok:
  fixes s :: "'a inost_scheme"
  assumes "cached c pd s" "file_ok (bview s) (disksize s) (icache s ! i)" "unat bn < nblk (icache s ! i)"
  shows "\<exists>t. bmap c i bn s = Inr (file_addr (bview s) (icache s ! i) (unat bn), t) \<and> unread c pd s t"
proof (cases "unat bn < NDIRECT")
  case True
  then have "bn < of_nat NDIRECT" by (simp add: word_less_nat_alt NDIRECT_def)
  then show ?thesis using assms True unread_refl[OF assms(1)] by (auto simp: bmap_def file_ok_def file_addr_def)
next
  case False
  let ?ip = "icache s ! i" and ?v = "bview s"
  have n: "unat bn < NDIRECT + NINDIRECT" using assms(3) nblk_bound[OF assms(2)] by linarith
  have w: "\<not> bn < of_nat NDIRECT" "unat (bn - of_nat NDIRECT) = unat bn - NDIRECT"
    using False by (simp_all add: word_less_nat_alt NDIRECT_def unat_sub word_le_nat_alt)
  then have w3: "bn - of_nat NDIRECT < of_nat NINDIRECT" using n False
    by (simp add: word_less_nat_alt NDIRECT_def NINDIRECT_def)
  have a: "addrs ?ip ! NDIRECT \<noteq> 0" "addrs ?ip ! NDIRECT < disksize s" "i_dev ?ip = 1" "file_addr ?v ?ip (unat bn) \<noteq> 0"
    using assms(2,3) False by (auto simp: file_ok_def)
  obtain b u t where t: "bread c 1 (addrs ?ip ! NDIRECT) s = Inr (b, u)" "bdata (bufs u b) = ?v (addrs ?ip ! NDIRECT)" "bframe s u"
    "brelse c b u = Inr t" "unread c pd s t" by (rule cached_read[OF assms(1) a(2)])
  have "bmap c i bn s = Inr (file_addr ?v ?ip (unat bn), t)"
    using w w3 a t(1,2,4) False by (simp add: bmap_def Let_def file_addr_def)
  with t(5) show ?thesis by blast
qed

lemma block_bytes:
  assumes "unat off mod 512 + m \<le> 512"
  shows "map (v (file_addr v ip (unat off div 512))) [unat off mod 512..<unat off mod 512 + m] =
     map (file_byte v ip) [unat off..<unat off + m]"
proof (rule nth_equalityI)
  fix j assume "j < length (map (v (file_addr v ip (unat off div 512))) [unat off mod 512..<unat off mod 512 + m])"
  then have j: "j < m" by simp
  then have "(unat off + j) div 512 = unat off div 512" "(unat off + j) mod 512 = unat off mod 512 + j"
    using assms same_block[of "unat off" j] by simp_all
  then show "map (v (file_addr v ip (unat off div 512))) [unat off mod 512..<unat off mod 512 + m] ! j =
     map (file_byte v ip) [unat off..<unat off + m] ! j" using j by (simp add: file_byte_def)
qed simp

lemma off_add:
  fixes off :: uint
  assumes "file_ok v d ip" "unat off + k \<le> unat (i_size ip)" "m \<le> k"
  shows "unat (off + of_nat m) = unat off + m"
proof -
  have "unat off + m < 2 ^ 32"
    using assms by (auto simp: file_ok_def MAXFILE_def NDIRECT_def NINDIRECT_def)
  then show ?thesis by (simp add: unat_word_ariths unat_of_nat)
qed

lemma readi_loop_ok:
  fixes s :: "'a inost_scheme"
  assumes "cached c pd s" "file_ok (bview s) (disksize s) (icache s ! i)" "unat off + k \<le> unat (i_size (icache s ! i))"
  shows "\<exists>t. readi_loop c i off k acc s = Inr (acc @ map (file_byte (bview s) (icache s ! i)) [unat off..<unat off + k], t) \<and>
     unread c pd s t"
  using assms
proof (induction c i off k acc s rule: readi_loop.induct)
  case (1 c i off k acc s)
  let ?ip = "icache s ! i" and ?v = "bview s" and ?m = "min k (block_left off)"
  show ?case
  proof (cases "0 < k")
    case False
    then show ?thesis using unread_refl[OF "1.prems"(1)] by (simp add: readi_loop.simps)
  next
    case True
    have bn: "unat (off div BSIZE) < nblk ?ip" using "1.prems"(3) True by (simp add: off_block nblk_iff)
    from bmap_ok[OF "1.prems"(1,2) bn] obtain s1 where
      s1: "bmap c i (off div BSIZE) s = Inr (file_addr ?v ?ip (unat off div 512), s1)" "unread c pd s s1" by (auto simp: off_block)
    note i1 = unread_icache[OF s1(2)]
    have v1: "bview s1 = ?v" "cached c pd s1" using s1(2) by (simp_all add: unread_def)
    have a: "file_addr ?v ?ip (unat off div 512) < disksize s1" "i_dev ?ip = 1"
      using "1.prems"(2) bn i1 by (simp_all add: file_ok_def off_block)
    obtain b u t where t: "bread c 1 (file_addr ?v ?ip (unat off div 512)) s1 = Inr (b, u)"
      "bdata (bufs u b) = bview s1 (file_addr ?v ?ip (unat off div 512))" "bframe s1 u" "brelse c b u = Inr t" "unread c pd s1 t"
      by (rule cached_read[OF v1(2) a(1)])
    have st: "unread c pd s t" by (rule unread_trans[OF s1(2) t(5)])
    have it: "icache t = icache s" "disksize t = disksize s" "bview t = ?v" "cached c pd t"
      using unread_icache[OF st] st by (simp_all add: unread_def)
    have m: "unat off mod 512 + ?m \<le> 512" "?m \<le> k" by (rule step_len) simp
    have off: "unat (off + of_nat ?m) = unat off + ?m"
      by (rule off_add[OF "1.prems"(2,3) m(2)])
    let ?bytes = "map (bdata (bufs u b)) [unat (off mod BSIZE)..<unat (off mod BSIZE) + ?m]"
    have bytes: "?bytes = map (file_byte ?v ?ip) [unat off..<unat off + ?m]"
      using block_bytes[OF m(1)] t(2) v1(1) by (simp add: off_block)
    have step: "readi_loop c i off k acc s = readi_loop c i (off + of_nat ?m) (k - ?m) (acc @ ?bytes) t"
      using True s1(1) t(1,4) a(2) i1(1) by (subst readi_loop.simps) (simp add: Let_def)
    have e2: "bread c (i_dev (icache s1 ! i)) (file_addr ?v ?ip (unat off div 512)) s1 = Inr (b, u)" using t(1) a(2) i1(1) by simp
    have "\<exists>w. readi_loop c i (off + of_nat ?m) (k - ?m) (acc @ ?bytes) t =
       Inr ((acc @ ?bytes) @ map (file_byte (bview t) (icache t ! i)) [unat (off + of_nat ?m)..<unat (off + of_nat ?m) + (k - ?m)], w) \<and>
       unread c pd t w"
      by (rule "1.IH"[OF True s1(1) refl e2 refl refl refl refl t(4)]) (use it off m "1.prems" in auto)
    then obtain w where w: "readi_loop c i off k acc s =
       Inr (acc @ ?bytes @ map (file_byte ?v ?ip) [unat off + ?m..<unat off + k], w)" "unread c pd t w"
      using step off it m(2) by auto
    have "[unat off..<unat off + k] = [unat off..<unat off + ?m] @ [unat off + ?m..<unat off + k]"
      using upt_add_eq_append[of "unat off" "unat off + ?m" "k - ?m"] m(2) by simp
    then show ?thesis using w unread_trans[OF st w(2)] bytes by simp
  qed
qed

lemma readi_ok:
  fixes s :: "'a fsst_scheme"
  assumes "cached c pd s" "file_ok (bview s) (disksize s) (icache s ! i)" "off \<le> i_size (icache s ! i)" "off \<le> off + n"
  defines "bs \<equiv> take (unat n) (drop (unat off) (contents (bview s) (icache s ! i)))"
  shows "\<exists>t. readi c i off n s = Inr (int (length bs), bs, t) \<and> unread c pd s t"
proof -
  let ?ip = "icache s ! i"
  define k where "k = (if off + n > i_size ?ip then i_size ?ip - off else n)"
  have sum: "unat (off + n) = unat off + unat n" using assms(4) by (metis unat_plus_simple)
  have k: "unat off + unat k = min (unat off + unat n) (unat (i_size ?ip))"
    using assms(3) sum by (auto simp: k_def word_less_nat_alt word_le_nat_alt unat_sub min_def)
  then have le: "unat off + unat k \<le> unat (i_size ?ip)" by simp
  have small: "unat (i_size ?ip) \<le> 71680" using assms(2) by (simp add: file_ok_def MAXFILE_def NDIRECT_def NINDIRECT_def)
  have bs: "bs = map (file_byte (bview s) ?ip) [unat off..<unat off + unat k]" by (simp add: bs_def contents_part k)
  have "sint k = int (unat k)" using le small sint_count[of "unat k"] by simp
  moreover obtain t where t: "readi_loop c i off (unat k) [] s = Inr (bs, t)" "unread c pd s t"
    using readi_loop_ok[OF assms(1,2) le, of "[]"] bs by auto
  moreover have "readi c i off n s = bindE (readi_loop c i off (unat k) [] s) (\<lambda>(bytes, s). Inr (sint k, bytes, s))"
    using assms(2) leD[OF assms(3)] leD[OF assms(4)] by (simp add: readi_def Let_def k_def file_ok_def)
  ultimately show ?thesis using bs by auto
qed

subsection \<open>Writing\<close>

text \<open>The blocks that \<open>len\<close> bytes from \<open>k\<close> on lie in, and the effect of writing them on the content of the blocks.\<close>

definition span :: "nat \<Rightarrow> nat \<Rightarrow> nat" where
  "span k len = (if len = 0 then 0 else (k + len - 1) div 512 + 1 - k div 512)"

definition rewritten :: "(uint \<Rightarrow> memory) \<Rightarrow> inode \<Rightarrow> nat \<Rightarrow> uchar list \<Rightarrow> (uint \<Rightarrow> memory) \<Rightarrow> bool" where
  "rewritten v ip k bs v' \<longleftrightarrow> (\<forall>n. n \<notin> file_addr v ip ` {..<nblk ip} \<longrightarrow> v' n = v n) \<and>
     (\<forall>j < unat (i_size ip). file_byte v' ip j = (if k \<le> j \<and> j < k + length bs then bs ! (j - k) else file_byte v ip j))"

lemma addr_same:
  assumes "file_sep v A ip" "\<And>n. n \<notin> file_addr v ip ` {..<nblk ip} \<Longrightarrow> v' n = v n" "bn < nblk ip"
  shows "file_addr v' ip bn = file_addr v ip bn"
proof (cases "bn < NDIRECT")
  case False
  then have "addrs ip ! NDIRECT \<notin> file_addr v ip ` {..<nblk ip}" using assms(1,3) by (auto simp: file_sep_def)
  then show ?thesis using False assms(2) by (simp add: file_addr_def)
qed (simp add: file_addr_def)

lemma rewritten_addr:
  assumes "file_sep v A ip" "rewritten v ip k bs v'" "bn < nblk ip"
  shows "file_addr v' ip bn = file_addr v ip bn"
  by (rule addr_same[OF assms(1) _ assms(3)]) (use assms(2) in \<open>simp add: rewritten_def\<close>)

lemma rewritten_ok:
  assumes "file_sep v A ip" "rewritten v ip k bs v'"
  shows "file_ok v' d ip = file_ok v d ip" "file_sep v' A ip = file_sep v A ip"
    "file_addr v' ip ` {..<nblk ip} = file_addr v ip ` {..<nblk ip}"
proof -
  note e = rewritten_addr[OF assms]
  show "file_ok v' d ip = file_ok v d ip" using e by (simp add: file_ok_def)
  have "inj_on (file_addr v' ip) {..<nblk ip} = inj_on (file_addr v ip) {..<nblk ip}" by (rule inj_on_cong) (simp add: e)
  then show "file_sep v' A ip = file_sep v A ip" using e by (simp add: file_sep_def)
  show "file_addr v' ip ` {..<nblk ip} = file_addr v ip ` {..<nblk ip}" by (rule image_cong) (simp_all add: e)
qed

lemma rewritten_refl: "rewritten v ip k [] v"
  by (auto simp: rewritten_def)

lemma rewritten_trans:
  assumes "file_sep v A ip" "rewritten v ip k bs v'" "rewritten v' ip (k + length bs) cs v''"
  shows "rewritten v ip k (bs @ cs) v''"
  using assms(2,3) rewritten_ok(3)[OF assms(1,2)] by (auto simp: rewritten_def nth_append)

lemma rewritten_block:
  assumes sep: "file_sep v A ip" and k: "k < unat (i_size ip)" and fits: "k mod 512 + length bs \<le> 512"
  defines "a \<equiv> file_addr v ip (k div 512)"
  shows "rewritten v ip k bs (v(a := put_bytes bs (k mod 512) (v a)))"
proof -
  let ?v = "v(a := put_bytes bs (k mod 512) (v a))"
  have kb: "k div 512 < nblk ip" using k by (rule nblk_iff)
  have out: "?v n = v n" if "n \<notin> file_addr v ip ` {..<nblk ip}" for n using that kb by (auto simp: a_def)
  have "file_byte ?v ip j = (if k \<le> j \<and> j < k + length bs then bs ! (j - k) else file_byte v ip j)" if j: "j < unat (i_size ip)" for j
  proof (cases "j div 512 = k div 512")
    case True
    have ad: "file_addr ?v ip (j div 512) = a" using addr_same[where v' = ?v, OF sep out kb] True by (simp add: a_def[symmetric] del: fun_upd_apply)
    have jk: "j = (k div 512) * 512 + j mod 512" "k = (k div 512) * 512 + k mod 512" using True by (metis div_mult_mod_eq)+
    have "k \<le> j \<longleftrightarrow> k mod 512 \<le> j mod 512" "j < k + length bs \<longleftrightarrow> j mod 512 < k mod 512 + length bs" using jk by linarith+
    moreover have "j - k = j mod 512 - k mod 512" using jk by linarith
    ultimately show ?thesis using ad True by (simp add: file_byte_def put_bytes_def a_def)
  next
    case False
    have jb: "j div 512 < nblk ip" using j by (rule nblk_iff)
    have "file_addr v ip (j div 512) \<noteq> a" using sep jb kb False by (auto simp: file_sep_def a_def inj_on_def)
    moreover have "file_addr ?v ip (j div 512) = file_addr v ip (j div 512)" by (rule addr_same[OF sep out jb])
    moreover have "\<not> (k \<le> j \<and> j < k + length bs)"
    proof
      assume "k \<le> j \<and> j < k + length bs"
      then have "(k + (j - k)) div 512 = k div 512" using fits by (intro same_block(1)) linarith
      with False \<open>k \<le> j \<and> j < k + length bs\<close> show False by simp
    qed
    ultimately show ?thesis by (auto simp: file_byte_def)
  qed
  with out show ?thesis by (simp add: rewritten_def)
qed

lemma rewritten_contents:
  assumes "rewritten v ip k bs v'" "k + length bs \<le> unat (i_size ip)"
  shows "contents v' ip = take k (contents v ip) @ bs @ drop (k + length bs) (contents v ip)"
proof (rule nth_equalityI)
  show "length (contents v' ip) = length (take k (contents v ip) @ bs @ drop (k + length bs) (contents v ip))"
    using assms(2) by simp
next
  fix j assume j: "j < length (contents v' ip)"
  then have c: "contents v' ip ! j = (if k \<le> j \<and> j < k + length bs then bs ! (j - k) else file_byte v ip j)"
    using assms(1) by (simp add: contents_def rewritten_def)
  consider "j < k" | "k \<le> j" "j < k + length bs" | "k + length bs \<le> j" by linarith
  then show "contents v' ip ! j = (take k (contents v ip) @ bs @ drop (k + length bs) (contents v ip)) ! j"
    unfolding c using j assms(2) by cases (auto simp: nth_append contents_def)
qed

lemma span_step:
  fixes k len :: nat
  assumes "0 < len"
  defines "m \<equiv> min len (512 - k mod 512)"
  shows "span k len = Suc (span (k + m) (len - m))"
proof (cases "len \<le> 512 - k mod 512")
  case True
  have "k mod 512 < 512" by simp
  then have "(k + (len - 1)) div 512 = k div 512" using True assms(1) by (intro same_block(1)) linarith
  then show ?thesis using True assms(1) by (simp add: span_def m_def)
next
  case False
  have l: "k mod 512 < 512" by simp
  have "k mod 512 + m = 512" using False l by (simp add: m_def)
  moreover have "k + m = k div 512 * 512 + (k mod 512 + m)" by (simp add: add.assoc[symmetric])
  ultimately have k: "k + m = (k div 512 + 1) * 512" by simp
  then have d: "(k + m) div 512 = k div 512 + 1" by simp
  have m: "m < len" using False by (simp add: m_def)
  then have "k + m + (len - m) = k + len" by simp
  moreover have "(k + m) div 512 \<le> (k + len - 1) div 512" by (rule div_le_mono) (use m in simp)
  ultimately show ?thesis using m d assms(1) by (simp add: span_def Suc_diff_le)
qed

lemma writei_loop_ok:
  fixes s :: "'a inost_scheme"
  assumes "txn c pd s" "file_ok (bview s) (disksize s) (icache s ! i)" "file_sep (bview s) (log_area s) (icache s ! i)"
    and "unat off + length src \<le> unat (i_size (icache s ! i))" "lh_n s + int (span (unat off) (length src)) < log_size s"
  shows "\<exists>t. writei_loop c i off src s = Inr (off + of_nat (length src), t) \<and> txn c pd t \<and> same_fs s t \<and>
     rewritten (bview s) (icache s ! i) (unat off) src (bview t) \<and> lh_n t \<le> lh_n s + int (span (unat off) (length src)) \<and>
     (src \<noteq> [] \<longrightarrow> 0 < lh_n t) \<and> disk t = disk s \<and> dwrites t = dwrites s"
  using assms
proof (induction c i off src s rule: writei_loop.induct)
  case (1 c i off src s)
  let ?ip = "icache s ! i" and ?v = "bview s" and ?m = "min (length src) (block_left off)" and ?k = "unat off"
  show ?case
  proof (cases "src = []")
    case True
    then show ?thesis using "1.prems" rewritten_refl by (simp add: writei_loop.simps span_def)
  next
    case False
    then have len: "0 < length src" by simp
    have sp: "span ?k (length src) = Suc (span (?k + ?m) (length src - ?m))"
      using span_step[OF len, of ?k] by (simp add: block_left_nat)
    have kb: "?k < unat (i_size ?ip)" using "1.prems"(4) len by linarith
    have bn: "unat (off div BSIZE) < nblk ?ip" using nblk_iff[OF kb] by (simp add: off_block)
    let ?a = "file_addr ?v ?ip (?k div 512)"
    from bmap_ok[OF txn_cached[OF "1.prems"(1)] "1.prems"(2) bn] obtain s1 where
      s1: "bmap c i (off div BSIZE) s = Inr (?a, s1)" "unread c pd s s1" by (auto simp: off_block)
    note i1 = unread_icache[OF s1(2)] and t1 = txn_unread[OF "1.prems"(1) s1(2)]
    have f1: "bview s1 = ?v" "same_fs s s1" "lh_n s1 = lh_n s" "disk s1 = disk s" "dwrites s1 = dwrites s"
      using s1(2) bframe_same_fs[of s s1] bframe_log(4)[of s s1] by (simp_all add: unread_def)
    have a: "?a < disksize s1" "?a \<notin> log_area s1" "i_dev ?ip = 1" "lh_n s1 < log_size s1 - 1"
      using "1.prems"(2,3,5) bn i1 same_fs_area[OF f1(2)] f1(2,3) sp by (auto simp: file_ok_def file_sep_def off_block same_fs_def)
    define f where "f = put_bytes (take ?m src) (unat (off mod BSIZE))"
    obtain b u w t where t: "bread c 1 ?a s1 = Inr (b, u)" "bframe s1 u" "log_write c b (set_buf b (bdata_update f) u) = Inr w"
      "brelse c b w = Inr t" "txn c pd t" "bview t = (bview s1)(?a := f (bview s1 ?a))" "same_fs s1 t" "lh_n t \<le> lh_n s1 + 1"
      "0 < lh_n t" "disk t = disk s1" "dwrites t = dwrites s1" by (rule txn_write[OF t1 a(1,2,4)])
    have st: "same_fs s t" by (rule same_fs_trans[OF f1(2) t(7)])
    have it: "icache t = icache s" "disksize t = disksize s" "log_area t = log_area s" "log_size t = log_size s"
      using inost_frame(1)[of t s] same_fs_area[OF st] st by (simp_all add: same_fs_def)
    have m: "?k mod 512 + ?m \<le> 512" "?m \<le> length src" by (rule step_len) simp
    have off: "unat (off + of_nat ?m) = ?k + ?m" by (rule off_add[OF "1.prems"(2,4) m(2)])
    have re: "rewritten ?v ?ip ?k (take ?m src) (bview t)"
      using rewritten_block[OF "1.prems"(3) kb, of "take ?m src"] m(1) t(6) f1(1) by (simp add: f_def off_block del: fun_upd_apply)
    note ro = rewritten_ok[OF "1.prems"(3) re]
    have e2: "bread c (i_dev (icache s1 ! i)) ?a s1 = Inr (b, u)" using t(1) a(3) i1(1) by simp
    have step: "writei_loop c i off src s = writei_loop c i (off + of_nat ?m) (drop ?m src) t"
      using False s1(1) e2 t(3,4) by (subst writei_loop.simps) (simp add: Let_def set_data_def f_def)
    have "\<exists>z. writei_loop c i (off + of_nat ?m) (drop ?m src) t = Inr (off + of_nat ?m + of_nat (length (drop ?m src)), z) \<and>
       txn c pd z \<and> same_fs t z \<and> rewritten (bview t) (icache t ! i) (unat (off + of_nat ?m)) (drop ?m src) (bview z) \<and>
       lh_n z \<le> lh_n t + int (span (unat (off + of_nat ?m)) (length (drop ?m src))) \<and>
       (drop ?m src \<noteq> [] \<longrightarrow> 0 < lh_n z) \<and> disk z = disk t \<and> dwrites z = dwrites t"
      by (rule "1.IH"[OF False s1(1) refl e2 refl refl refl t(3)[folded set_data_def, unfolded f_def] t(4) t(5)])
        (use it ro off m "1.prems" sp t(8) f1(3) in auto)
    then obtain z where z: "writei_loop c i off src s = Inr (off + of_nat (length src), z)" "txn c pd z" "same_fs t z"
       "rewritten (bview t) ?ip (?k + ?m) (drop ?m src) (bview z)" "lh_n z \<le> lh_n t + int (span (?k + ?m) (length src - ?m))"
       "drop ?m src \<noteq> [] \<longrightarrow> 0 < lh_n z" "disk z = disk t" "dwrites z = dwrites t"
      using step off it m(2) by (auto simp: of_nat_diff)
    have "rewritten ?v ?ip ?k src (bview z)"
      using rewritten_trans[OF "1.prems"(3) re, of "drop ?m src" "bview z"] z(4) by simp
    moreover have "0 < lh_n z"
    proof (cases "drop ?m src = []")
      case True
      then have "z = t" using step z(1) by (simp add: writei_loop.simps)
      then show ?thesis using t(9) by simp
    qed (use z(6) in blast)
    moreover have "lh_n z \<le> lh_n s + int (span ?k (length src))" using z(5) t(8) f1(3) sp by simp
    ultimately show ?thesis using z(1,2,7,8) same_fs_trans[OF st z(3)] t(10,11) f1(4,5) by simp
  qed
qed

lemma writei_ok:
  fixes s :: "'a fsst_scheme"
  assumes "txn c pd s" "file_ok (bview s) (disksize s) (icache s ! i)" "file_sep (bview s) (log_area s) (icache s ! i)"
    and "unat off + length src \<le> unat (i_size (icache s ! i))" "lh_n s + int (span (unat off) (length src)) < log_size s"
  shows "\<exists>t. writei c i src off (of_nat (length src)) s = Inr (int (length src), t) \<and> txn c pd t \<and> same_fs s t \<and>
     rewritten (bview s) (icache s ! i) (unat off) src (bview t) \<and> lh_n t \<le> lh_n s + int (span (unat off) (length src)) \<and>
     (src \<noteq> [] \<longrightarrow> 0 < lh_n t) \<and> disk t = disk s \<and> dwrites t = dwrites s"
proof -
  let ?ip = "icache s ! i" and ?n = "of_nat (length src) :: uint"
  have small: "unat (i_size ?ip) \<le> 71680" using assms(2) by (simp add: file_ok_def MAXFILE_def NDIRECT_def NINDIRECT_def)
  have n: "unat ?n = length src" "sint ?n = int (length src)"
    using small assms(4) sint_count[of "length src"] by (simp_all add: unat_of_nat)
  have on: "unat (off + ?n) = unat off + length src" by (rule off_add[OF assms(2,4) order_refl])
  have g: "\<not> off > i_size ?ip" "\<not> off + ?n < off" "\<not> off + ?n > of_nat MAXFILE * BSIZE"
    using on assms(4) small by (simp_all add: word_less_nat_alt MAXFILE_def NDIRECT_def NINDIRECT_def BSIZE_def)
  from writei_loop_ok[OF assms] obtain t where
    t: "writei_loop c i off src s = Inr (off + ?n, t)" "same_fs s t" and rest: "txn c pd t \<and> same_fs s t \<and>
     rewritten (bview s) ?ip (unat off) src (bview t) \<and> lh_n t \<le> lh_n s + int (span (unat off) (length src)) \<and>
     (src \<noteq> [] \<longrightarrow> 0 < lh_n t) \<and> disk t = disk s \<and> dwrites t = dwrites s" by blast
  have it: "icache t = icache s" using inost_frame(1)[of t s] t(2) by (simp add: same_fs_def)
  have "\<not> off + ?n > i_size (icache t ! i)" using on assms(4) it by (simp add: word_less_nat_alt)
  then have "writei c i src off ?n s = Inr (int (length src), t)"
    using g t(1) n assms(2) by (simp add: writei_def Let_def file_ok_def)
  with rest show ?thesis by blast
qed

subsection \<open>Files across a crash\<close>

text \<open>A kernel that has booted on the disk content \<open>d\<close> of the machine \<open>s\<close>: an empty cache and the same layout.\<close>

definition rebooted :: "nat \<Rightarrow> int \<Rightarrow> 'a logst_scheme \<Rightarrow> (nat \<Rightarrow> memory) \<Rightarrow> 'b logst_scheme \<Rightarrow> bool" where
  "rebooted c pd s d r \<longleftrightarrow> ready c pd r \<and> bc_ok pd {} {} r \<and> dirtyset r = {} \<and> disk r = d \<and> log_dev r = 1 \<and>
     log_start r = log_start s \<and> disksize r = disksize s"

lemma contents_cong:
  assumes "file_sep v A ip" "\<And>m. m \<notin> A \<Longrightarrow> w m = v m"
  shows "contents w ip = contents v ip"
proof -
  have a: "file_addr w ip bn = file_addr v ip bn" if "bn < nblk ip" for bn
    using that assms by (auto simp: file_sep_def file_addr_def)
  have "file_byte w ip j = file_byte v ip j" if "j < unat (i_size ip)" for j
    using a[OF nblk_iff[OF that]] assms nblk_iff[OF that] by (simp add: file_byte_def file_sep_def)
  then show ?thesis by (simp add: contents_def)
qed

lemma end_op_durable:
  fixes t :: "'a logst_scheme" and r :: "'b logst_scheme"
  assumes "txn c pd t" "outstanding t = 1" "0 < lh_n t" "load32 (disk t (unat (lblk t 0))) 0 = 0"
  obtains u ws where "end_op c t = Inr u" "dwrites u = dwrites t @ ws" "length ws = 2 * nat (lh_n t) + 2"
    "\<And>k c' pd' (r :: 'b logst_scheme). k \<le> length ws \<Longrightarrow> rebooted c' pd' t (dapply (take k ws) (disk t)) r \<Longrightarrow>
       \<exists>r'. recover_from_log c' r = Inr r' \<and> (\<forall>m. m \<notin> log_area t \<longrightarrow>
         disk r' (unat m) = (if k \<le> nat (lh_n t) then disk t (unat m) else bview t m))"
proof -
  let ?s = "t\<lparr>outstanding := 0, committing := True\<rparr>" and ?n = "nat (lh_n t)"
  have p: "log_pending c pd ?n ?s" using txn_pending[OF assms(1)] assms(3) by simp
  from commit_ok[OF p] obtain w where w: "commit c ?s = Inr w" "ready c pd w" by (auto simp: wrote_def)
  define ws where "ws = disk_writes (commit_writes ?s)"
  have d: "dwrites w = dwrites ?s @ ws" unfolding ws_def by (rule commit_dwrites[OF p w(1)])
  have e: "end_op c t = Inr (wakeup1 Ch_log (w\<lparr>committing := False\<rparr>))"
    by (rule end_op_commits[OF _ assms(2) _ w]) (use assms(1) in \<open>simp_all add: txn_def\<close>)
  have sub: "lblk t ` {..?n} \<subseteq> log_area t" using assms(1) by (auto simp: txn_def log_ok_def log_area_def)
  show ?thesis
  proof (rule that[OF e, of ws])
    show "dwrites (wakeup1 Ch_log (w\<lparr>committing := False\<rparr>)) = dwrites t @ ws" using d by simp
    show "length ws = 2 * ?n + 2" by (simp add: ws_def disk_writes_def commit_writes_def log_writes_def home_writes_def)
    fix k c' pd' and r :: "'b logst_scheme"
    assume k: "k \<le> length ws" and r: "rebooted c' pd' t (dapply (take k ws) (disk t)) r"
    have "\<exists>r'. recover_from_log c' r = Inr r' \<and> lh_n r' = 0 \<and>
       (\<forall>m. m \<notin> lblk ?s ` {..?n} \<longrightarrow> disk r' (unat m) = (if k \<le> ?n then disk ?s (unat m) else bview ?s m))"
      by (rule commit_recovers[where pd' = pd', OF p _ w(1) d k]) (use r assms(4) in \<open>simp_all add: rebooted_def\<close>)
    then show "\<exists>r'. recover_from_log c' r = Inr r' \<and> (\<forall>m. m \<notin> log_area t \<longrightarrow>
         disk r' (unat m) = (if k \<le> ?n then disk t (unat m) else bview t m))" using sub by auto blast+
  qed
qed

text \<open>C26: Reading files.  For a file of the inode cache whose blocks are all allocated, direct or through the
  indirect block, readi returns -1 exactly when the offset is beyond the size or offset plus count wraps
  around; otherwise it succeeds, the number it returns is the number of bytes it copies, and these are the
  bytes of the file from the offset on, cut at the end of the file.  The disk, the content of every block and
  the inodes are unchanged and every buffer is released.\<close>

theorem readi_reads:
  fixes s :: "'a fsst_scheme" and off n :: uint
  assumes "cached c pd s" "file_ok (bview s) (disksize s) (icache s ! i)"
  defines "bs \<equiv> take (unat n) (drop (unat off) (contents (bview s) (icache s ! i)))"
  shows "if i_size (icache s ! i) < off \<or> off + n < off then readi c i off n s = Inr (-1, [], s)
     else \<exists>t. readi c i off n s = Inr (int (length bs), bs, t) \<and> unread c pd s t"
proof (cases "i_size (icache s ! i) < off \<or> off + n < off")
  case True
  then show ?thesis using assms(2) by (simp add: readi_def file_ok_def Let_def)
next
  case False
  then have le: "off \<le> i_size (icache s ! i)" "off \<le> off + n" by (simp_all add: not_less)
  show ?thesis unfolding if_not_P[OF False] bs_def by (intro readi_ok[OF assms(1,2) le])
qed

text \<open>A machine with one file of 600 bytes in the blocks 50 and 51, an empty log and an operation begun.\<close>

definition demo_inode :: inode where
  "demo_inode = \<lparr>i_dev = 1, inum = 2, i_ref = 1, i_valid = True, i_type = 2, i_major = 0, i_minor = 0, i_nlink = 1,
     i_size = 600, addrs = [50, 51, 0, 0, 0, 0, 0, 0, 0, 0, 0, 0, 0]\<rparr>"

definition demo_fsbase :: "(nat \<Rightarrow> memory) \<Rightarrow> fsst" where
  "demo_fsbase d = \<lparr>ncpu = 2, cpus = (\<lambda>_. demo_cpu\<lparr>cproc := Some 0, intena := True\<rparr>), locks = locks demo_locks, mem = (\<lambda>_. 0), kfreelist = 0,
     use_lock = True, kend = 0x80123450, kpgdir = 0x80300000, kdata = 0x80110000,
     ptable = [demo_proc], nextpid = 2, initproc = Some 0, ticks = 0, forkret_first = False,
     panicked = False, cons_locking = True, uart = True, uartout = [], crt = (\<lambda>_. 0), crtpos = 0,
     inbuf = (\<lambda>_. 0), inr = 0, inw = 0, ine = 0, kbdshift = 0,
     slocks = (\<lambda>_. \<lparr>slk_locked = False, slk_name = [], slk_pid = 0\<rparr>),
     bufs = (\<lambda>_. \<lparr>flags = 0, dev = 0, blockno = 0, refcnt = 0, bprev = 0, bnext = 0, bdata = (\<lambda>_. 0)\<rparr>),
     disk = d, disksize = 1000, dwrites = [],
     log_start = 2, log_size = 30, outstanding = 1, committing = False, log_dev = 1, lh_n = 0, lh_block = (\<lambda>_. 0),
     sb = \<lparr>sb_size = 1000, sb_nblocks = 941, sb_ninodes = 200, sb_nlog = 30, sb_logstart = 2, sb_inodestart = 32, sb_bmapstart = 58\<rparr>,
     icache = [demo_inode], devsw_read = (\<lambda>_. None), devsw_write = (\<lambda>_. None)\<rparr>"

definition demo_fs :: "(nat \<Rightarrow> memory) \<Rightarrow> fsst" where
  "demo_fs d = binit (demo_fsbase d)"

lemma demo_fs_cache: "ready 0 1 (demo_fs d)" "bc_ok 1 {} {} (demo_fs d)" "dirtyset (demo_fs d) = {}"
proof -
  have "ready 0 1 (demo_fsbase d)"
    by (auto simp: ready_def demo_fsbase_def quiet_def lock_free_def demo_locks_def demo_cpu_def touch_def set_cpu_def demo_proc_def)
  then show "ready 0 1 (demo_fs d)" by (simp add: demo_fs_def binit_ready)
  show "bc_ok 1 {} {} (demo_fs d)" "dirtyset (demo_fs d) = {}"
    unfolding demo_fs_def by (rule binit_ok; simp add: demo_fsbase_def)+
qed

lemma demo_fs_sel:
  "icache (demo_fs d) = [demo_inode]" "disk (demo_fs d) = d" "disksize (demo_fs d) = 1000" "log_start (demo_fs d) = 2"
  "log_size (demo_fs d) = 30" "outstanding (demo_fs d) = 1" "\<not> committing (demo_fs d)" "log_dev (demo_fs d) = 1" "lh_n (demo_fs d) = 0"
  "dwrites (demo_fs d) = []"
proof -
  have m: "bufst.more (demo_fs d) = bufst.more (demo_fsbase d)" by (simp add: demo_fs_def binit_frame)
  note l = logst_more[OF m]
  show "icache (demo_fs d) = [demo_inode]" using inost_frame(1)[OF l(8)] by (simp add: demo_fsbase_def)
  show "log_start (demo_fs d) = 2" "log_size (demo_fs d) = 30" "outstanding (demo_fs d) = 1" "\<not> committing (demo_fs d)"
    "log_dev (demo_fs d) = 1" "lh_n (demo_fs d) = 0" using l by (simp_all add: demo_fsbase_def)
  show "disk (demo_fs d) = d" "disksize (demo_fs d) = 1000" "dwrites (demo_fs d) = []"
    by (simp_all add: demo_fs_def binit_frame) (simp_all add: demo_fsbase_def)
qed

lemma demo_fs_view: "bview (demo_fs d) m = d (unat m)"
  using bview_clean[OF demo_fs_cache(2), of m] by (simp add: demo_fs_cache demo_fs_sel)

lemma demo_fs_file:
  "nblk demo_inode = 2" "file_addr v demo_inode 0 = 50" "file_addr v demo_inode 1 = 51" "file_ok v 1000 demo_inode"
proof -
  show n: "nblk demo_inode = 2" by (simp add: nblk_def demo_inode_def)
  show a: "file_addr v demo_inode 0 = 50" "file_addr v demo_inode 1 = 51" by (simp_all add: file_addr_def NDIRECT_def demo_inode_def)
  have "\<forall>bn < 2. file_addr v demo_inode bn \<noteq> 0 \<and> file_addr v demo_inode bn < 1000" using a by (auto simp: less_2_cases_iff)
  moreover have "i_dev demo_inode = 1" "i_type demo_inode \<noteq> T_DEV" "unat (i_size demo_inode) \<le> MAXFILE * 512"
    by (simp_all add: demo_inode_def T_DEV_def MAXFILE_def NDIRECT_def NINDIRECT_def)
  ultimately show "file_ok v 1000 demo_inode" by (simp add: file_ok_def n NDIRECT_def)
qed

theorem readi_reads_witness:
  "\<exists>t. readi 0 0 510 4 (demo_fs (\<lambda>n _. of_nat n)) = Inr (4, [50, 50, 51, 51], t)"
proof -
  let ?s = "demo_fs (\<lambda>n _. of_nat n)"
  have c: "cached 0 1 ?s" by (simp add: cached_def demo_fs_cache NBUF_def)
  have f: "file_ok (bview ?s) (disksize ?s) (icache ?s ! 0)" by (simp add: demo_fs_sel demo_fs_file)
  have "take (unat (4 :: uint)) (drop (unat (510 :: uint)) (contents (bview ?s) (icache ?s ! 0))) = [50, 50, 51, 51]"
    unfolding contents_part by (simp add: demo_fs_sel demo_fs_view demo_inode_def file_byte_def file_addr_def NDIRECT_def upt_conv_Cons)
  with readi_reads[OF c f, of 510 4] show ?thesis by (auto simp: demo_fs_sel demo_inode_def)
qed

text \<open>C2: Atomic file writes.  In a transaction that has logged nothing yet and is the only one, let writei
  overwrite a part of a file, within its size and with as many blocks as the log has room for.  It returns
  the number of bytes, the file then reads as the old bytes with that part replaced, and no block other than
  the file's changes.  end\_op then commits; let the machine lose power after any number \<open>k\<close> of the disk
  writes of both.  Recovery on the rebooted kernel succeeds, and the file on the disk is the old one
  or the new one as a whole: the new one exactly when the log header, the write after the logged blocks, had
  reached the disk.\<close>

theorem file_write_atomic:
  fixes s :: "'a fsst_scheme" and off :: uint and src :: "uchar list"
  assumes "txn c pd s" "outstanding s = 1" "lh_n s = 0" "load32 (disk s (unat (lblk s 0))) 0 = 0"
    and "file_ok (bview s) (disksize s) (icache s ! i)" "file_sep (bview s) (log_area s) (icache s ! i)"
    and "src \<noteq> []" "unat off + length src \<le> unat (i_size (icache s ! i))" "int (span (unat off) (length src)) < log_size s"
  defines "before \<equiv> contents (bview s) (icache s ! i)"
  defines "after \<equiv> take (unat off) before @ src @ drop (unat off + length src) before"
  shows "\<exists>t u ws. writei c i src off (of_nat (length src)) s = Inr (int (length src), t) \<and> icache t = icache s \<and>
     contents (bview t) (icache s ! i) = after \<and>
     (\<forall>m. m \<notin> file_addr (bview s) (icache s ! i) ` {..<nblk (icache s ! i)} \<longrightarrow> bview t m = bview s m) \<and>
     end_op c t = Inr u \<and> dwrites u = dwrites s @ ws \<and>
     0 < lh_n t \<and> length ws = 2 * nat (lh_n t) + 2 \<and>
     (\<forall>k c' pd' (r :: 'b logst_scheme). k \<le> length ws \<longrightarrow> rebooted c' pd' s (dapply (take k ws) (disk s)) r \<longrightarrow>
        (\<exists>r'. recover_from_log c' r = Inr r' \<and>
           contents (\<lambda>m. disk r' (unat m)) (icache s ! i) = (if k \<le> nat (lh_n t) then before else after)))"
proof -
  let ?ip = "icache s ! i"
  have room: "lh_n s + int (span (unat off) (length src)) < log_size s" using assms(3,9) by simp
  from writei_ok[OF assms(1,5,6,8) room] assms(7) obtain t where
    t: "writei c i src off (of_nat (length src)) s = Inr (int (length src), t)" "txn c pd t" "same_fs s t"
      "rewritten (bview s) ?ip (unat off) src (bview t)" "0 < lh_n t" "disk t = disk s" "dwrites t = dwrites s" by blast
  have f: "icache t = icache s" "outstanding t = 1" "lblk t = lblk s" "log_start t = log_start s" "disksize t = disksize s"
    using t(3) inost_frame(1)[of t s] assms(2) by (simp_all add: same_fs_def lblk_def fun_eq_iff)
  have area: "log_area t = log_area s" by (rule same_fs_area[OF t(3)])
  have new: "contents (bview t) ?ip = after" using rewritten_contents[OF t(4) assms(8)] by (simp add: after_def before_def)
  have clean: "bview s m = disk s (unat m)" for m
    by (rule bview_clean[of pd "{}"]) (use assms(1,3) in \<open>simp_all add: txn_def log_ok_def\<close>)
  note sep = assms(6) and sep' = rewritten_ok(2)[OF assms(6) t(4), THEN iffD2, OF assms(6)]
  have z: "load32 (disk t (unat (lblk t 0))) 0 = 0" using assms(4) t(6) f(3) by simp
  obtain u ws where u: "end_op c t = Inr u" "dwrites u = dwrites t @ ws" "length ws = 2 * nat (lh_n t) + 2"
    "\<And>k c' pd' (r :: 'b logst_scheme). k \<le> length ws \<Longrightarrow> rebooted c' pd' t (dapply (take k ws) (disk t)) r \<Longrightarrow>
       \<exists>r'. recover_from_log c' r = Inr r' \<and> (\<forall>m. m \<notin> log_area t \<longrightarrow>
         disk r' (unat m) = (if k \<le> nat (lh_n t) then disk t (unat m) else bview t m))"
    by (rule end_op_durable[OF t(2) f(2) t(5) z]) blast
  have "\<exists>r'. recover_from_log c' r = Inr r' \<and> contents (\<lambda>m. disk r' (unat m)) ?ip = (if k \<le> nat (lh_n t) then before else after)"
    if k: "k \<le> length ws" "rebooted c' pd' s (dapply (take k ws) (disk s)) r" for k c' pd' and r :: "'b logst_scheme"
  proof -
    have "rebooted c' pd' t (dapply (take k ws) (disk t)) r" using k(2) f t(6) by (simp add: rebooted_def)
    from u(4)[OF k(1) this] obtain r' where r': "recover_from_log c' r = Inr r'"
      "\<And>m. m \<notin> log_area s \<Longrightarrow> disk r' (unat m) = (if k \<le> nat (lh_n t) then bview s m else bview t m)"
      using area t(6) clean by auto
    have "contents (\<lambda>m. disk r' (unat m)) ?ip = (if k \<le> nat (lh_n t) then before else after)"
      using contents_cong[OF sep, of "\<lambda>m. disk r' (unat m)"] contents_cong[OF sep', of "\<lambda>m. disk r' (unat m)"] r'(2) new
      by (simp add: before_def)
    with r'(1) show ?thesis by blast
  qed
  then show ?thesis using t(1,4,5,7) f(1) new u(1-3) by (auto simp: rewritten_def)
qed

theorem file_write_atomic_witness:
  "\<exists>t u ws r'. writei 0 0 [1, 2, 3, 4] 510 4 (demo_fs (\<lambda>_ _. 0)) = Inr (4, t) \<and> end_op 0 t = Inr u \<and>
     dwrites u = ws \<and> recover_from_log 0 (demo_fs (dapply ws (\<lambda>_ _. 0))) = Inr r' \<and>
     contents (\<lambda>m. disk r' (unat m)) demo_inode = replicate 510 0 @ [1, 2, 3, 4] @ replicate 86 0"
proof -
  let ?s = "demo_fs (\<lambda>_ _. 0)" and ?src = "[1, 2, 3, 4] :: uchar list"
  have l: "lblk ?s = (\<lambda>i. word_of_int (2 + int i))" by (simp add: lblk_def demo_fs_sel fun_eq_iff)
  have li: "unat (lblk ?s i) = 2 + i" if "i < 30" for i
    using that by (simp add: l unat_word_ariths unat_of_nat)
  have in_area: "m \<in> log_area ?s \<Longrightarrow> unat m < 32" for m using li by (auto simp: log_area_def demo_fs_sel)
  have inj: "inj_on (lblk ?s) {..<30}"
  proof (rule inj_onI)
    fix x y assume xy: "x \<in> {..<30 :: nat}" "y \<in> {..<30 :: nat}" "lblk ?s x = lblk ?s y"
    have "2 + x = 2 + y" using li[of x] li[of y] unfolding xy(3) using xy(1,2) by force
    then show "x = y" by simp
  qed
  have "n < 1000" if "n \<in> log_area ?s" for n using in_area[OF that] by (simp add: word_less_nat_alt)
  then have t: "txn 0 1 ?s" using inj by (simp add: txn_def log_ok_def demo_fs_cache demo_fs_sel LOGSIZE_def)
  have z: "load32 (disk ?s (unat (lblk ?s 0))) 0 = 0" by (simp add: demo_fs_sel load32_def)
  have f: "file_ok (bview ?s) (disksize ?s) (icache ?s ! 0)" by (simp add: demo_fs_sel demo_fs_file)
  have "(50 :: uint) \<notin> log_area ?s" "(51 :: uint) \<notin> log_area ?s" using in_area[of 50] in_area[of 51] by auto
  then have sep: "file_sep (bview ?s) (log_area ?s) (icache ?s ! 0)"
    using demo_fs_file(2,3) by (auto simp: file_sep_def demo_fs_sel demo_fs_file(1) NDIRECT_def inj_on_def less_2_cases_iff)
  have b: "unat (510 :: uint) + length ?src \<le> unat (i_size (icache ?s ! 0))" "int (span (unat (510 :: uint)) (length ?src)) < log_size ?s"
    "?src \<noteq> []" by (simp_all add: demo_fs_sel demo_inode_def span_def)
  have r: "rebooted 0 1 ?s d (demo_fs d)" for d by (simp add: rebooted_def demo_fs_cache demo_fs_sel)
  have old: "contents (bview ?s) demo_inode = replicate 600 0"
    by (rule nth_equalityI) (simp_all add: contents_def demo_inode_def file_byte_def demo_fs_view)
  have e: "contents (bview ?s) (icache ?s ! 0) = replicate 600 0" by (simp add: old demo_fs_sel)
  let ?new = "take (unat (510 :: uint)) (replicate 600 0) @ ?src @ drop (unat (510 :: uint) + length ?src) (replicate 600 0)"
  from file_write_atomic[where ?'b = "unit fsst_ext inost_ext", OF t demo_fs_sel(6,9) z f sep b(3,1,2), unfolded e]
  obtain t u ws where w: "writei 0 0 ?src 510 (of_nat (length ?src)) ?s = Inr (int (length ?src), t)" "end_op 0 t = Inr u"
    "dwrites u = dwrites ?s @ ws" "length ws = 2 * nat (lh_n t) + 2"
    and c: "\<forall>k c' pd' (r :: fsst). k \<le> length ws \<longrightarrow> rebooted c' pd' ?s (dapply (take k ws) (disk ?s)) r \<longrightarrow>
      (\<exists>r'. recover_from_log c' r = Inr r' \<and>
        contents (\<lambda>m. disk r' (unat m)) (icache ?s ! 0) = (if k \<le> nat (lh_n t) then replicate 600 0 else ?new))"
    by blast
  from c[rule_format, OF order_refl r] w(4) obtain r' where
    "recover_from_log 0 (demo_fs (dapply ws (\<lambda>_ _. 0))) = Inr r'" "contents (\<lambda>m. disk r' (unat m)) demo_inode = ?new"
    by (auto simp: demo_fs_sel)
  moreover have "?new = replicate 510 0 @ ?src @ replicate 86 0" by simp
  ultimately show ?thesis using w(1-3) by (auto simp: demo_fs_sel)
qed

end
