(* ===== verification/Spec2Isabelle.thy ===== *)
theory Spec2Isabelle
  imports Cstring Machine Cacheinv Pipeinv Consinv Trap Textutil Shell Umalloc Ide Pagetab Fileinv
begin

text \<open>Verification development of the xv6-based kernel under src/.\<close>

end
